theory Spec2Isabelle
  imports Main
begin

section \<open>The event graph of SingleEvent.ts\<close>

text \<open>
  The source is the second (sender-aware) version of \<^verbatim>\<open>SingleEvent.ts\<close>: the abstract class
  \<^verbatim>\<open>SuperEvent\<close> with its three subclasses \<^verbatim>\<open>SingleEventSource\<close>, \<^verbatim>\<open>FilterEvent\<close> and
  \<^verbatim>\<open>MapEvent\<close>. Objects live in a store: a node is named by its index in \<open>nodes\<close>, and every
  method takes the store and returns the updated one.

  A listener is a closure compared by reference. \<open>Ext j\<close> is a closure supplied by the caller
  (its body is outside the library and does not touch the graph; calling it is recorded in the
  trace). \<open>Once n p\<close> is the closure \<^verbatim>\<open>l = a => { ok(a); this.unlisten(l); }\<close> that
  \<^verbatim>\<open>next()\<close> builds on node \<open>n\<close> for the promise \<open>p\<close>.
\<close>

type_synonym nid = nat
type_synonym pid = nat

datatype listener = Ext nat | Once nid pid

text \<open>
  The field \<^verbatim>\<open>_connect\<close> holds either the callable given to \<^verbatim>\<open>singleEvent\<close> (\<open>OnConnect\<close>,
  opaque: its call is recorded) or the closure \<^verbatim>\<open>() => this.addChild(filterEvent)\<close> built by
  \<^verbatim>\<open>filter\<close> and \<^verbatim>\<open>map\<close> (\<open>AddChildHook this child\<close>); likewise \<^verbatim>\<open>_disconnect\<close>.
\<close>

datatype connect_hook = OnConnect | AddChildHook nid nid

datatype disconnect_hook = OnDisconnect | RemoveChildHook nid nid

text \<open>
  The subclass of a node with its private field: \<^verbatim>\<open>_pred\<close> or \<^verbatim>\<open>_transform\<close>. All event
  arguments share one type \<open>'v\<close> (a transform of TypeScript type \<^verbatim>\<open>B => C\<close> is a function on
  the sum of the argument types).
\<close>

datatype 'v variant = SingleEventSource | FilterEvent "'v \<Rightarrow> bool" | MapEvent "'v \<Rightarrow> 'v"

text \<open>
  The two \<^verbatim>\<open>Set\<close> fields are lists without repetition in insertion order, which is the order
  a JavaScript \<^verbatim>\<open>Set\<close> iterates in.
\<close>

record ('v, 's) node =
  listeners :: "listener list"
  children :: "nid list"
  connect :: connect_hook
  disconnect :: disconnect_hook
  sender :: 's
  variant :: "'v variant"

text \<open>
  What the outside observes: a call of the \<^verbatim>\<open>_connect\<close> or \<^verbatim>\<open>_disconnect\<close> field of a
  node, a call \<^verbatim>\<open>l(args, this._sender)\<close> of a listener, and an evaluation of
  \<^verbatim>\<open>this._pred(args)\<close> by a filter node.
\<close>

datatype ('v, 's) event = Connect nid | Disconnect nid | Call listener 'v 's | Test nid 'v

text \<open>
  A call of the async method \<^verbatim>\<open>take(count)\<close> is either suspended at
  \<^verbatim>\<open>await this.next()\<close> (node, \<open>count\<close>, \<open>i\<close>, \<open>array\<close> and the awaited promise) or has
  returned its array. \<open>count\<close> is an integer here.
\<close>

datatype 'v take_call = Awaiting nid int int "'v list" pid | Returned "'v list"

text \<open>
  The store: the nodes, the promises made by \<^verbatim>\<open>next()\<close> (\<open>None\<close> while pending), the calls
  of \<^verbatim>\<open>take\<close>, the queue of continuations made ready by a resolved promise, and the trace.
\<close>

record ('v, 's) state =
  nodes :: "('v, 's) node list"
  promises :: "'v option list"
  takes :: "'v take_call list"
  queue :: "nat list"
  trace :: "('v, 's) event list"

definition node_at :: "('v, 's) state \<Rightarrow> nid \<Rightarrow> ('v, 's) node option" where
  "node_at h n = (if n < length (nodes h) then Some (nodes h ! n) else None)"

definition put_node :: "('v, 's) state \<Rightarrow> nid \<Rightarrow> ('v, 's) node \<Rightarrow> ('v, 's) state" where
  "put_node h n nd = h\<lparr>nodes := (nodes h)[n := nd]\<rparr>"

definition emit :: "('v, 's) event \<Rightarrow> ('v, 's) state \<Rightarrow> ('v, 's) state" where
  "emit e h = h\<lparr>trace := trace h @ [e]\<rparr>"

text \<open>\<^verbatim>\<open>Set.add\<close> appends an element that is not yet there; \<^verbatim>\<open>Set.delete\<close> removes it.\<close>

definition set_add :: "'a \<Rightarrow> 'a list \<Rightarrow> 'a list" where
  "set_add x xs = (if x \<in> set xs then xs else xs @ [x])"

definition set_delete :: "'a \<Rightarrow> 'a list \<Rightarrow> 'a list" where
  "set_delete x xs = removeAll x xs"

text \<open>The test \<^verbatim>\<open>this._listeners.size === 0 && this._children.size === 0\<close>.\<close>

definition idle :: "('v, 's) node \<Rightarrow> bool" where
  "idle nd = (listeners nd = [] \<and> children nd = [])"

subsection \<open>addChild and removeChild\<close>

text \<open>
  Every method takes fuel, the depth of nested calls it may still make; \<open>None\<close> is a call
  that ran out of fuel or followed a reference to a node that is not in the store.
  \<open>run_connect\<close> is the call \<^verbatim>\<open>this._connect()\<close>.
\<close>

function run_connect :: "nat \<Rightarrow> ('v, 's) state \<Rightarrow> nid \<Rightarrow> ('v, 's) state option"
  and addChild :: "nat \<Rightarrow> ('v, 's) state \<Rightarrow> nid \<Rightarrow> nid \<Rightarrow> ('v, 's) state option" where
  "run_connect 0 h n = None"
| "run_connect (Suc k) h n =
     (case node_at h n of None \<Rightarrow> None
      | Some nd \<Rightarrow>
          (case connect nd of
             OnConnect \<Rightarrow> Some (emit (Connect n) h)
           | AddChildHook p c \<Rightarrow> addChild k (emit (Connect n) h) p c))"
| "addChild k h p c =
     (case node_at h p of None \<Rightarrow> None
      | Some nd \<Rightarrow>
          (case (if idle nd then run_connect k h p else Some h) of None \<Rightarrow> None
           | Some h1 \<Rightarrow>
               Some (put_node h1 p ((nodes h1 ! p)\<lparr>children := set_add c (children (nodes h1 ! p))\<rparr>))))"
  by pat_completeness auto
termination
  by (relation "measure (\<lambda>x. case x of Inl (k, h, n) \<Rightarrow> 2 * k | Inr (k, h, p, c) \<Rightarrow> 2 * k + 1)") auto

function run_disconnect :: "nat \<Rightarrow> ('v, 's) state \<Rightarrow> nid \<Rightarrow> ('v, 's) state option"
  and removeChild :: "nat \<Rightarrow> ('v, 's) state \<Rightarrow> nid \<Rightarrow> nid \<Rightarrow> ('v, 's) state option" where
  "run_disconnect 0 h n = None"
| "run_disconnect (Suc k) h n =
     (case node_at h n of None \<Rightarrow> None
      | Some nd \<Rightarrow>
          (case disconnect nd of
             OnDisconnect \<Rightarrow> Some (emit (Disconnect n) h)
           | RemoveChildHook p c \<Rightarrow> removeChild k (emit (Disconnect n) h) p c))"
| "removeChild k h p c =
     (case node_at h p of None \<Rightarrow> None
      | Some nd \<Rightarrow>
          (let h1 = put_node h p (nd\<lparr>children := set_delete c (children nd)\<rparr>)
           in if idle (nodes h1 ! p) then run_disconnect k h1 p else Some h1))"
  by pat_completeness auto
termination
  by (relation "measure (\<lambda>x. case x of Inl (k, h, n) \<Rightarrow> 2 * k | Inr (k, h, p, c) \<Rightarrow> 2 * k + 1)") auto

subsection \<open>listen and unlisten\<close>

definition listen :: "nat \<Rightarrow> ('v, 's) state \<Rightarrow> nid \<Rightarrow> listener \<Rightarrow> ('v, 's) state option" where
  "listen k h n l =
     (case node_at h n of None \<Rightarrow> None
      | Some nd \<Rightarrow>
          (case (if idle nd then run_connect k h n else Some h) of None \<Rightarrow> None
           | Some h1 \<Rightarrow>
               Some (put_node h1 n ((nodes h1 ! n)\<lparr>listeners := set_add l (listeners (nodes h1 ! n))\<rparr>))))"

text \<open>
  The loop \<^verbatim>\<open>for (let child of this._children)\<close> runs over a live \<^verbatim>\<open>Set\<close>: an element
  deleted before the iterator reaches it is skipped. Nothing that \<^verbatim>\<open>unlisten\<close> or a firing
  calls adds an element, so the loop is the walk over the elements present at its start that
  skips those deleted meanwhile.
\<close>

fun unlisten :: "nat \<Rightarrow> ('v, 's) state \<Rightarrow> nid \<Rightarrow> listener \<Rightarrow> ('v, 's) state option"
  and unlisten_children :: "nat \<Rightarrow> ('v, 's) state \<Rightarrow> nid \<Rightarrow> nid list \<Rightarrow> listener \<Rightarrow> ('v, 's) state option" where
  "unlisten 0 h n l = None"
| "unlisten (Suc k) h n l =
     (case node_at h n of None \<Rightarrow> None
      | Some nd \<Rightarrow>
          (let h1 = put_node h n (nd\<lparr>listeners := set_delete l (listeners nd)\<rparr>)
           in case unlisten_children k h1 n (children (nodes h1 ! n)) l of None \<Rightarrow> None
              | Some h2 \<Rightarrow> if idle (nodes h2 ! n) then run_disconnect k h2 n else Some h2))"
| "unlisten_children k h n [] l = Some h"
| "unlisten_children k h n (c # cs) l =
     (if c \<in> set (children (nodes h ! n))
      then (case unlisten k h c l of None \<Rightarrow> None | Some h1 \<Rightarrow> unlisten_children k h1 n cs l)
      else unlisten_children k h n cs l)"

subsection \<open>Firing\<close>

definition awaits :: "'v take_call \<Rightarrow> pid \<Rightarrow> bool" where
  "awaits tk p = (case tk of Awaiting n cnt i arr q \<Rightarrow> q = p | Returned arr \<Rightarrow> False)"

text \<open>
  \<^verbatim>\<open>ok(a)\<close>: a pending promise takes the value, and the continuation of the \<^verbatim>\<open>take\<close> call
  that awaits it is queued; a settled promise ignores the call.
\<close>

definition resolve :: "('v, 's) state \<Rightarrow> pid \<Rightarrow> 'v \<Rightarrow> ('v, 's) state" where
  "resolve h p v =
     (if p < length (promises h) \<and> promises h ! p = None
      then h\<lparr>promises := (promises h)[p := Some v],
             queue := queue h @ filter (\<lambda>t. awaits (takes h ! t) p) [0..<length (takes h)]\<rparr>
      else h)"

text \<open>The call \<^verbatim>\<open>l(args, this._sender)\<close>.\<close>

definition call_listener :: "nat \<Rightarrow> ('v, 's) state \<Rightarrow> listener \<Rightarrow> 'v \<Rightarrow> 's \<Rightarrow> ('v, 's) state option" where
  "call_listener k h l v s =
     (case l of
        Ext j \<Rightarrow> Some (emit (Call l v s) h)
      | Once n p \<Rightarrow> unlisten k (resolve (emit (Call l v s) h) p v) n l)"

text \<open>The loop \<^verbatim>\<open>for (let l of this._listeners) l(args, this._sender)\<close>, over the live set.\<close>

fun notify_loop :: "nat \<Rightarrow> ('v, 's) state \<Rightarrow> nid \<Rightarrow> listener list \<Rightarrow> 'v \<Rightarrow> ('v, 's) state option" where
  "notify_loop k h n [] v = Some h"
| "notify_loop k h n (l # ls) v =
     (if l \<in> set (listeners (nodes h ! n))
      then (case call_listener k h l v (sender (nodes h ! n)) of None \<Rightarrow> None
            | Some h1 \<Rightarrow> notify_loop k h1 n ls v)
      else notify_loop k h n ls v)"

text \<open>
  \<open>trigger\<close> is \<^verbatim>\<open>_trigger\<close> of the three subclasses, \<open>notifyListeners\<close> is
  \<^verbatim>\<open>_notifyListeners\<close>, and \<open>trigger_children\<close> is its second loop.
\<close>

fun trigger :: "nat \<Rightarrow> ('v, 's) state \<Rightarrow> nid \<Rightarrow> 'v \<Rightarrow> ('v, 's) state option"
  and notifyListeners :: "nat \<Rightarrow> ('v, 's) state \<Rightarrow> nid \<Rightarrow> 'v \<Rightarrow> ('v, 's) state option"
  and trigger_children :: "nat \<Rightarrow> ('v, 's) state \<Rightarrow> nid \<Rightarrow> nid list \<Rightarrow> 'v \<Rightarrow> ('v, 's) state option" where
  "trigger 0 h n v = None"
| "trigger (Suc k) h n v =
     (case node_at h n of None \<Rightarrow> None
      | Some nd \<Rightarrow>
          (case variant nd of
             SingleEventSource \<Rightarrow> notifyListeners k h n v
           | FilterEvent pred \<Rightarrow>
               (if pred v then notifyListeners k (emit (Test n v) h) n v else Some (emit (Test n v) h))
           | MapEvent transform \<Rightarrow> notifyListeners k h n (transform v)))"
| "notifyListeners k h n v =
     (case node_at h n of None \<Rightarrow> None
      | Some nd \<Rightarrow>
          (case notify_loop k h n (listeners nd) v of None \<Rightarrow> None
           | Some h1 \<Rightarrow> trigger_children k h1 n (children (nodes h1 ! n)) v))"
| "trigger_children k h n [] v = Some h"
| "trigger_children k h n (c # cs) v =
     (if c \<in> set (children (nodes h ! n))
      then (case trigger k h c v of None \<Rightarrow> None | Some h1 \<Rightarrow> trigger_children k h1 n cs v)
      else trigger_children k h n cs v)"

subsection \<open>Construction\<close>

definition init :: "('v, 's) state" where
  "init = \<lparr>nodes = [], promises = [], takes = [], queue = [], trace = []\<rparr>"

text \<open>
  \<^verbatim>\<open>singleEvent(sender, onConnect, onDisconnect)\<close> returns the new source; its trigger
  function is \<open>trigger\<close> at the returned node.
\<close>

definition singleEvent :: "('v, 's) state \<Rightarrow> 's \<Rightarrow> ('v, 's) state \<times> nid" where
  "singleEvent h s =
     (h\<lparr>nodes := nodes h @ [\<lparr>listeners = [], children = [], connect = OnConnect,
                              disconnect = OnDisconnect, sender = s, variant = SingleEventSource\<rparr>]\<rparr>,
      length (nodes h))"

text \<open>The shared body of \<^verbatim>\<open>filter\<close> and \<^verbatim>\<open>map\<close>: \<^verbatim>\<open>new FilterEvent(this._sender, ...)\<close>.\<close>

definition derive :: "('v, 's) state \<Rightarrow> nid \<Rightarrow> 'v variant \<Rightarrow> (('v, 's) state \<times> nid) option" where
  "derive h n var =
     (case node_at h n of None \<Rightarrow> None
      | Some nd \<Rightarrow>
          (let c = length (nodes h)
           in Some (h\<lparr>nodes := nodes h @ [\<lparr>listeners = [], children = [], connect = AddChildHook n c,
                                            disconnect = RemoveChildHook n c, sender = sender nd,
                                            variant = var\<rparr>]\<rparr>, c)))"

definition filter_ev :: "('v, 's) state \<Rightarrow> nid \<Rightarrow> ('v \<Rightarrow> bool) \<Rightarrow> (('v, 's) state \<times> nid) option" where
  "filter_ev h n pred = derive h n (FilterEvent pred)"

definition map_ev :: "('v, 's) state \<Rightarrow> nid \<Rightarrow> ('v \<Rightarrow> 'v) \<Rightarrow> (('v, 's) state \<times> nid) option" where
  "map_ev h n transform = derive h n (MapEvent transform)"

subsection \<open>next and take\<close>

text \<open>
  \<^verbatim>\<open>next()\<close> makes a promise, runs its executor at once (which builds the closure and
  calls \<^verbatim>\<open>this.listen(l)\<close>) and returns the promise.
\<close>

definition next_ev :: "nat \<Rightarrow> ('v, 's) state \<Rightarrow> nid \<Rightarrow> (('v, 's) state \<times> pid) option" where
  "next_ev k h n =
     (let p = length (promises h)
      in case listen k (h\<lparr>promises := promises h @ [None]\<rparr>) n (Once n p) of None \<Rightarrow> None
         | Some h1 \<Rightarrow> Some (h1, p))"

text \<open>
  The loop of \<^verbatim>\<open>take\<close> from its test \<^verbatim>\<open>i < count\<close> to the next suspension or to the
  return.
\<close>

definition take_loop :: "nat \<Rightarrow> ('v, 's) state \<Rightarrow> nid \<Rightarrow> int \<Rightarrow> int \<Rightarrow> 'v list \<Rightarrow> (('v, 's) state \<times> 'v take_call) option" where
  "take_loop k h n cnt i arr =
     (if i < cnt
      then (case next_ev k h n of None \<Rightarrow> None | Some (h1, p) \<Rightarrow> Some (h1, Awaiting n cnt i arr p))
      else Some (h, Returned arr))"

definition take_ev :: "nat \<Rightarrow> ('v, 's) state \<Rightarrow> nid \<Rightarrow> int \<Rightarrow> (('v, 's) state \<times> nat) option" where
  "take_ev k h n cnt =
     (case take_loop k h n cnt 0 [] of None \<Rightarrow> None
      | Some (h1, tk) \<Rightarrow> Some (h1\<lparr>takes := takes h1 @ [tk]\<rparr>, length (takes h1)))"

text \<open>
  The continuation of a suspended \<^verbatim>\<open>take\<close>: \<^verbatim>\<open>array.push(value); ++i\<close> and the loop again.
  It runs from the queue, after the synchronous call that resolved the promise has returned.
\<close>

definition resume :: "nat \<Rightarrow> ('v, 's) state \<Rightarrow> nat \<Rightarrow> ('v, 's) state option" where
  "resume k h t =
     (if t < length (takes h)
      then (case takes h ! t of
              Returned arr \<Rightarrow> Some h
            | Awaiting n cnt i arr p \<Rightarrow>
                (if p < length (promises h)
                 then (case promises h ! p of None \<Rightarrow> Some h
                       | Some a \<Rightarrow>
                           (case take_loop k h n cnt (i + 1) (arr @ [a]) of None \<Rightarrow> None
                            | Some (h1, tk) \<Rightarrow> Some (h1\<lparr>takes := (takes h1)[t := tk]\<rparr>)))
                 else None))
      else None)"

fun run_queue :: "nat \<Rightarrow> ('v, 's) state \<Rightarrow> nat list \<Rightarrow> ('v, 's) state option" where
  "run_queue k h [] = Some h"
| "run_queue k h (t # ts) = (case resume k h t of None \<Rightarrow> None | Some h1 \<Rightarrow> run_queue k h1 ts)"

definition drain :: "nat \<Rightarrow> ('v, 's) state \<Rightarrow> ('v, 's) state option" where
  "drain k h = run_queue k (h\<lparr>queue := []\<rparr>) (queue h)"

section \<open>Invariants of the store\<close>

text \<open>
  The stores that the constructors can build. A derived node is created after its parent, its
  hooks name the parent and itself (\<^verbatim>\<open>() => this.addChild(node)\<close>,
  \<^verbatim>\<open>() => this.removeChild(node)\<close>) and it carries the parent's sender; the children of a
  node are derived from it; a \<^verbatim>\<open>Set\<close> holds no element twice; the listener built by
  \<^verbatim>\<open>next()\<close> on a node is registered on that node only and its promise exists.
\<close>

definition hooks_ok :: "('v, 's) state \<Rightarrow> bool" where
  "hooks_ok h = (\<forall>n \<in> {..<length (nodes h)}.
     (case connect (nodes h ! n) of OnConnect \<Rightarrow> True
      | AddChildHook p c \<Rightarrow> p < n \<and> c = n \<and> sender (nodes h ! p) = sender (nodes h ! n)) \<and>
     (case disconnect (nodes h ! n) of OnDisconnect \<Rightarrow> True
      | RemoveChildHook p c \<Rightarrow> p < n \<and> c = n))"

definition links_ok :: "('v, 's) state \<Rightarrow> bool" where
  "links_ok h = (\<forall>n \<in> {..<length (nodes h)}.
     distinct (children (nodes h ! n)) \<and>
     (\<forall>c \<in> set (children (nodes h ! n)).
        n < c \<and> c < length (nodes h) \<and> sender (nodes h ! c) = sender (nodes h ! n)))"

definition listeners_ok :: "('v, 's) state \<Rightarrow> bool" where
  "listeners_ok h = (\<forall>n \<in> {..<length (nodes h)}.
     distinct (listeners (nodes h ! n)) \<and>
     (\<forall>l \<in> set (listeners (nodes h ! n)).
        case l of Ext j \<Rightarrow> True | Once m p \<Rightarrow> m = n \<and> p < length (promises h)))"

definition well_formed :: "('v, 's) state \<Rightarrow> bool" where
  "well_formed h = (hooks_ok h \<and> links_ok h \<and> listeners_ok h)"

section \<open>Frames\<close>

text \<open>
  What an operation leaves alone. \<open>static\<close> is the part of a node that is fixed at
  construction. \<open>thins\<close> relates a \<^verbatim>\<open>Set\<close> to one with some elements deleted. \<open>extends\<close> says
  that the trace has only been appended to and \<open>delta\<close> is the appended part. \<open>queues\<close> says that
  the queue of continuations has only been appended to and that every suspended call whose
  promise has been resolved meanwhile is queued. \<open>shrinks\<close> holds between the stores before and
  after any operation that only removes listeners and children and resolves promises.
\<close>

definition static :: "('v, 's) node \<Rightarrow> connect_hook \<times> disconnect_hook \<times> 's \<times> 'v variant" where
  "static nd = (connect nd, disconnect nd, sender nd, variant nd)"

definition thins :: "'a list \<Rightarrow> 'a list \<Rightarrow> bool" where
  "thins xs' xs = (set xs' \<subseteq> set xs \<and> (distinct xs \<longrightarrow> distinct xs'))"

definition delta :: "('v, 's) state \<Rightarrow> ('v, 's) state \<Rightarrow> ('v, 's) event list" where
  "delta h h' = drop (length (trace h)) (trace h')"

definition extends :: "('v, 's) state \<Rightarrow> ('v, 's) state \<Rightarrow> bool" where
  "extends h h' = (take (length (trace h)) (trace h') = trace h)"

definition queues :: "('v, 's) state \<Rightarrow> ('v, 's) state \<Rightarrow> bool" where
  "queues h h' =
     ((\<exists>qs. queue h' = queue h @ qs \<and> set qs \<subseteq> {..<length (takes h)}) \<and>
      (\<forall>p \<in> {..<length (promises h)}. \<forall>t \<in> {..<length (takes h)}.
         promises h ! p = None \<longrightarrow> promises h' ! p \<noteq> None \<longrightarrow> awaits (takes h ! t) p \<longrightarrow>
         t \<in> set (queue h')))"

definition shrinks :: "('v, 's) state \<Rightarrow> ('v, 's) state \<Rightarrow> bool" where
  "shrinks h h' =
     (map static (nodes h') = map static (nodes h) \<and>
      (\<forall>n \<in> {..<length (nodes h)}.
         thins (listeners (nodes h' ! n)) (listeners (nodes h ! n)) \<and>
         thins (children (nodes h' ! n)) (children (nodes h ! n))) \<and>
      length (promises h') = length (promises h) \<and>
      (\<forall>p \<in> {..<length (promises h)}. promises h ! p \<noteq> None \<longrightarrow> promises h' ! p = promises h ! p) \<and>
      takes h' = takes h \<and> extends h h' \<and> queues h h')"

text \<open>
  A bound on the depth of calls that no operation on a well-formed store exceeds: hooks and
  notifications go along parent links, each to a node created earlier or later than the last.
\<close>

definition enough :: "('v, 's) state \<Rightarrow> nat \<Rightarrow> bool" where
  "enough h k = (3 * length (nodes h) + 2 \<le> k)"


text \<open>
  The frames of the single operations: \<open>dframe\<close> for the disconnect hook, \<open>cframe\<close> for the
  connect hook, \<open>uframe l\<close> for \<^verbatim>\<open>unlisten(l)\<close>, which touches no listener but \<open>l\<close>.
\<close>

definition same_listeners :: "('v, 's) state \<Rightarrow> ('v, 's) state \<Rightarrow> bool" where
  "same_listeners h h' =
     (map listeners (nodes h') = map listeners (nodes h) \<and> promises h' = promises h \<and>
      queue h' = queue h \<and> takes h' = takes h)"

definition emits :: "(('v, 's) event \<Rightarrow> bool) \<Rightarrow> ('v, 's) state \<Rightarrow> ('v, 's) state \<Rightarrow> bool" where
  "emits P h h' = (extends h h' \<and> list_all P (delta h h'))"

fun is_Disconnect :: "('v, 's) event \<Rightarrow> bool" where
  "is_Disconnect (Disconnect n) = True"
| "is_Disconnect e = False"

fun is_Connect :: "('v, 's) event \<Rightarrow> bool" where
  "is_Connect (Connect n) = True"
| "is_Connect e = False"

definition dframe :: "('v, 's) state \<Rightarrow> ('v, 's) state \<Rightarrow> bool" where
  "dframe h h' = (shrinks h h' \<and> same_listeners h h' \<and> emits is_Disconnect h h')"

definition cframe :: "('v, 's) state \<Rightarrow> ('v, 's) state \<Rightarrow> bool" where
  "cframe h h' =
     (map static (nodes h') = map static (nodes h) \<and> same_listeners h h' \<and> emits is_Connect h h')"


definition lframe :: "listener \<Rightarrow> ('v, 's) state \<Rightarrow> ('v, 's) state \<Rightarrow> bool" where
  "lframe l h h' =
     (map (\<lambda>nd. removeAll l (listeners nd)) (nodes h') = map (\<lambda>nd. removeAll l (listeners nd)) (nodes h) \<and>
      promises h' = promises h \<and> queue h' = queue h)"

definition uframe :: "listener \<Rightarrow> ('v, 's) state \<Rightarrow> ('v, 's) state \<Rightarrow> bool" where
  "uframe l h h' = (shrinks h h' \<and> lframe l h h' \<and> emits is_Disconnect h h')"


section \<open>Reading the trace\<close>

text \<open>
  \<open>registered h l\<close>: some node holds the listener \<open>l\<close>. \<open>ev_ok h s b\<close> describes the events a
  notification with sender \<open>s\<close> may record: no connect hook, calls with sender \<open>s\<close> to listeners
  registered in \<open>h\<close>, tests of nodes from \<open>b\<close> on. \<open>calls_of\<close>, \<open>tests_of\<close> and \<open>sent_by\<close> select
  events of the trace.
\<close>

fun is_Call :: "('v, 's) event \<Rightarrow> bool" where
  "is_Call (Call l v s) = True"
| "is_Call e = False"

definition registered :: "('v, 's) state \<Rightarrow> listener \<Rightarrow> bool" where
  "registered h l = (\<exists>x \<in> {..<length (nodes h)}. l \<in> set (listeners (nodes h ! x)))"


definition ev_ok :: "('v, 's) state \<Rightarrow> 's \<Rightarrow> nat \<Rightarrow> ('v, 's) event \<Rightarrow> bool" where
  "ev_ok h s b e =
     (case e of Connect x \<Rightarrow> False | Disconnect x \<Rightarrow> True
      | Call l w s' \<Rightarrow> s' = s \<and> registered h l | Test x w \<Rightarrow> b \<le> x)"


fun calls_of :: "listener \<Rightarrow> ('v, 's) event \<Rightarrow> bool" where
  "calls_of l (Call l' v s) = (l' = l)"
| "calls_of l e = False"

fun tests_of :: "nid \<Rightarrow> ('v, 's) event \<Rightarrow> bool" where
  "tests_of n (Test x v) = (x = n)"
| "tests_of n e = False"

fun sent_by :: "'s \<Rightarrow> ('v, 's) event \<Rightarrow> bool" where
  "sent_by s (Call l v s') = (s' = s)"
| "sent_by s e = True"


text \<open>
  A store with a source that has two listeners, a \<^verbatim>\<open>filter\<close> node derived from it with one
  listener, and a \<^verbatim>\<open>map\<close> node derived from that with one listener; all connected.
\<close>

definition demo :: "(int, string) state" where
  "demo =
     \<lparr>nodes =
        [\<lparr>listeners = [Ext 1, Ext 2], children = [1], connect = OnConnect,
          disconnect = OnDisconnect, sender = ''me'', variant = SingleEventSource\<rparr>,
         \<lparr>listeners = [Ext 3], children = [2], connect = AddChildHook 0 1,
          disconnect = RemoveChildHook 0 1, sender = ''me'', variant = FilterEvent (\<lambda>x. 0 < x)\<rparr>,
         \<lparr>listeners = [Ext 4], children = [], connect = AddChildHook 1 2,
          disconnect = RemoveChildHook 1 2, sender = ''me'', variant = MapEvent (\<lambda>x. 2 * x)\<rparr>],
      promises = [], takes = [], queue = [], trace = []\<rparr>"


text \<open>
  A source, a \<^verbatim>\<open>filter\<close> node derived from it and a \<^verbatim>\<open>map\<close> node derived from that, as the
  three constructors leave them: nobody listens yet.
\<close>

definition fresh :: "(int, string) state" where
  "fresh =
     \<lparr>nodes =
        [\<lparr>listeners = [], children = [], connect = OnConnect,
          disconnect = OnDisconnect, sender = ''me'', variant = SingleEventSource\<rparr>,
         \<lparr>listeners = [], children = [], connect = AddChildHook 0 1,
          disconnect = RemoveChildHook 0 1, sender = ''me'', variant = FilterEvent (\<lambda>x. 0 < x)\<rparr>,
         \<lparr>listeners = [], children = [], connect = AddChildHook 1 2,
          disconnect = RemoveChildHook 1 2, sender = ''me'', variant = MapEvent (\<lambda>x. 2 * x)\<rparr>],
      promises = [], takes = [], queue = [], trace = []\<rparr>"


section \<open>Suspended calls of take\<close>

text \<open>
  \<open>rounds k h n vs\<close>: node \<open>n\<close> fires with each value of \<open>vs\<close> in turn, and after each firing the
  queue of continuations is run until it is empty, as the JavaScript job queue is between two
  tasks. \<open>takes_ok\<close>: a suspended call refers to an existing node and promise. \<open>grows\<close> is the
  frame of a registration. \<open>waiting\<close>: call \<open>t\<close> of \<^verbatim>\<open>take(cnt)\<close> on node \<open>n\<close> is suspended at
  iteration \<open>i\<close> holding \<open>arr\<close>, on a pending promise whose listener is registered on \<open>n\<close>;
  \<open>ready\<close>: it is suspended on a promise resolved with \<open>v\<close>; \<open>advanced\<close>: it has consumed \<open>v\<close>.
\<close>

fun rounds :: "nat \<Rightarrow> ('v, 's) state \<Rightarrow> nid \<Rightarrow> 'v list \<Rightarrow> ('v, 's) state option" where
  "rounds k h n [] = Some h"
| "rounds k h n (v # vs) =
     (case notifyListeners k h n v of None \<Rightarrow> None
      | Some h1 \<Rightarrow> (case drain k h1 of None \<Rightarrow> None | Some h2 \<Rightarrow> rounds k h2 n vs))"

definition takes_ok :: "('v, 's) state \<Rightarrow> bool" where
  "takes_ok h = (\<forall>tk \<in> set (takes h).
     case tk of Returned arr \<Rightarrow> True
     | Awaiting m cnt i arr q \<Rightarrow> m < length (nodes h) \<and> q < length (promises h))"

definition grows :: "('v, 's) state \<Rightarrow> ('v, 's) state \<Rightarrow> bool" where
  "grows h h' =
     (map static (nodes h') = map static (nodes h) \<and> length (takes h') = length (takes h) \<and>
      (\<exists>ps. promises h' = promises h @ ps) \<and>
      (\<forall>x \<in> {..<length (nodes h)}. set (listeners (nodes h ! x)) \<subseteq> set (listeners (nodes h' ! x))) \<and>
      queue h' = queue h)"

definition waiting :: "nat \<Rightarrow> nid \<Rightarrow> int \<Rightarrow> int \<Rightarrow> 'v list \<Rightarrow> ('v, 's) state \<Rightarrow> bool" where
  "waiting t n cnt i arr g =
     (\<exists>p. takes g ! t = Awaiting n cnt i arr p \<and> p < length (promises g) \<and> promises g ! p = None \<and>
          Once n p \<in> set (listeners (nodes g ! n)))"

definition ready :: "nat \<Rightarrow> nid \<Rightarrow> int \<Rightarrow> int \<Rightarrow> 'v list \<Rightarrow> 'v \<Rightarrow> ('v, 's) state \<Rightarrow> bool" where
  "ready t n cnt i arr v g =
     (\<exists>p. takes g ! t = Awaiting n cnt i arr p \<and> p < length (promises g) \<and> promises g ! p = Some v)"

definition advanced :: "nat \<Rightarrow> nid \<Rightarrow> int \<Rightarrow> int \<Rightarrow> 'v list \<Rightarrow> 'v \<Rightarrow> ('v, 's) state \<Rightarrow> bool" where
  "advanced t n cnt i arr v g =
     (if i + 1 < cnt then waiting t n cnt (i + 1) (arr @ [v]) g else takes g ! t = Returned (arr @ [v]))"

definition base :: "nat \<Rightarrow> nat \<Rightarrow> nid \<Rightarrow> ('v, 's) state \<Rightarrow> bool" where
  "base k t n g =
     (well_formed g \<and> takes_ok g \<and> enough g k \<and> n < length (nodes g) \<and> t < length (takes g))"


section \<open>The tree of attached nodes\<close>

text \<open>
  Two more properties of the stores that the constructors and \<^verbatim>\<open>listen\<close> build. \<open>tree_ok\<close>:
  the two hooks of a node name the same parent (or are both the callables of a source), and a
  child of a node is a node whose hooks name it, so every node is a child of at most one node.
  \<open>attached_ok\<close>: a node that is a child of some node has a listener or a child of its own,
  which is when \<^verbatim>\<open>listen\<close> and \<^verbatim>\<open>addChild\<close> attach it and until when \<^verbatim>\<open>unlisten\<close> and
  \<^verbatim>\<open>removeChild\<close> keep it.
\<close>

fun paired :: "connect_hook \<Rightarrow> disconnect_hook \<Rightarrow> bool" where
  "paired OnConnect d = (d = OnDisconnect)"
| "paired (AddChildHook p c) d = (d = RemoveChildHook p c)"

definition tree_ok :: "('v, 's) state \<Rightarrow> bool" where
  "tree_ok h = (\<forall>n \<in> {..<length (nodes h)}.
     paired (connect (nodes h ! n)) (disconnect (nodes h ! n)) \<and>
     (\<forall>c \<in> set (children (nodes h ! n)). connect (nodes h ! c) = AddChildHook n c))"

definition attached_ok :: "('v, 's) state \<Rightarrow> bool" where
  "attached_ok h =
     (\<forall>n \<in> {..<length (nodes h)}. \<forall>c \<in> set (children (nodes h ! n)). \<not> idle (nodes h ! c))"

text \<open>
  \<open>attached_but c\<close> holds inside \<^verbatim>\<open>listen\<close> and \<^verbatim>\<open>addChild\<close>, between the connect hook of
  \<open>c\<close> and the insertion that follows it.
\<close>

definition attached_but :: "nid \<Rightarrow> ('v, 's) state \<Rightarrow> bool" where
  "attached_but c h =
     (\<forall>n \<in> {..<length (nodes h)}. \<forall>y \<in> set (children (nodes h ! n)).
        y = c \<or> \<not> idle (nodes h ! y))"

text \<open>
  \<open>attached_ex S\<close> holds inside \<^verbatim>\<open>unlisten\<close> and \<^verbatim>\<open>removeChild\<close>: the nodes of \<open>S\<close> have
  lost an element and have not yet made their test \<^verbatim>\<open>size === 0\<close>.
\<close>

definition attached_ex :: "nid set \<Rightarrow> ('v, 's) state \<Rightarrow> bool" where
  "attached_ex S h =
     (\<forall>n \<in> {..<length (nodes h)}. \<forall>y \<in> set (children (nodes h ! n)).
        y \<in> S \<or> \<not> idle (nodes h ! y))"

text \<open>
  \<open>below ns c x\<close>: node \<open>x\<close> is \<open>c\<close> or is derived from it in some number of steps, going by
  the parent that the disconnect hook names.
\<close>

inductive below :: "('v, 's) node list \<Rightarrow> nid \<Rightarrow> nid \<Rightarrow> bool"
  for ns :: "('v, 's) node list" and c :: nid where
  below_self: "below ns c c"
| below_step: "x < length ns \<Longrightarrow> disconnect (ns ! x) = RemoveChildHook p y \<Longrightarrow> below ns c p \<Longrightarrow>
     below ns c x"

text \<open>\<open>apart h c x\<close>: neither of the nodes \<open>c\<close> and \<open>x\<close> is derived from the other.\<close>

definition apart :: "('v, 's) state \<Rightarrow> nid \<Rightarrow> nid \<Rightarrow> bool" where
  "apart h c x = (x < length (nodes h) \<and> \<not> below (nodes h) x c \<and> \<not> below (nodes h) c x)"

text \<open>
  \<open>quiet c\<close> is the frame of what happens elsewhere in the tree: the nodes from \<open>c\<close> down are
  untouched, \<open>c\<close> stays a child wherever it is one, and the predicate of \<open>c\<close> is not evaluated.
  \<open>calm n\<close> is the frame of the first loop of a firing of \<open>n\<close> when \<open>n\<close> has a child: only
  listeners of \<open>n\<close> are called and removed.
\<close>

definition quiet :: "nid \<Rightarrow> ('v, 's) state \<Rightarrow> ('v, 's) state \<Rightarrow> bool" where
  "quiet c h h' =
     (shrinks h h' \<and>
      (\<forall>x \<in> {..<length (nodes h)}. below (nodes h) c x \<longrightarrow> nodes h' ! x = nodes h ! x) \<and>
      (\<forall>x \<in> {..<length (nodes h)}.
         c \<in> set (children (nodes h ! x)) \<longrightarrow> c \<in> set (children (nodes h' ! x))) \<and>
      filter (tests_of c) (delta h h') = [])"

definition calm :: "nid \<Rightarrow> ('v, 's) state \<Rightarrow> ('v, 's) state \<Rightarrow> bool" where
  "calm n h h' =
     (shrinks h h' \<and>
      (\<forall>x \<in> {..<length (nodes h)}. x \<noteq> n \<longrightarrow> nodes h' ! x = nodes h ! x) \<and>
      children (nodes h' ! n) = children (nodes h ! n) \<and>
      list_all is_Call (delta h h'))"

lemma thins_refl: "thins xs xs"
  by (simp add: thins_def)

lemma thins_trans: "thins ys xs \<Longrightarrow> thins zs ys \<Longrightarrow> thins zs xs"
  by (auto simp: thins_def)

lemma thins_delete: "thins (set_delete x xs) xs"
  by (auto simp: thins_def set_delete_def distinct_removeAll)

lemma extends_refl: "extends h h"
  by (simp add: extends_def)

lemma extends_trace: "extends h h' \<Longrightarrow> trace h' = trace h @ delta h h'"
proof -
  assume "extends h h'"
  then have "take (length (trace h)) (trace h') = trace h" by (simp add: extends_def)
  then have "trace h @ drop (length (trace h)) (trace h') = trace h'"
    using append_take_drop_id[of "length (trace h)" "trace h'"] by simp
  then show ?thesis by (simp add: delta_def)
qed

lemma extends_append: "trace h' = trace h @ t \<Longrightarrow> extends h h'"
  by (simp add: extends_def)

lemma extends_trans:
  assumes "extends h h1" "extends h1 h2"
  shows "extends h h2"
proof -
  have "trace h2 = trace h @ (delta h h1 @ delta h1 h2)"
    using extends_trace[OF assms(1)] extends_trace[OF assms(2)] by simp
  then show ?thesis by (rule extends_append)
qed

lemma delta_trans:
  assumes "extends h h1" "extends h1 h2"
  shows "delta h h2 = delta h h1 @ delta h1 h2"
proof -
  have "trace h2 = trace h @ (delta h h1 @ delta h1 h2)"
    using extends_trace[OF assms(1)] extends_trace[OF assms(2)] by simp
  then have "drop (length (trace h)) (trace h2) = delta h h1 @ delta h1 h2"
    by simp
  then show ?thesis by (simp add: delta_def)
qed

lemma delta_refl: "delta h h = []"
  by (simp add: delta_def)

lemma static_nth:
  assumes "map static xs = map static ys" "n < length ys"
  shows "connect (xs ! n) = connect (ys ! n)" "disconnect (xs ! n) = disconnect (ys ! n)"
    "sender (xs ! n) = sender (ys ! n)" "variant (xs ! n) = variant (ys ! n)"
proof -
  have len: "length xs = length ys" using assms(1) by (metis length_map)
  have "static (xs ! n) = static (ys ! n)"
    using assms len by (metis nth_map)
  then show "connect (xs ! n) = connect (ys ! n)" "disconnect (xs ! n) = disconnect (ys ! n)"
    "sender (xs ! n) = sender (ys ! n)" "variant (xs ! n) = variant (ys ! n)"
    by (simp_all add: static_def)
qed

lemma static_length: "map static xs = map static ys \<Longrightarrow> length xs = length ys"
  by (metis length_map)


lemma links_okD:
  "links_ok h \<Longrightarrow> n < length (nodes h) \<Longrightarrow> c \<in> set (children (nodes h ! n)) \<Longrightarrow>
     n < c \<and> c < length (nodes h) \<and> sender (nodes h ! c) = sender (nodes h ! n)"
  unfolding links_ok_def by blast

lemma links_ok_distinct:
  "links_ok h \<Longrightarrow> n < length (nodes h) \<Longrightarrow> distinct (children (nodes h ! n))"
  unfolding links_ok_def by blast

lemma listeners_okD:
  "listeners_ok h \<Longrightarrow> n < length (nodes h) \<Longrightarrow> Once m p \<in> set (listeners (nodes h ! n)) \<Longrightarrow>
     m = n \<and> p < length (promises h)"
  unfolding listeners_ok_def by fastforce

lemma listeners_ok_distinct:
  "listeners_ok h \<Longrightarrow> n < length (nodes h) \<Longrightarrow> distinct (listeners (nodes h ! n))"
  unfolding listeners_ok_def by blast

lemma hooks_ok_connect:
  assumes "hooks_ok h" "n < length (nodes h)" "connect (nodes h ! n) = AddChildHook p c"
  shows "p < n \<and> c = n \<and> sender (nodes h ! p) = sender (nodes h ! n)"
proof -
  have "case connect (nodes h ! n) of OnConnect \<Rightarrow> True
      | AddChildHook p c \<Rightarrow> p < n \<and> c = n \<and> sender (nodes h ! p) = sender (nodes h ! n)"
    using assms(1,2) unfolding hooks_ok_def by blast
  then show ?thesis using assms(3) by simp
qed

lemma hooks_ok_disconnect:
  assumes "hooks_ok h" "n < length (nodes h)" "disconnect (nodes h ! n) = RemoveChildHook p c"
  shows "p < n \<and> c = n"
proof -
  have "case disconnect (nodes h ! n) of OnDisconnect \<Rightarrow> True
      | RemoveChildHook p c \<Rightarrow> p < n \<and> c = n"
    using assms(1,2) unfolding hooks_ok_def by blast
  then show ?thesis using assms(3) by simp
qed

lemma queues_same: "queue h' = queue h \<Longrightarrow> promises h' = promises h \<Longrightarrow> queues h h'"
  by (simp add: queues_def)

lemma queuesD:
  assumes "queues h h'"
  shows "\<exists>qs. queue h' = queue h @ qs \<and> set qs \<subseteq> {..<length (takes h)}"
    and "p < length (promises h) \<Longrightarrow> t < length (takes h) \<Longrightarrow> promises h ! p = None \<Longrightarrow>
         promises h' ! p \<noteq> None \<Longrightarrow> awaits (takes h ! t) p \<Longrightarrow> t \<in> set (queue h')"
  using assms unfolding queues_def by blast+

lemma shrinksD:
  assumes "shrinks h h'"
  shows "map static (nodes h') = map static (nodes h)"
    "length (nodes h') = length (nodes h)"
    "length (promises h') = length (promises h)"
    "takes h' = takes h" "extends h h'"
    "n < length (nodes h) \<Longrightarrow> thins (listeners (nodes h' ! n)) (listeners (nodes h ! n))"
    "n < length (nodes h) \<Longrightarrow> thins (children (nodes h' ! n)) (children (nodes h ! n))"
    "p < length (promises h) \<Longrightarrow> promises h ! p \<noteq> None \<Longrightarrow> promises h' ! p = promises h ! p"
    "queues h h'"
  using assms static_length[of "nodes h'" "nodes h"] unfolding shrinks_def by blast+

lemma thinsD: "thins xs' xs \<Longrightarrow> x \<in> set xs' \<Longrightarrow> x \<in> set xs"
  unfolding thins_def by blast

lemma thins_distinct: "thins xs' xs \<Longrightarrow> distinct xs \<Longrightarrow> distinct xs'"
  unfolding thins_def by blast

lemma shrinks_refl: "shrinks h h"
  by (simp add: shrinks_def thins_refl extends_refl queues_same)

lemma shrinks_trans:
  assumes "shrinks h h1" "shrinks h1 h2"
  shows "shrinks h h2"
proof -
  note a = shrinksD[OF assms(1)] and b = shrinksD[OF assms(2)]
  have "map static (nodes h2) = map static (nodes h)"
    using a(1) b(1) by simp
  moreover have "\<forall>n \<in> {..<length (nodes h)}.
         thins (listeners (nodes h2 ! n)) (listeners (nodes h ! n)) \<and>
         thins (children (nodes h2 ! n)) (children (nodes h ! n))"
  proof
    fix n assume "n \<in> {..<length (nodes h)}"
    then have n: "n < length (nodes h)" "n < length (nodes h1)" using a(2) by simp_all
    show "thins (listeners (nodes h2 ! n)) (listeners (nodes h ! n)) \<and>
         thins (children (nodes h2 ! n)) (children (nodes h ! n))"
      using a(6)[OF n(1)] a(7)[OF n(1)] b(6)[OF n(2)] b(7)[OF n(2)]
      by (blast intro: thins_trans)
  qed
  moreover have "length (promises h2) = length (promises h)"
    using a(3) b(3) by simp
  moreover have "\<forall>p \<in> {..<length (promises h)}. promises h ! p \<noteq> None \<longrightarrow> promises h2 ! p = promises h ! p"
  proof (intro ballI impI)
    fix p assume "p \<in> {..<length (promises h)}" and nn: "promises h ! p \<noteq> None"
    then have p: "p < length (promises h)" by simp
    have 1: "promises h1 ! p = promises h ! p" using a(8)[OF p nn] .
    have p1: "p < length (promises h1)" using p a(3) by simp
    have "promises h2 ! p = promises h1 ! p" using b(8)[OF p1] nn 1 by simp
    then show "promises h2 ! p = promises h ! p" using 1 by simp
  qed
  moreover have "takes h2 = takes h" using a(4) b(4) by simp
  moreover have "extends h h2" using a(5) b(5) by (rule extends_trans)
  moreover have "queues h h2"
  proof -
    obtain q1 where q1: "queue h1 = queue h @ q1" "set q1 \<subseteq> {..<length (takes h)}"
      using queuesD(1)[OF a(9)] by blast
    obtain q2 where q2: "queue h2 = queue h1 @ q2" "set q2 \<subseteq> {..<length (takes h1)}"
      using queuesD(1)[OF b(9)] by blast
    have "queue h2 = queue h @ (q1 @ q2) \<and> set (q1 @ q2) \<subseteq> {..<length (takes h)}"
      using q1 q2 a(4) by simp
    then have 1: "\<exists>qs. queue h2 = queue h @ qs \<and> set qs \<subseteq> {..<length (takes h)}" by blast
    have 2: "\<forall>p \<in> {..<length (promises h)}. \<forall>t \<in> {..<length (takes h)}.
         promises h ! p = None \<longrightarrow> promises h2 ! p \<noteq> None \<longrightarrow> awaits (takes h ! t) p \<longrightarrow>
         t \<in> set (queue h2)"
    proof (intro ballI impI)
      fix p t assume "p \<in> {..<length (promises h)}" "t \<in> {..<length (takes h)}"
        and pn: "promises h ! p = None" and p2: "promises h2 ! p \<noteq> None"
        and aw: "awaits (takes h ! t) p"
      then have p: "p < length (promises h)" and t: "t < length (takes h)" by simp_all
      show "t \<in> set (queue h2)"
      proof (cases "promises h1 ! p = None")
        case True
        have "t \<in> set (queue h2)"
          using queuesD(2)[OF b(9), of p t] p t a(3) a(4) True p2 aw by simp
        then show ?thesis .
      next
        case False
        have "t \<in> set (queue h1)" using queuesD(2)[OF a(9) p t pn False aw] .
        then show ?thesis using q2(1) by simp
      qed
    qed
    show ?thesis unfolding queues_def using 1 2 by blast
  qed
  ultimately show ?thesis unfolding shrinks_def by blast
qed

lemma shrinks_hooks_ok:
  assumes "hooks_ok h" "shrinks h h'"
  shows "hooks_ok h'"
  unfolding hooks_ok_def
proof
  note a = shrinksD[OF assms(2)]
  fix n assume "n \<in> {..<length (nodes h')}"
  then have n: "n < length (nodes h)" using a(2) by simp
  have c: "connect (nodes h' ! n) = connect (nodes h ! n)"
    and d: "disconnect (nodes h' ! n) = disconnect (nodes h ! n)"
    and s: "sender (nodes h' ! n) = sender (nodes h ! n)"
    using static_nth[OF a(1) n] by simp_all
  have 1: "case connect (nodes h' ! n) of OnConnect \<Rightarrow> True
      | AddChildHook p c \<Rightarrow> p < n \<and> c = n \<and> sender (nodes h' ! p) = sender (nodes h' ! n)"
  proof (cases "connect (nodes h ! n)")
    case OnConnect
    then show ?thesis using c by simp
  next
    case (AddChildHook p q)
    note k = hooks_ok_connect[OF assms(1) n AddChildHook]
    have "p < length (nodes h)" using k n by simp
    then have "sender (nodes h' ! p) = sender (nodes h ! p)"
      using static_nth(3)[OF a(1)] by simp
    then show ?thesis using c s k AddChildHook by simp
  qed
  have 2: "case disconnect (nodes h' ! n) of OnDisconnect \<Rightarrow> True
      | RemoveChildHook p c \<Rightarrow> p < n \<and> c = n"
  proof (cases "disconnect (nodes h ! n)")
    case OnDisconnect
    then show ?thesis using d by simp
  next
    case (RemoveChildHook p q)
    note k = hooks_ok_disconnect[OF assms(1) n RemoveChildHook]
    show ?thesis using d k RemoveChildHook by simp
  qed
  show "(case connect (nodes h' ! n) of OnConnect \<Rightarrow> True
      | AddChildHook p c \<Rightarrow> p < n \<and> c = n \<and> sender (nodes h' ! p) = sender (nodes h' ! n)) \<and>
     (case disconnect (nodes h' ! n) of OnDisconnect \<Rightarrow> True
      | RemoveChildHook p c \<Rightarrow> p < n \<and> c = n)"
    using 1 2 by blast
qed

lemma shrinks_links_ok:
  assumes "links_ok h" "shrinks h h'"
  shows "links_ok h'"
  unfolding links_ok_def
proof (intro ballI conjI)
  note a = shrinksD[OF assms(2)]
  fix n assume "n \<in> {..<length (nodes h')}"
  then have n: "n < length (nodes h)" using a(2) by simp
  show "distinct (children (nodes h' ! n))"
    using thins_distinct[OF a(7)[OF n] links_ok_distinct[OF assms(1) n]] .
  fix c assume "c \<in> set (children (nodes h' ! n))"
  then have c: "c \<in> set (children (nodes h ! n))" using thinsD[OF a(7)[OF n]] by blast
  note ok = links_okD[OF assms(1) n c]
  show "n < c" using ok by blast
  show "c < length (nodes h')" using ok a(2) by simp
  have "c < length (nodes h)" using ok by blast
  then show "sender (nodes h' ! c) = sender (nodes h' ! n)"
    using ok static_nth(3)[OF a(1) n] static_nth(3)[OF a(1), of c] by simp
qed

lemma shrinks_listeners_ok:
  assumes "listeners_ok h" "shrinks h h'"
  shows "listeners_ok h'"
  unfolding listeners_ok_def
proof (intro ballI conjI)
  note a = shrinksD[OF assms(2)]
  fix n assume "n \<in> {..<length (nodes h')}"
  then have n: "n < length (nodes h)" using a(2) by simp
  show "distinct (listeners (nodes h' ! n))"
    using thins_distinct[OF a(6)[OF n] listeners_ok_distinct[OF assms(1) n]] .
  fix l assume "l \<in> set (listeners (nodes h' ! n))"
  then have c: "l \<in> set (listeners (nodes h ! n))" using thinsD[OF a(6)[OF n]] by blast
  show "case l of Ext j \<Rightarrow> True | Once m p \<Rightarrow> m = n \<and> p < length (promises h')"
  proof (cases l)
    case (Ext j)
    then show ?thesis by simp
  next
    case (Once m p)
    then show ?thesis using listeners_okD[OF assms(1) n, of m p] c a(3) by simp
  qed
qed

lemma shrinks_well_formed: "well_formed h \<Longrightarrow> shrinks h h' \<Longrightarrow> well_formed h'"
  unfolding well_formed_def
  using shrinks_hooks_ok shrinks_links_ok shrinks_listeners_ok by blast

lemma shrinks_emit: "shrinks h (emit e h)"
  by (simp add: shrinks_def emit_def thins_refl extends_def queues_same)

lemma same_listeners_refl: "same_listeners h h"
  by (simp add: same_listeners_def)

lemma same_listeners_trans: "same_listeners h h1 \<Longrightarrow> same_listeners h1 h2 \<Longrightarrow> same_listeners h h2"
  by (simp add: same_listeners_def)

lemma emits_refl: "emits P h h"
  by (simp add: emits_def extends_refl delta_refl)

lemma emits_trans: "emits P h h1 \<Longrightarrow> emits P h1 h2 \<Longrightarrow> emits P h h2"
  unfolding emits_def
  using extends_trans[of h h1 h2] delta_trans[of h h1 h2] by simp

lemma emits_emit: "P e \<Longrightarrow> emits P h (emit e h)"
  by (simp add: emits_def extends_def delta_def emit_def)

lemma emits_mono: "emits P h h' \<Longrightarrow> (\<And>e. P e \<Longrightarrow> Q e) \<Longrightarrow> emits Q h h'"
  unfolding emits_def list_all_iff by blast

lemma dframe_refl: "dframe h h"
  by (simp add: dframe_def shrinks_refl same_listeners_refl emits_refl)

lemma dframe_trans: "dframe h h1 \<Longrightarrow> dframe h1 h2 \<Longrightarrow> dframe h h2"
  unfolding dframe_def
  using shrinks_trans same_listeners_trans emits_trans by blast

lemma dframe_emit: "dframe h (emit (Disconnect n) h)"
  unfolding dframe_def
  by (simp add: shrinks_emit emits_emit) (simp add: same_listeners_def emit_def)

lemma nodes_put_node: "nodes (put_node h n nd) = (nodes h)[n := nd]"
  by (simp add: put_node_def)

lemma other_put_node:
  "promises (put_node h n nd) = promises h" "takes (put_node h n nd) = takes h"
  "queue (put_node h n nd) = queue h" "trace (put_node h n nd) = trace h"
  by (simp_all add: put_node_def)

lemma map_update_same: "n < length xs \<Longrightarrow> f y = f (xs ! n) \<Longrightarrow> map f (xs[n := y]) = map f xs"
  by (simp add: map_update list_update_same_conv)

lemma static_children_update: "static (nd\<lparr>children := cs\<rparr>) = static nd"
  by (simp add: static_def)

lemma static_listeners_update: "static (nd\<lparr>listeners := ls\<rparr>) = static nd"
  by (simp add: static_def)

lemma dframe_del_child:
  assumes "n < length (nodes h)"
  shows "dframe h (put_node h n ((nodes h ! n)\<lparr>children := set_delete c (children (nodes h ! n))\<rparr>))"
    (is "dframe h ?h'")
proof -
  have st: "map static (nodes ?h') = map static (nodes h)"
    using assms by (simp add: nodes_put_node map_update_same static_children_update)
  have ls: "map listeners (nodes ?h') = map listeners (nodes h)"
    using assms by (simp add: nodes_put_node map_update_same)
  have th: "\<forall>m \<in> {..<length (nodes h)}.
         thins (listeners (nodes ?h' ! m)) (listeners (nodes h ! m)) \<and>
         thins (children (nodes ?h' ! m)) (children (nodes h ! m))"
  proof
    fix m assume "m \<in> {..<length (nodes h)}"
    then have m: "m < length (nodes h)" by simp
    show "thins (listeners (nodes ?h' ! m)) (listeners (nodes h ! m)) \<and>
         thins (children (nodes ?h' ! m)) (children (nodes h ! m))"
      using m by (cases "m = n") (simp_all add: nodes_put_node thins_refl thins_delete)
  qed
  have "shrinks h ?h'"
    unfolding shrinks_def using st th
    by (simp add: other_put_node extends_def queues_same)
  moreover have "same_listeners h ?h'"
    unfolding same_listeners_def using ls by (simp add: other_put_node)
  moreover have "emits is_Disconnect h ?h'"
    by (simp add: emits_def extends_def delta_def other_put_node)
  ultimately show ?thesis by (simp add: dframe_def)
qed

lemma node_at_Some: "node_at h n = Some nd \<Longrightarrow> n < length (nodes h) \<and> nd = nodes h ! n"
  by (auto simp: node_at_def split: if_splits)

lemma node_at_valid: "n < length (nodes h) \<Longrightarrow> node_at h n = Some (nodes h ! n)"
  by (simp add: node_at_def)

lemma disconnect_dframe:
  "run_disconnect k h n = Some h' \<Longrightarrow> dframe h h'"
  "removeChild k h p c = Some h' \<Longrightarrow> dframe h h'"
proof (induct k h n and k h p c arbitrary: h' and h' rule: run_disconnect_removeChild.induct)
  case (1 h n)
  then show ?case by simp
next
  case (2 k h n)
  from "2.prems" obtain nd where nd: "node_at h n = Some nd"
    by (auto split: option.splits)
  show ?case
  proof (cases "disconnect nd")
    case OnDisconnect
    then have "h' = emit (Disconnect n) h" using "2.prems" nd by simp
    then show ?thesis by (simp add: dframe_emit)
  next
    case (RemoveChildHook p c)
    then have "removeChild k (emit (Disconnect n) h) p c = Some h'" using "2.prems" nd by simp
    then have "dframe (emit (Disconnect n) h) h'"
      using "2.hyps"[OF nd RemoveChildHook] by blast
    then show ?thesis using dframe_emit dframe_trans by blast
  qed
next
  case (3 k h p c)
  from "3.prems" obtain nd where nd: "node_at h p = Some nd"
    by (auto split: option.splits)
  note v = node_at_Some[OF nd]
  define h1 where "h1 = put_node h p (nd\<lparr>children := set_delete c (children nd)\<rparr>)"
  have d1: "dframe h h1" unfolding h1_def using dframe_del_child[of p h c] v by simp
  show ?case
  proof (cases "idle (nodes h1 ! p)")
    case True
    then have "run_disconnect k h1 p = Some h'"
      using "3.prems" nd by (simp add: h1_def Let_def)
    then have "dframe h1 h'" using "3.hyps"[OF nd h1_def True] by blast
    then show ?thesis using d1 dframe_trans by blast
  next
    case False
    then have "h' = h1" using "3.prems" nd by (simp add: h1_def Let_def)
    then show ?thesis using d1 by simp
  qed
qed

lemma disconnect_total:
  "hooks_ok h \<Longrightarrow> n < length (nodes h) \<Longrightarrow> n < k \<Longrightarrow> \<exists>h'. run_disconnect k h n = Some h'"
  "hooks_ok h \<Longrightarrow> p < length (nodes h) \<Longrightarrow> p < k \<Longrightarrow> \<exists>h'. removeChild k h p c = Some h'"
proof (induct k h n and k h p c rule: run_disconnect_removeChild.induct)
  case (1 h n)
  then show ?case by simp
next
  case (2 k h n)
  have nd: "node_at h n = Some (nodes h ! n)" using "2.prems" by (simp add: node_at_def)
  show ?case
  proof (cases "disconnect (nodes h ! n)")
    case OnDisconnect
    then show ?thesis using nd by simp
  next
    case (RemoveChildHook p c)
    note ok = hooks_ok_disconnect[OF "2.prems"(1,2) RemoveChildHook]
    have 1: "hooks_ok (emit (Disconnect n) h)"
      using shrinks_hooks_ok[OF "2.prems"(1) shrinks_emit] .
    have 2: "p < length (nodes (emit (Disconnect n) h))"
      using ok "2.prems"(2) by (simp add: emit_def)
    have 3: "p < k" using ok "2.prems"(3) by simp
    show ?thesis
      using "2.hyps"[OF nd RemoveChildHook 1 2 3] nd RemoveChildHook by simp
  qed
next
  case (3 k h p c)
  have nd: "node_at h p = Some (nodes h ! p)" using "3.prems" by (simp add: node_at_def)
  define h1 where "h1 = put_node h p ((nodes h ! p)\<lparr>children := set_delete c (children (nodes h ! p))\<rparr>)"
  have d1: "dframe h h1" unfolding h1_def using dframe_del_child[of p h c] "3.prems" by simp
  then have sh: "shrinks h h1" by (simp add: dframe_def)
  have 1: "hooks_ok h1" using shrinks_hooks_ok[OF "3.prems"(1) sh] .
  have 2: "p < length (nodes h1)" using shrinksD(2)[OF sh] "3.prems"(2) by simp
  show ?case
  proof (cases "idle (nodes h1 ! p)")
    case True
    show ?thesis
      using "3.hyps"[OF nd h1_def True 1 2 "3.prems"(3)] nd True
      by (simp add: h1_def Let_def)
  next
    case False
    then show ?thesis using nd by (simp add: h1_def Let_def)
  qed
qed

lemma hooks_ok_static:
  assumes "hooks_ok h" "map static (nodes h') = map static (nodes h)"
  shows "hooks_ok h'"
  unfolding hooks_ok_def
proof
  have len: "length (nodes h') = length (nodes h)" using static_length[OF assms(2)] .
  fix n assume "n \<in> {..<length (nodes h')}"
  then have n: "n < length (nodes h)" using len by simp
  have c: "connect (nodes h' ! n) = connect (nodes h ! n)"
    and d: "disconnect (nodes h' ! n) = disconnect (nodes h ! n)"
    and s: "sender (nodes h' ! n) = sender (nodes h ! n)"
    using static_nth[OF assms(2) n] by simp_all
  have 1: "case connect (nodes h' ! n) of OnConnect \<Rightarrow> True
      | AddChildHook p c \<Rightarrow> p < n \<and> c = n \<and> sender (nodes h' ! p) = sender (nodes h' ! n)"
  proof (cases "connect (nodes h ! n)")
    case OnConnect
    then show ?thesis using c by simp
  next
    case (AddChildHook p q)
    note k = hooks_ok_connect[OF assms(1) n AddChildHook]
    have "p < length (nodes h)" using k n by simp
    then have "sender (nodes h' ! p) = sender (nodes h ! p)"
      using static_nth(3)[OF assms(2)] by simp
    then show ?thesis using c s k AddChildHook by simp
  qed
  have 2: "case disconnect (nodes h' ! n) of OnDisconnect \<Rightarrow> True
      | RemoveChildHook p c \<Rightarrow> p < n \<and> c = n"
  proof (cases "disconnect (nodes h ! n)")
    case OnDisconnect
    then show ?thesis using d by simp
  next
    case (RemoveChildHook p q)
    note k = hooks_ok_disconnect[OF assms(1) n RemoveChildHook]
    show ?thesis using d k RemoveChildHook by simp
  qed
  show "(case connect (nodes h' ! n) of OnConnect \<Rightarrow> True
      | AddChildHook p c \<Rightarrow> p < n \<and> c = n \<and> sender (nodes h' ! p) = sender (nodes h' ! n)) \<and>
     (case disconnect (nodes h' ! n) of OnDisconnect \<Rightarrow> True
      | RemoveChildHook p c \<Rightarrow> p < n \<and> c = n)"
    using 1 2 by blast
qed

lemma listeners_nth:
  "map listeners (nodes h') = map listeners (nodes h) \<Longrightarrow> n < length (nodes h) \<Longrightarrow>
     listeners (nodes h' ! n) = listeners (nodes h ! n)"
  by (metis length_map nth_map)

lemma listeners_ok_same:
  assumes "listeners_ok h" "same_listeners h h'"
  shows "listeners_ok h'"
proof -
  have m: "map listeners (nodes h') = map listeners (nodes h)" and p: "promises h' = promises h"
    using assms(2) by (simp_all add: same_listeners_def)
  have len: "length (nodes h') = length (nodes h)" using m by (metis length_map)
  have "\<And>n. n < length (nodes h) \<Longrightarrow> listeners (nodes h' ! n) = listeners (nodes h ! n)"
    using listeners_nth[OF m] .
  then show ?thesis using assms(1) unfolding listeners_ok_def len p by simp
qed

lemma cframe_refl: "cframe h h"
  by (simp add: cframe_def same_listeners_refl emits_refl)

lemma cframe_trans: "cframe h h1 \<Longrightarrow> cframe h1 h2 \<Longrightarrow> cframe h h2"
  unfolding cframe_def
  using same_listeners_trans[of h h1 h2] emits_trans[of is_Connect h h1 h2] by simp

lemma cframe_emit: "cframe h (emit (Connect n) h)"
  unfolding cframe_def
  by (simp add: emits_emit) (simp add: same_listeners_def emit_def)

lemma cframe_put_children:
  assumes "n < length (nodes h)"
  shows "cframe h (put_node h n ((nodes h ! n)\<lparr>children := cs\<rparr>))" (is "cframe h ?h'")
proof -
  have st: "map static (nodes ?h') = map static (nodes h)"
    using assms by (simp add: nodes_put_node map_update_same static_children_update)
  have ls: "map listeners (nodes ?h') = map listeners (nodes h)"
    using assms by (simp add: nodes_put_node map_update_same)
  have "same_listeners h ?h'"
    unfolding same_listeners_def using ls by (simp add: other_put_node)
  moreover have "emits is_Connect h ?h'"
    by (simp add: emits_def extends_def delta_def other_put_node)
  ultimately show ?thesis using st by (simp add: cframe_def)
qed

lemma cframeD:
  assumes "cframe h h'"
  shows "map static (nodes h') = map static (nodes h)" "length (nodes h') = length (nodes h)"
    "map listeners (nodes h') = map listeners (nodes h)" "promises h' = promises h"
    "queue h' = queue h" "takes h' = takes h" "extends h h'" "list_all is_Connect (delta h h')"
  using assms static_length[of "nodes h'" "nodes h"]
  unfolding cframe_def same_listeners_def emits_def by blast+

lemma links_ok_emit: "links_ok (emit e h) = links_ok h"
  by (simp add: links_ok_def emit_def)

lemma set_add_set: "set (set_add x xs) = insert x (set xs)"
  by (auto simp: set_add_def)

lemma set_add_distinct: "distinct xs \<Longrightarrow> distinct (set_add x xs)"
  by (simp add: set_add_def)

lemma links_ok_add_child:
  assumes "links_ok h" "p < c" "c < length (nodes h)" "sender (nodes h ! c) = sender (nodes h ! p)"
  shows "links_ok (put_node h p ((nodes h ! p)\<lparr>children := set_add c (children (nodes h ! p))\<rparr>))"
    (is "links_ok ?h'")
  unfolding links_ok_def
proof (intro ballI conjI)
  have p: "p < length (nodes h)" using assms(2,3) by simp
  have len: "length (nodes ?h') = length (nodes h)" by (simp add: nodes_put_node)
  have snd: "\<And>m. m < length (nodes h) \<Longrightarrow> sender (nodes ?h' ! m) = sender (nodes h ! m)"
    by (case_tac "m = p") (simp_all add: nodes_put_node)
  fix n assume "n \<in> {..<length (nodes ?h')}"
  then have n: "n < length (nodes h)" using len by simp
  have ch: "children (nodes ?h' ! n) = (if n = p then set_add c (children (nodes h ! p)) else children (nodes h ! n))"
    using n by (simp add: nodes_put_node nth_list_update)
  show "distinct (children (nodes ?h' ! n))"
    using ch links_ok_distinct[OF assms(1) n] links_ok_distinct[OF assms(1) p]
    by (simp add: set_add_distinct)
  fix x assume x: "x \<in> set (children (nodes ?h' ! n))"
  have ok: "n < x \<and> x < length (nodes h) \<and> sender (nodes h ! x) = sender (nodes h ! n)"
  proof (cases "n = p \<and> x = c")
    case True
    then show ?thesis using assms by simp
  next
    case False
    then have "x \<in> set (children (nodes h ! n))" using x ch
      by (auto simp: set_add_set split: if_splits)
    then show ?thesis using links_okD[OF assms(1) n] by blast
  qed
  show "n < x" using ok by blast
  show "x < length (nodes ?h')" using ok len by simp
  show "sender (nodes ?h' ! x) = sender (nodes ?h' ! n)" using ok snd n by simp
qed

lemma connect_frame:
  "well_formed h \<Longrightarrow> n < length (nodes h) \<Longrightarrow> run_connect k h n = Some h' \<Longrightarrow>
     well_formed h' \<and> cframe h h'"
  "well_formed h \<Longrightarrow> p < c \<Longrightarrow> c < length (nodes h) \<Longrightarrow>
     sender (nodes h ! c) = sender (nodes h ! p) \<Longrightarrow> addChild k h p c = Some h' \<Longrightarrow>
     well_formed h' \<and> cframe h h'"
proof (induct k h n and k h p c arbitrary: h' and h' rule: run_connect_addChild.induct)
  case (1 h n)
  then show ?case by simp
next
  case (2 k h n)
  have nd: "node_at h n = Some (nodes h ! n)" using "2.prems" by (simp add: node_at_def)
  have wfe: "well_formed (emit (Connect n) h)"
    using shrinks_well_formed[OF "2.prems"(1) shrinks_emit] .
  show ?case
  proof (cases "connect (nodes h ! n)")
    case OnConnect
    then have "h' = emit (Connect n) h" using "2.prems" nd by simp
    then show ?thesis using wfe cframe_emit by blast
  next
    case (AddChildHook p c)
    have hk: "hooks_ok h" using "2.prems"(1) by (simp add: well_formed_def)
    note ok = hooks_ok_connect[OF hk "2.prems"(2) AddChildHook]
    have run: "addChild k (emit (Connect n) h) p c = Some h'"
      using "2.prems" nd AddChildHook by simp
    have a: "p < c" using ok by simp
    have b: "c < length (nodes (emit (Connect n) h))" using ok "2.prems"(2) by (simp add: emit_def)
    have s: "sender (nodes (emit (Connect n) h) ! c) = sender (nodes (emit (Connect n) h) ! p)"
      using ok by (simp add: emit_def)
    have "well_formed h' \<and> cframe (emit (Connect n) h) h'"
      using "2.hyps"[OF nd AddChildHook wfe a b s run] .
    then show ?thesis using cframe_emit cframe_trans by blast
  qed
next
  case (3 k h p c)
  have pv: "p < length (nodes h)" using "3.prems" by simp
  have nd: "node_at h p = Some (nodes h ! p)" using pv by (simp add: node_at_def)
  obtain h1 where h1: "(if idle (nodes h ! p) then run_connect k h p else Some h) = Some h1"
    and h': "h' = put_node h1 p ((nodes h1 ! p)\<lparr>children := set_add c (children (nodes h1 ! p))\<rparr>)"
    using "3.prems"(5) nd by (auto split: option.splits)
  have 1: "well_formed h1 \<and> cframe h h1"
  proof (cases "idle (nodes h ! p)")
    case True
    then have "run_connect k h p = Some h1" using h1 by simp
    then show ?thesis using "3.hyps"[OF nd True "3.prems"(1) pv] by blast
  next
    case False
    then have "h1 = h" using h1 by simp
    then show ?thesis using "3.prems"(1) cframe_refl by simp
  qed
  note cf = cframeD[OF conjunct2[OF 1]]
  have c1: "c < length (nodes h1)" using cf(2) "3.prems"(3) by simp
  have p1: "p < length (nodes h1)" using cf(2) pv by simp
  have s1: "sender (nodes h1 ! c) = sender (nodes h1 ! p)"
    using static_nth(3)[OF cf(1) pv] static_nth(3)[OF cf(1) "3.prems"(3)] "3.prems"(4) by simp
  have wf1: "hooks_ok h1" "links_ok h1" "listeners_ok h1"
    using 1 by (simp_all add: well_formed_def)
  have cf2: "cframe h1 h'" unfolding h' using cframe_put_children[OF p1] .
  note cf2D = cframeD[OF cf2]
  have "links_ok h'" unfolding h' using links_ok_add_child[OF wf1(2) "3.prems"(2) c1 s1] .
  moreover have "hooks_ok h'" using hooks_ok_static[OF wf1(1) cf2D(1)] .
  moreover have "listeners_ok h'"
    using listeners_ok_same[OF wf1(3)] cf2 by (simp add: cframe_def)
  ultimately have "well_formed h'" by (simp add: well_formed_def)
  then show ?case using 1 cf2 cframe_trans by blast
qed

lemma connect_total:
  "hooks_ok h \<Longrightarrow> n < length (nodes h) \<Longrightarrow> n < k \<Longrightarrow> \<exists>h'. run_connect k h n = Some h'"
  "hooks_ok h \<Longrightarrow> p < length (nodes h) \<Longrightarrow> p < k \<Longrightarrow> \<exists>h'. addChild k h p c = Some h'"
proof (induct k h n and k h p c rule: run_connect_addChild.induct)
  case (1 h n)
  then show ?case by simp
next
  case (2 k h n)
  have nd: "node_at h n = Some (nodes h ! n)" using "2.prems" by (simp add: node_at_def)
  show ?case
  proof (cases "connect (nodes h ! n)")
    case OnConnect
    then show ?thesis using nd by simp
  next
    case (AddChildHook p c)
    note ok = hooks_ok_connect[OF "2.prems"(1,2) AddChildHook]
    have 1: "hooks_ok (emit (Connect n) h)"
      using shrinks_hooks_ok[OF "2.prems"(1) shrinks_emit] .
    have 2: "p < length (nodes (emit (Connect n) h))"
      using ok "2.prems"(2) by (simp add: emit_def)
    have 3: "p < k" using ok "2.prems"(3) by simp
    show ?thesis
      using "2.hyps"[OF nd AddChildHook 1 2 3] nd AddChildHook by simp
  qed
next
  case (3 k h p c)
  have nd: "node_at h p = Some (nodes h ! p)" using "3.prems" by (simp add: node_at_def)
  show ?case
  proof (cases "idle (nodes h ! p)")
    case True
    obtain h1 where "run_connect k h p = Some h1"
      using "3.hyps"[OF nd True "3.prems"] by blast
    then show ?thesis using nd True by simp
  next
    case False
    then show ?thesis using nd by simp
  qed
qed

lemma lframe_refl: "lframe l h h"
  by (simp add: lframe_def)

lemma lframe_trans: "lframe l h h1 \<Longrightarrow> lframe l h1 h2 \<Longrightarrow> lframe l h h2"
  by (simp add: lframe_def)

lemma same_listeners_lframe: "same_listeners h h' \<Longrightarrow> lframe l h h'"
proof -
  assume a: "same_listeners h h'"
  then have m: "map listeners (nodes h') = map listeners (nodes h)" by (simp add: same_listeners_def)
  have "map (\<lambda>nd. removeAll l (listeners nd)) (nodes h') = map (removeAll l) (map listeners (nodes h'))"
    by simp
  also have "\<dots> = map (removeAll l) (map listeners (nodes h))" using m by simp
  finally have "map (\<lambda>nd. removeAll l (listeners nd)) (nodes h') = map (\<lambda>nd. removeAll l (listeners nd)) (nodes h)"
    by simp
  then show ?thesis using a by (simp add: lframe_def same_listeners_def)
qed

lemma uframe_refl: "uframe l h h"
  by (simp add: uframe_def shrinks_refl lframe_refl emits_refl)

lemma uframe_trans: "uframe l h h1 \<Longrightarrow> uframe l h1 h2 \<Longrightarrow> uframe l h h2"
  unfolding uframe_def
  using shrinks_trans[of h h1 h2] lframe_trans[of l h h1 h2] emits_trans[of is_Disconnect h h1 h2]
  by blast

lemma dframe_uframe: "dframe h h' \<Longrightarrow> uframe l h h'"
  by (simp add: dframe_def uframe_def same_listeners_lframe)

lemma uframe_del_listener:
  assumes "n < length (nodes h)"
  shows "uframe l h (put_node h n ((nodes h ! n)\<lparr>listeners := set_delete l (listeners (nodes h ! n))\<rparr>))"
    (is "uframe l h ?h'")
proof -
  have st: "map static (nodes ?h') = map static (nodes h)"
    using assms by (simp add: nodes_put_node map_update_same static_listeners_update)
  have ls: "map (\<lambda>nd. removeAll l (listeners nd)) (nodes ?h') = map (\<lambda>nd. removeAll l (listeners nd)) (nodes h)"
    using assms by (simp add: nodes_put_node map_update_same set_delete_def)
  have th: "\<forall>m \<in> {..<length (nodes h)}.
         thins (listeners (nodes ?h' ! m)) (listeners (nodes h ! m)) \<and>
         thins (children (nodes ?h' ! m)) (children (nodes h ! m))"
  proof
    fix m assume "m \<in> {..<length (nodes h)}"
    then have m: "m < length (nodes h)" by simp
    show "thins (listeners (nodes ?h' ! m)) (listeners (nodes h ! m)) \<and>
         thins (children (nodes ?h' ! m)) (children (nodes h ! m))"
      using m by (cases "m = n") (simp_all add: nodes_put_node thins_refl thins_delete)
  qed
  have "shrinks h ?h'"
    unfolding shrinks_def using st th
    by (simp add: other_put_node extends_def queues_same)
  moreover have "lframe l h ?h'"
    unfolding lframe_def using ls by (simp add: other_put_node)
  moreover have "emits is_Disconnect h ?h'"
    by (simp add: emits_def extends_def delta_def other_put_node)
  ultimately show ?thesis by (simp add: uframe_def)
qed

lemma unlisten_frame:
  "unlisten k h n l = Some h' \<Longrightarrow> uframe l h h'"
  "unlisten_children k h n cs l = Some h' \<Longrightarrow> uframe l h h'"
proof (induct k h n l and k h n cs l arbitrary: h' and h' rule: unlisten_unlisten_children.induct)
  case (1 h n l)
  then show ?case by simp
next
  case (2 k h n l)
  from "2.prems" obtain nd where nd: "node_at h n = Some nd"
    by (auto split: option.splits)
  note v = node_at_Some[OF nd]
  define h1 where "h1 = put_node h n (nd\<lparr>listeners := set_delete l (listeners nd)\<rparr>)"
  have f1: "uframe l h h1" unfolding h1_def using uframe_del_listener[of n h l] v by simp
  obtain h2 where h2: "unlisten_children k h1 n (children (nodes h1 ! n)) l = Some h2"
    and fin: "(if idle (nodes h2 ! n) then run_disconnect k h2 n else Some h2) = Some h'"
    using "2.prems" nd by (auto simp: h1_def Let_def split: option.splits)
  have f2: "uframe l h1 h2" using "2.hyps"[OF nd h1_def h2] .
  have f3: "uframe l h2 h'"
  proof (cases "idle (nodes h2 ! n)")
    case True
    then have "run_disconnect k h2 n = Some h'" using fin by simp
    then show ?thesis using disconnect_dframe(1) dframe_uframe by blast
  next
    case False
    then show ?thesis using fin by (simp add: uframe_refl)
  qed
  show ?case using f1 f2 f3 uframe_trans by blast
next
  case (3 k h n l)
  then show ?case by (simp add: uframe_refl)
next
  case (4 k h n c cs l)
  show ?case
  proof (cases "c \<in> set (children (nodes h ! n))")
    case True
    then obtain h1 where h1: "unlisten k h c l = Some h1"
      and r: "unlisten_children k h1 n cs l = Some h'"
      using "4.prems" by (auto split: option.splits)
    have "uframe l h h1" using "4.hyps"(1)[OF True h1] .
    moreover have "uframe l h1 h'" using "4.hyps"(2)[OF True h1 r] .
    ultimately show ?thesis using uframe_trans by blast
  next
    case False
    then have "unlisten_children k h n cs l = Some h'" using "4.prems" by simp
    then show ?thesis using "4.hyps"(3)[OF False] by blast
  qed
qed

lemma uframeD:
  assumes "uframe l h h'"
  shows "shrinks h h'" "promises h' = promises h" "queue h' = queue h"
    "extends h h'" "list_all is_Disconnect (delta h h')"
    "n < length (nodes h) \<Longrightarrow> removeAll l (listeners (nodes h' ! n)) = removeAll l (listeners (nodes h ! n))"
proof -
  show sh: "shrinks h h'" using assms by (simp add: uframe_def)
  show "promises h' = promises h" "queue h' = queue h" using assms by (simp_all add: uframe_def lframe_def)
  show "extends h h'" "list_all is_Disconnect (delta h h')" using assms by (simp_all add: uframe_def emits_def)
  assume n: "n < length (nodes h)"
  have m: "map (\<lambda>nd. removeAll l (listeners nd)) (nodes h') = map (\<lambda>nd. removeAll l (listeners nd)) (nodes h)"
    using assms by (simp add: uframe_def lframe_def)
  have len: "length (nodes h') = length (nodes h)" using shrinksD(2)[OF sh] .
  have "map (\<lambda>nd. removeAll l (listeners nd)) (nodes h') ! n = map (\<lambda>nd. removeAll l (listeners nd)) (nodes h) ! n"
    using m by simp
  then show "removeAll l (listeners (nodes h' ! n)) = removeAll l (listeners (nodes h ! n))"
    using n len by simp
qed

lemma uframe_keeps:
  assumes "uframe l h h'" "n < length (nodes h)" "l' \<noteq> l"
  shows "l' \<in> set (listeners (nodes h' ! n)) \<longleftrightarrow> l' \<in> set (listeners (nodes h ! n))"
proof -
  have "set (removeAll l (listeners (nodes h' ! n))) = set (removeAll l (listeners (nodes h ! n)))"
    using uframeD(6)[OF assms(1,2)] by simp
  then show ?thesis using assms(3) by auto
qed

lemma unlisten_removes:
  assumes "unlisten k h n l = Some h'"
  shows "l \<notin> set (listeners (nodes h' ! n))"
proof -
  obtain k' where k: "k = Suc k'" using assms by (cases k) simp_all
  from assms k obtain nd where nd: "node_at h n = Some nd"
    by (auto split: option.splits)
  note v = node_at_Some[OF nd]
  define h1 where "h1 = put_node h n (nd\<lparr>listeners := set_delete l (listeners nd)\<rparr>)"
  obtain h2 where h2: "unlisten_children k' h1 n (children (nodes h1 ! n)) l = Some h2"
    and fin: "(if idle (nodes h2 ! n) then run_disconnect k' h2 n else Some h2) = Some h'"
    using assms k nd by (auto simp: h1_def Let_def split: option.splits)
  have n1: "n < length (nodes h1)" using v by (simp add: h1_def nodes_put_node)
  have a: "l \<notin> set (listeners (nodes h1 ! n))"
    using v by (simp add: h1_def nodes_put_node set_delete_def)
  have f2: "shrinks h1 h2" using unlisten_frame(2)[OF h2] by (simp add: uframe_def)
  have f3: "shrinks h2 h'"
  proof (cases "idle (nodes h2 ! n)")
    case True
    then have "run_disconnect k' h2 n = Some h'" using fin by simp
    from disconnect_dframe(1)[OF this] show ?thesis by (simp add: dframe_def)
  next
    case False
    then show ?thesis using fin by (simp add: shrinks_refl)
  qed
  have "thins (listeners (nodes h' ! n)) (listeners (nodes h1 ! n))"
    using shrinksD(6)[OF shrinks_trans[OF f2 f3] n1] .
  then have "set (listeners (nodes h' ! n)) \<subseteq> set (listeners (nodes h1 ! n))"
    by (simp add: thins_def)
  then show ?thesis using a by blast
qed

lemma unlisten_total:
  "well_formed h \<Longrightarrow> n < length (nodes h) \<Longrightarrow> 2 * length (nodes h) + 1 \<le> k + n \<Longrightarrow>
     \<exists>h'. unlisten k h n l = Some h'"
  "well_formed h \<Longrightarrow> n < length (nodes h) \<Longrightarrow>
     (\<forall>c \<in> set cs. n < c \<and> c < length (nodes h)) \<Longrightarrow> 2 * length (nodes h) \<le> k + n \<Longrightarrow>
     \<exists>h'. unlisten_children k h n cs l = Some h'"
proof (induct k h n l and k h n cs l rule: unlisten_unlisten_children.induct)
  case (1 h n l)
  then show ?case by simp
next
  case (2 k h n l)
  have nd: "node_at h n = Some (nodes h ! n)" using "2.prems" by (simp add: node_at_def)
  define h1 where "h1 = put_node h n ((nodes h ! n)\<lparr>listeners := set_delete l (listeners (nodes h ! n))\<rparr>)"
  have f1: "uframe l h h1" unfolding h1_def using uframe_del_listener[OF "2.prems"(2)] .
  have sh1: "shrinks h h1" using f1 by (simp add: uframe_def)
  have wf1: "well_formed h1" using shrinks_well_formed[OF "2.prems"(1) sh1] .
  have len1: "length (nodes h1) = length (nodes h)" using shrinksD(2)[OF sh1] .
  have n1: "n < length (nodes h1)" using len1 "2.prems"(2) by simp
  have l1: "links_ok h1" using wf1 by (simp add: well_formed_def)
  have cs: "\<forall>c \<in> set (children (nodes h1 ! n)). n < c \<and> c < length (nodes h1)"
    using links_okD[OF l1 n1] by blast
  have fuel: "2 * length (nodes h1) \<le> k + n" using "2.prems"(3) len1 by simp
  obtain h2 where h2: "unlisten_children k h1 n (children (nodes h1 ! n)) l = Some h2"
    using "2.hyps"[OF nd h1_def wf1 n1 cs fuel] by blast
  have sh2: "shrinks h1 h2" using unlisten_frame(2)[OF h2] by (simp add: uframe_def)
  have wf2: "well_formed h2" using shrinks_well_formed[OF wf1 sh2] .
  have len2: "length (nodes h2) = length (nodes h)" using shrinksD(2)[OF sh2] len1 by simp
  have "\<exists>h'. (if idle (nodes h2 ! n) then run_disconnect k h2 n else Some h2) = Some h'"
  proof (cases "idle (nodes h2 ! n)")
    case True
    have "hooks_ok h2" using wf2 by (simp add: well_formed_def)
    moreover have "n < length (nodes h2)" using len2 "2.prems"(2) by simp
    moreover have "n < k" using "2.prems"(2,3) by simp
    ultimately have "\<exists>h'. run_disconnect k h2 n = Some h'" by (rule disconnect_total(1))
    then show ?thesis using True by simp
  next
    case False
    then show ?thesis by simp
  qed
  then show ?case using nd h2 by (simp add: h1_def Let_def)
next
  case (3 k h n l)
  then show ?case by simp
next
  case (4 k h n c cs l)
  have cN: "n < c" "c < length (nodes h)" using "4.prems"(3) by simp_all
  have rest: "\<forall>c \<in> set cs. n < c \<and> c < length (nodes h)" using "4.prems"(3) by simp
  show ?case
  proof (cases "c \<in> set (children (nodes h ! n))")
    case True
    have fuel: "2 * length (nodes h) + 1 \<le> k + c" using "4.prems"(4) cN by simp
    obtain h1 where h1: "unlisten k h c l = Some h1"
      using "4.hyps"(1)[OF True "4.prems"(1) cN(2) fuel] by blast
    have sh1: "shrinks h h1" using unlisten_frame(1)[OF h1] by (simp add: uframe_def)
    have wf1: "well_formed h1" using shrinks_well_formed[OF "4.prems"(1) sh1] .
    have len1: "length (nodes h1) = length (nodes h)" using shrinksD(2)[OF sh1] .
    have "\<exists>h'. unlisten_children k h1 n cs l = Some h'"
      using "4.hyps"(2)[OF True h1 wf1] "4.prems"(2,4) rest len1 by simp
    then show ?thesis using True h1 by simp
  next
    case False
    have "\<exists>h'. unlisten_children k h n cs l = Some h'"
      using "4.hyps"(3)[OF False "4.prems"(1,2) rest "4.prems"(4)] .
    then show ?thesis using False by simp
  qed
qed

lemma delta_eq: "trace h' = trace h @ t \<Longrightarrow> delta h h' = t"
  by (simp add: delta_def)

lemma queues_resolve: "queues h (resolve h p v)"
proof (cases "p < length (promises h) \<and> promises h ! p = None")
  case True
  let ?qs = "filter (\<lambda>t. awaits (takes h ! t) p) [0..<length (takes h)]"
  have q: "queue (resolve h p v) = queue h @ ?qs" using True by (simp add: resolve_def)
  have pr: "promises (resolve h p v) = (promises h)[p := Some v]" using True by (simp add: resolve_def)
  have 1: "\<exists>qs. queue (resolve h p v) = queue h @ qs \<and> set qs \<subseteq> {..<length (takes h)}"
    using q by auto
  have 2: "\<forall>p' \<in> {..<length (promises h)}. \<forall>t \<in> {..<length (takes h)}.
         promises h ! p' = None \<longrightarrow> promises (resolve h p v) ! p' \<noteq> None \<longrightarrow>
         awaits (takes h ! t) p' \<longrightarrow> t \<in> set (queue (resolve h p v))"
  proof (intro ballI impI)
    fix p' t assume "p' \<in> {..<length (promises h)}" and t: "t \<in> {..<length (takes h)}"
      and pn: "promises h ! p' = None" and p2: "promises (resolve h p v) ! p' \<noteq> None"
      and aw: "awaits (takes h ! t) p'"
    have "p' = p"
    proof (rule ccontr)
      assume "p' \<noteq> p"
      then have "promises (resolve h p v) ! p' = promises h ! p'" using pr by simp
      then show False using pn p2 by simp
    qed
    then have "t \<in> set ?qs" using aw t by simp
    then show "t \<in> set (queue (resolve h p v))" using q by simp
  qed
  show ?thesis unfolding queues_def using 1 2 by blast
next
  case False
  then have "resolve h p v = h" by (auto simp: resolve_def)
  then show ?thesis by (simp add: queues_same)
qed

lemma shrinks_resolve: "shrinks h (resolve h p v)"
proof -
  have "map static (nodes (resolve h p v)) = map static (nodes h)"
    "\<forall>n \<in> {..<length (nodes h)}.
         thins (listeners (nodes (resolve h p v) ! n)) (listeners (nodes h ! n)) \<and>
         thins (children (nodes (resolve h p v) ! n)) (children (nodes h ! n))"
    "length (promises (resolve h p v)) = length (promises h)"
    "\<forall>q \<in> {..<length (promises h)}. promises h ! q \<noteq> None \<longrightarrow>
        promises (resolve h p v) ! q = promises h ! q"
    "takes (resolve h p v) = takes h" "extends h (resolve h p v)"
    by (auto simp: resolve_def thins_refl extends_def nth_list_update)
  then show ?thesis unfolding shrinks_def using queues_resolve[of h p v] by blast
qed

lemma nodes_resolve: "nodes (resolve h p v) = nodes h"
  by (simp add: resolve_def)

lemma trace_resolve: "trace (resolve h p v) = trace h"
  by (simp add: resolve_def)

lemma promises_resolve:
  "promises (resolve h p v) =
     (if p < length (promises h) \<and> promises h ! p = None then (promises h)[p := Some v] else promises h)"
  by (simp add: resolve_def)

lemma nodes_emit: "nodes (emit e h) = nodes h"
  by (simp add: emit_def)

lemma promises_emit: "promises (emit e h) = promises h"
  by (simp add: emit_def)

lemma trace_emit: "trace (emit e h) = trace h @ [e]"
  by (simp add: emit_def)

text \<open>What one call of a listener does.\<close>

lemma call_listener_core:
  assumes "call_listener k h l v s = Some h'"
  shows "\<exists>r. shrinks h r \<and> trace r = trace h @ [Call l v s] \<and> nodes r = nodes h \<and>
           promises r = (case l of Ext j \<Rightarrow> promises h | Once n p \<Rightarrow> promises (resolve h p v)) \<and>
           uframe l r h' \<and> (case l of Ext j \<Rightarrow> True | Once n p \<Rightarrow> l \<notin> set (listeners (nodes h' ! n)))"
proof -
  define e where "e = emit (Call l v s) h"
  have se: "shrinks h e" unfolding e_def by (rule shrinks_emit)
  have te: "trace e = trace h @ [Call l v s]" by (simp add: e_def trace_emit)
  have ne: "nodes e = nodes h" by (simp add: e_def nodes_emit)
  have pe: "promises e = promises h" by (simp add: e_def promises_emit)
  show ?thesis
  proof (cases l)
    case (Ext j)
    then have h': "h' = e" using assms by (simp add: call_listener_def e_def)
    show ?thesis
      using se te ne pe Ext uframe_refl[of l e] unfolding h' by (intro exI[of _ e]) simp
  next
    case (Once n p)
    define r1 where "r1 = resolve e p v"
    have un: "unlisten k r1 n l = Some h'"
      using assms Once by (simp add: call_listener_def e_def r1_def)
    have sr: "shrinks e r1" unfolding r1_def by (rule shrinks_resolve)
    have tr: "trace r1 = trace h @ [Call l v s]" using te by (simp add: r1_def trace_resolve)
    have nr: "nodes r1 = nodes h" using ne by (simp add: r1_def nodes_resolve)
    have pr: "promises r1 = promises (resolve h p v)"
      using pe by (simp add: r1_def promises_resolve)
    show ?thesis
      using shrinks_trans[OF se sr] tr nr pr unlisten_frame(1)[OF un] unlisten_removes[OF un] Once
      by (intro exI[of _ r1]) simp
  qed
qed

text \<open>What one call of a listener does.\<close>

lemma call_listener_frame:
  assumes "call_listener k h l v s = Some h'"
  shows "shrinks h h'"
    and "\<exists>t. delta h h' = Call l v s # t \<and> list_all is_Disconnect t"
    and "x < length (nodes h) \<Longrightarrow> removeAll l (listeners (nodes h' ! x)) = removeAll l (listeners (nodes h ! x))"
    and "l = Once m q \<Longrightarrow> l \<notin> set (listeners (nodes h' ! m))"
    and "l = Once m q \<Longrightarrow> q < length (promises h) \<Longrightarrow> promises h ! q = None \<or> promises h ! q = Some v \<Longrightarrow>
           promises h' ! q = Some v"
    and "(\<And>m. l \<noteq> Once m r) \<Longrightarrow> promises h' ! r = promises h ! r"
proof -
  obtain r1 where sr: "shrinks h r1" and tr: "trace r1 = trace h @ [Call l v s]"
    and nr: "nodes r1 = nodes h"
    and pr: "promises r1 = (case l of Ext j \<Rightarrow> promises h | Once n p \<Rightarrow> promises (resolve h p v))"
    and uf: "uframe l r1 h'"
    and rm: "case l of Ext j \<Rightarrow> True | Once n p \<Rightarrow> l \<notin> set (listeners (nodes h' ! n))"
    using call_listener_core[OF assms] by blast
  note u = uframeD[OF uf]
  show "shrinks h h'" using shrinks_trans[OF sr u(1)] .
  have "trace h' = trace h @ (Call l v s # delta r1 h')"
    using extends_trace[OF u(4)] tr by simp
  then show "\<exists>t. delta h h' = Call l v s # t \<and> list_all is_Disconnect t"
    using delta_eq u(5) by blast
  show "x < length (nodes h) \<Longrightarrow> removeAll l (listeners (nodes h' ! x)) = removeAll l (listeners (nodes h ! x))"
    using u(6)[of x] nr by simp
  show "l = Once m q \<Longrightarrow> l \<notin> set (listeners (nodes h' ! m))"
    using rm by simp
  have pr': "promises h' = promises r1" using u(2) .
  show "l = Once m q \<Longrightarrow> q < length (promises h) \<Longrightarrow> promises h ! q = None \<or> promises h ! q = Some v \<Longrightarrow>
           promises h' ! q = Some v"
    using pr pr' by (auto simp: promises_resolve)
  show "(\<And>m. l \<noteq> Once m r) \<Longrightarrow> promises h' ! r = promises h ! r"
  proof -
    assume a: "\<And>m. l \<noteq> Once m r"
    show ?thesis
    proof (cases l)
      case (Ext j)
      then show ?thesis using pr pr' by simp
    next
      case (Once n p)
      then have "r \<noteq> p" using a by blast
      then show ?thesis using pr pr' Once by (simp add: promises_resolve)
    qed
  qed
qed

lemma call_listener_keeps:
  assumes "call_listener k h l v s = Some h'" "x < length (nodes h)" "l' \<noteq> l"
  shows "l' \<in> set (listeners (nodes h' ! x)) \<longleftrightarrow> l' \<in> set (listeners (nodes h ! x))"
proof -
  have "set (removeAll l (listeners (nodes h' ! x))) = set (removeAll l (listeners (nodes h ! x)))"
    using call_listener_frame(3)[OF assms(1,2)] by simp
  then show ?thesis using assms(3) by auto
qed

lemma call_listener_total:
  assumes "well_formed h" "n < length (nodes h)" "l \<in> set (listeners (nodes h ! n))"
    "2 * length (nodes h) + 1 \<le> k"
  shows "\<exists>h'. call_listener k h l v s = Some h'"
proof (cases l)
  case (Ext j)
  then show ?thesis by (simp add: call_listener_def)
next
  case (Once m p)
  have lo: "listeners_ok h" using assms(1) by (simp add: well_formed_def)
  have m: "m = n" using listeners_okD[OF lo assms(2)] assms(3) Once by blast
  define r1 where "r1 = resolve (emit (Call l v s) h) p v"
  have sh: "shrinks h r1"
    unfolding r1_def using shrinks_trans[OF shrinks_emit shrinks_resolve] .
  have wf: "well_formed r1" using shrinks_well_formed[OF assms(1) sh] .
  have len: "length (nodes r1) = length (nodes h)" using shrinksD(2)[OF sh] .
  have "\<exists>h'. unlisten k r1 n l = Some h'"
    using unlisten_total(1)[OF wf, of n k l] len assms(2,4) by simp
  then show ?thesis using Once m by (simp add: call_listener_def r1_def)
qed

lemma filter_Call_Disconnect: "list_all is_Disconnect t \<Longrightarrow> filter is_Call t = []"
proof (induction t)
  case Nil
  then show ?case by simp
next
  case (Cons e t)
  then show ?case by (cases e) simp_all
qed

lemma list_all_weaken: "list_all P t \<Longrightarrow> (\<And>e. P e \<Longrightarrow> Q e) \<Longrightarrow> list_all Q t"
  unfolding list_all_iff by blast

lemma shrinks_sender:
  "shrinks h h' \<Longrightarrow> n < length (nodes h) \<Longrightarrow> sender (nodes h' ! n) = sender (nodes h ! n)"
  using static_nth(3)[OF shrinksD(1)] by blast

lemma shrinks_variant:
  "shrinks h h' \<Longrightarrow> n < length (nodes h) \<Longrightarrow> variant (nodes h' ! n) = variant (nodes h ! n)"
  using static_nth(4)[OF shrinksD(1)] by blast

lemma shrinks_listeners_subset:
  "shrinks h h' \<Longrightarrow> n < length (nodes h) \<Longrightarrow> l \<in> set (listeners (nodes h' ! n)) \<Longrightarrow>
     l \<in> set (listeners (nodes h ! n))"
  using thinsD[OF shrinksD(6)] by blast

lemma shrinks_children_subset:
  "shrinks h h' \<Longrightarrow> n < length (nodes h) \<Longrightarrow> c \<in> set (children (nodes h' ! n)) \<Longrightarrow>
     c \<in> set (children (nodes h ! n))"
  using thinsD[OF shrinksD(7)] by blast

lemma shrinks_promise:
  "shrinks h h' \<Longrightarrow> p < length (promises h) \<Longrightarrow> promises h ! p = Some v \<Longrightarrow> promises h' ! p = Some v"
  using shrinksD(8)[of h h' p] by simp

text \<open>The pass over the listeners of a node.\<close>

lemma notify_loop_all:
  "notify_loop k h n ls v = Some h' \<Longrightarrow> n < length (nodes h) \<Longrightarrow> distinct ls \<Longrightarrow>
   set ls \<subseteq> set (listeners (nodes h ! n)) \<Longrightarrow>
     shrinks h h' \<and>
     filter is_Call (delta h h') = map (\<lambda>l. Call l v (sender (nodes h ! n))) ls \<and>
     list_all (\<lambda>e. is_Call e \<or> is_Disconnect e) (delta h h') \<and>
     (\<forall>x l'. x < length (nodes h) \<longrightarrow> l' \<notin> set ls \<longrightarrow>
        (l' \<in> set (listeners (nodes h' ! x)) \<longleftrightarrow> l' \<in> set (listeners (nodes h ! x)))) \<and>
     (\<forall>m q. Once m q \<in> set ls \<longrightarrow> m < length (nodes h) \<longrightarrow>
        Once m q \<notin> set (listeners (nodes h' ! m))) \<and>
     (\<forall>m q. Once m q \<in> set ls \<longrightarrow> q < length (promises h) \<longrightarrow>
        (promises h ! q = None \<or> promises h ! q = Some v) \<longrightarrow> promises h' ! q = Some v)"
proof (induction ls arbitrary: h)
  case Nil
  then have "h' = h" by simp
  then show ?case by (simp add: shrinks_refl delta_refl)
next
  case (Cons l ls)
  let ?s = "sender (nodes h ! n)"
  have lin: "l \<in> set (listeners (nodes h ! n))" using Cons.prems(4) by simp
  obtain h1 where c1: "call_listener k h l v ?s = Some h1"
    and r1: "notify_loop k h1 n ls v = Some h'"
    using Cons.prems(1) lin by (auto split: option.splits)
  note cf = call_listener_frame[OF c1]
  have len1: "length (nodes h1) = length (nodes h)" using shrinksD(2)[OF cf(1)] .
  have plen1: "length (promises h1) = length (promises h)" using shrinksD(3)[OF cf(1)] .
  have n1: "n < length (nodes h1)" using len1 Cons.prems(2) by simp
  have d1: "distinct ls" and lnot: "l \<notin> set ls" using Cons.prems(3) by simp_all
  have sub1: "set ls \<subseteq> set (listeners (nodes h1 ! n))"
  proof
    fix l' assume a: "l' \<in> set ls"
    then have "l' \<noteq> l" using lnot by blast
    moreover have "l' \<in> set (listeners (nodes h ! n))" using a Cons.prems(4) by auto
    ultimately show "l' \<in> set (listeners (nodes h1 ! n))"
      using call_listener_keeps[OF c1 Cons.prems(2)] by blast
  qed
  note ih = Cons.IH[OF r1 n1 d1 sub1]
  have sh2: "shrinks h1 h'" using ih by blast
  have ih2: "filter is_Call (delta h1 h') = map (\<lambda>l. Call l v (sender (nodes h1 ! n))) ls"
    using ih by blast
  have ih3: "list_all (\<lambda>e. is_Call e \<or> is_Disconnect e) (delta h1 h')" using ih by blast
  have ih4: "\<And>x l'. x < length (nodes h1) \<Longrightarrow> l' \<notin> set ls \<Longrightarrow>
        (l' \<in> set (listeners (nodes h' ! x)) \<longleftrightarrow> l' \<in> set (listeners (nodes h1 ! x)))"
    using ih by blast
  have ih5: "\<And>m q. Once m q \<in> set ls \<Longrightarrow> m < length (nodes h1) \<Longrightarrow>
        Once m q \<notin> set (listeners (nodes h' ! m))"
    using ih by blast
  have ih6: "\<And>m q. Once m q \<in> set ls \<Longrightarrow> q < length (promises h1) \<Longrightarrow>
        promises h1 ! q = None \<or> promises h1 ! q = Some v \<Longrightarrow> promises h' ! q = Some v"
    using ih by blast
  have s1: "sender (nodes h1 ! n) = ?s" using shrinks_sender[OF cf(1) Cons.prems(2)] .
  obtain t where t: "delta h h1 = Call l v ?s # t" "list_all is_Disconnect t"
    using cf(2) by blast
  have dl: "delta h h' = delta h h1 @ delta h1 h'"
    using delta_trans[OF shrinksD(5)[OF cf(1)] shrinksD(5)[OF sh2]] .
  have A: "shrinks h h'" using shrinks_trans[OF cf(1) sh2] .
  have B: "filter is_Call (delta h h') = map (\<lambda>l. Call l v ?s) (l # ls)"
  proof -
    have "filter is_Call (delta h1 h') = map (\<lambda>l. Call l v ?s) ls" using ih2 s1 by simp
    then show ?thesis using dl t filter_Call_Disconnect[OF t(2)] by simp
  qed
  have C: "list_all (\<lambda>e. is_Call e \<or> is_Disconnect e) (delta h h')"
  proof -
    have "list_all (\<lambda>e. is_Call e \<or> is_Disconnect e) t"
      by (rule list_all_weaken[OF t(2)]) simp
    moreover note ih3
    ultimately show ?thesis using dl t(1) by simp
  qed
  have D: "\<forall>x l'. x < length (nodes h) \<longrightarrow> l' \<notin> set (l # ls) \<longrightarrow>
        (l' \<in> set (listeners (nodes h' ! x)) \<longleftrightarrow> l' \<in> set (listeners (nodes h ! x)))"
  proof (intro allI impI)
    fix x l' assume x: "x < length (nodes h)" and l': "l' \<notin> set (l # ls)"
    have "l' \<noteq> l" "l' \<notin> set ls" using l' by simp_all
    have 1: "l' \<in> set (listeners (nodes h1 ! x)) \<longleftrightarrow> l' \<in> set (listeners (nodes h ! x))"
      using call_listener_keeps[OF c1 x \<open>l' \<noteq> l\<close>] .
    have "x < length (nodes h1)" using x len1 by simp
    then have "l' \<in> set (listeners (nodes h' ! x)) \<longleftrightarrow> l' \<in> set (listeners (nodes h1 ! x))"
      using ih4 \<open>l' \<notin> set ls\<close> by blast
    then show "l' \<in> set (listeners (nodes h' ! x)) \<longleftrightarrow> l' \<in> set (listeners (nodes h ! x))"
      using 1 by simp
  qed
  have E: "\<forall>m q. Once m q \<in> set (l # ls) \<longrightarrow> m < length (nodes h) \<longrightarrow>
        Once m q \<notin> set (listeners (nodes h' ! m))"
  proof (intro allI impI)
    fix m q assume a: "Once m q \<in> set (l # ls)" and m: "m < length (nodes h)"
    have m1: "m < length (nodes h1)" using m len1 by simp
    show "Once m q \<notin> set (listeners (nodes h' ! m))"
    proof (cases "l = Once m q")
      case True
      have "l \<notin> set (listeners (nodes h1 ! m))" using cf(4)[OF True] .
      then show ?thesis using shrinks_listeners_subset[OF sh2 m1] True by blast
    next
      case False
      then have "Once m q \<in> set ls" using a by simp
      then show ?thesis using ih5 m1 by blast
    qed
  qed
  have F: "\<forall>m q. Once m q \<in> set (l # ls) \<longrightarrow> q < length (promises h) \<longrightarrow>
        (promises h ! q = None \<or> promises h ! q = Some v) \<longrightarrow> promises h' ! q = Some v"
  proof (intro allI impI)
    fix m q assume a: "Once m q \<in> set (l # ls)" and q: "q < length (promises h)"
      and pq: "promises h ! q = None \<or> promises h ! q = Some v"
    have q1: "q < length (promises h1)" using q plen1 by simp
    show "promises h' ! q = Some v"
    proof (cases "\<exists>m'. l = Once m' q")
      case True
      then obtain m' where "l = Once m' q" by blast
      then have "promises h1 ! q = Some v" using cf(5) q pq by blast
      then show ?thesis using shrinks_promise[OF sh2 q1] by simp
    next
      case False
      then have same: "promises h1 ! q = promises h ! q" using cf(6)[of q] by blast
      have "Once m q \<in> set ls" using a False by auto
      then show ?thesis using ih6[of m q] q1 pq same by simp
    qed
  qed
  show ?case using A B C D E F by blast
qed

lemma notify_loop_total:
  "well_formed h \<Longrightarrow> n < length (nodes h) \<Longrightarrow> 2 * length (nodes h) + 1 \<le> k \<Longrightarrow>
     \<exists>h'. notify_loop k h n ls v = Some h'"
proof (induction ls arbitrary: h)
  case Nil
  then show ?case by simp
next
  case (Cons l ls)
  show ?case
  proof (cases "l \<in> set (listeners (nodes h ! n))")
    case True
    obtain h1 where c1: "call_listener k h l v (sender (nodes h ! n)) = Some h1"
      using call_listener_total[OF Cons.prems(1,2) True Cons.prems(3)] by blast
    have sh: "shrinks h h1" using call_listener_frame(1)[OF c1] .
    have wf1: "well_formed h1" using shrinks_well_formed[OF Cons.prems(1) sh] .
    have len1: "length (nodes h1) = length (nodes h)" using shrinksD(2)[OF sh] .
    have "\<exists>h'. notify_loop k h1 n ls v = Some h'"
      using Cons.IH[OF wf1] len1 Cons.prems(2,3) by simp
    then show ?thesis using True c1 by simp
  next
    case False
    then show ?thesis using Cons.IH[OF Cons.prems] by simp
  qed
qed

lemma shrinks_registered: "shrinks h h' \<Longrightarrow> registered h' l \<Longrightarrow> registered h l"
proof -
  assume sh: "shrinks h h'" and r: "registered h' l"
  then obtain x where x: "x < length (nodes h')" "l \<in> set (listeners (nodes h' ! x))"
    unfolding registered_def by blast
  have x': "x < length (nodes h)" using x(1) shrinksD(2)[OF sh] by simp
  have "l \<in> set (listeners (nodes h ! x))" using shrinks_listeners_subset[OF sh x' x(2)] .
  then show ?thesis unfolding registered_def using x' by blast
qed

lemma ev_ok_mono:
  assumes "ev_ok h1 s b e" "shrinks h h1" "b' \<le> b"
  shows "ev_ok h s b' e"
proof (cases e)
  case (Call l w s')
  have "s' = s \<and> registered h1 l" using assms(1) Call by (simp add: ev_ok_def)
  then have "s' = s \<and> registered h l" using shrinks_registered[OF assms(2)] by blast
  then show ?thesis using Call by (simp add: ev_ok_def)
next
  case (Test x w)
  then show ?thesis using assms(1,3) by (simp add: ev_ok_def)
next
  case (Connect x)
  then show ?thesis using assms(1) by (simp add: ev_ok_def)
next
  case (Disconnect x)
  then show ?thesis by (simp add: ev_ok_def)
qed

lemma list_all_ev_ok_mono:
  assumes "list_all (ev_ok h1 s b) t" "shrinks h h1" "b' \<le> b"
  shows "list_all (ev_ok h s b') t"
  by (rule list_all_weaken[OF assms(1)]) (rule ev_ok_mono[OF _ assms(2,3)])

lemma notify_loop_ev_ok:
  assumes "notify_loop k h n (listeners (nodes h ! n)) v = Some h1" "n < length (nodes h)"
    "distinct (listeners (nodes h ! n))"
  shows "list_all (ev_ok h (sender (nodes h ! n)) b) (delta h h1)"
proof -
  note a = notify_loop_all[OF assms(1,2,3) subset_refl]
  have f: "filter is_Call (delta h h1) = map (\<lambda>l. Call l v (sender (nodes h ! n))) (listeners (nodes h ! n))"
    using a by blast
  have g: "list_all (\<lambda>e. is_Call e \<or> is_Disconnect e) (delta h h1)" using a by blast
  show ?thesis
    unfolding list_all_iff
  proof
    fix e assume e: "e \<in> set (delta h h1)"
    show "ev_ok h (sender (nodes h ! n)) b e"
    proof (cases "is_Call e")
      case True
      then have "e \<in> set (filter is_Call (delta h h1))" using e by simp
      then obtain l where l: "l \<in> set (listeners (nodes h ! n))" "e = Call l v (sender (nodes h ! n))"
        unfolding f by auto
      have "registered h l" unfolding registered_def using l(1) assms(2) by blast
      then show ?thesis using l(2) by (simp add: ev_ok_def)
    next
      case False
      then have "is_Disconnect e" using g e unfolding list_all_iff by blast
      then show ?thesis by (cases e) (simp_all add: ev_ok_def)
    qed
  qed
qed

text \<open>A firing only removes, and every event it causes is accounted for.\<close>

lemma trigger_events:
  "well_formed h \<Longrightarrow> n < length (nodes h) \<Longrightarrow> trigger k h n v = Some h' \<Longrightarrow>
     shrinks h h' \<and> list_all (ev_ok h (sender (nodes h ! n)) n) (delta h h')"
  "well_formed h \<Longrightarrow> n < length (nodes h) \<Longrightarrow> notifyListeners k h n v = Some h' \<Longrightarrow>
     shrinks h h' \<and> list_all (ev_ok h (sender (nodes h ! n)) (Suc n)) (delta h h')"
  "well_formed h \<Longrightarrow> n < length (nodes h) \<Longrightarrow>
     (\<forall>c \<in> set cs. n < c \<and> c < length (nodes h) \<and> sender (nodes h ! c) = sender (nodes h ! n)) \<Longrightarrow>
     trigger_children k h n cs v = Some h' \<Longrightarrow>
     shrinks h h' \<and> list_all (ev_ok h (sender (nodes h ! n)) (Suc n)) (delta h h')"
proof (induct k h n v and k h n v and k h n cs v arbitrary: h' and h' and h'
    rule: trigger_notifyListeners_trigger_children.induct)
  case (1 h n v)
  then show ?case by simp
next
  case (2 k h n v)
  have nd: "node_at h n = Some (nodes h ! n)" using "2.prems"(2) by (simp add: node_at_def)
  let ?s = "sender (nodes h ! n)"
  show ?case
  proof (cases "variant (nodes h ! n)")
    case SingleEventSource
    then have "notifyListeners k h n v = Some h'" using "2.prems"(3) nd by simp
    then have "shrinks h h' \<and> list_all (ev_ok h ?s (Suc n)) (delta h h')"
      using "2.hyps"(1)[OF nd SingleEventSource "2.prems"(1,2)] by blast
    then show ?thesis using list_all_ev_ok_mono[OF _ shrinks_refl, of h ?s "Suc n" _ n] by simp
  next
    case (FilterEvent pred)
    let ?e = "emit (Test n v) h"
    have se: "shrinks h ?e" by (rule shrinks_emit)
    have de: "delta h ?e = [Test n v]" by (simp add: delta_def emit_def)
    show ?thesis
    proof (cases "pred v")
      case True
      then have run: "notifyListeners k ?e n v = Some h'"
        using "2.prems"(3) nd FilterEvent by simp
      have wfe: "well_formed ?e" using shrinks_well_formed[OF "2.prems"(1) se] .
      have ne: "n < length (nodes ?e)" using "2.prems"(2) by (simp add: nodes_emit)
      have r: "shrinks ?e h' \<and> list_all (ev_ok ?e (sender (nodes ?e ! n)) (Suc n)) (delta ?e h')"
        using "2.hyps"(2)[OF nd FilterEvent True wfe ne run] .
      have 1: "list_all (ev_ok h ?s n) (delta ?e h')"
        using list_all_ev_ok_mono[OF conjunct2[OF r] se, of n] by (simp add: nodes_emit)
      have "delta h h' = delta h ?e @ delta ?e h'"
        using delta_trans[OF shrinksD(5)[OF se] shrinksD(5)[OF conjunct1[OF r]]] .
      then have "list_all (ev_ok h ?s n) (delta h h')"
        using 1 de by (simp add: ev_ok_def)
      then show ?thesis using shrinks_trans[OF se conjunct1[OF r]] by simp
    next
      case False
      then have "h' = ?e" using "2.prems"(3) nd FilterEvent by simp
      then show ?thesis using se de by (simp add: ev_ok_def)
    qed
  next
    case (MapEvent f)
    then have "notifyListeners k h n (f v) = Some h'" using "2.prems"(3) nd by simp
    then have "shrinks h h' \<and> list_all (ev_ok h ?s (Suc n)) (delta h h')"
      using "2.hyps"(3)[OF nd MapEvent "2.prems"(1,2)] by blast
    then show ?thesis using list_all_ev_ok_mono[OF _ shrinks_refl, of h ?s "Suc n" _ n] by simp
  qed
next
  case (3 k h n v)
  have nd: "node_at h n = Some (nodes h ! n)" using "3.prems"(2) by (simp add: node_at_def)
  let ?s = "sender (nodes h ! n)"
  obtain h1 where l1: "notify_loop k h n (listeners (nodes h ! n)) v = Some h1"
    and c1: "trigger_children k h1 n (children (nodes h1 ! n)) v = Some h'"
    using "3.prems"(3) nd by (auto split: option.splits)
  have lo: "listeners_ok h" using "3.prems"(1) by (simp add: well_formed_def)
  have dl: "distinct (listeners (nodes h ! n))" using listeners_ok_distinct[OF lo "3.prems"(2)] .
  have sh1: "shrinks h h1" using notify_loop_all[OF l1 "3.prems"(2) dl subset_refl] by blast
  have ev1: "list_all (ev_ok h ?s (Suc n)) (delta h h1)"
    using notify_loop_ev_ok[OF l1 "3.prems"(2) dl] .
  have wf1: "well_formed h1" using shrinks_well_formed[OF "3.prems"(1) sh1] .
  have n1: "n < length (nodes h1)" using shrinksD(2)[OF sh1] "3.prems"(2) by simp
  have lk1: "links_ok h1" using wf1 by (simp add: well_formed_def)
  have cs: "\<forall>c \<in> set (children (nodes h1 ! n)).
      n < c \<and> c < length (nodes h1) \<and> sender (nodes h1 ! c) = sender (nodes h1 ! n)"
    using links_okD[OF lk1 n1] by blast
  have r: "shrinks h1 h' \<and> list_all (ev_ok h1 (sender (nodes h1 ! n)) (Suc n)) (delta h1 h')"
    using "3.hyps"[OF nd l1 wf1 n1 cs c1] .
  have s1: "sender (nodes h1 ! n) = ?s" using shrinks_sender[OF sh1 "3.prems"(2)] .
  have ev2: "list_all (ev_ok h ?s (Suc n)) (delta h1 h')"
    using list_all_ev_ok_mono[OF conjunct2[OF r] sh1, of "Suc n"] s1 by simp
  have "delta h h' = delta h h1 @ delta h1 h'"
    using delta_trans[OF shrinksD(5)[OF sh1] shrinksD(5)[OF conjunct1[OF r]]] .
  then show ?case using ev1 ev2 shrinks_trans[OF sh1 conjunct1[OF r]] by simp
next
  case (4 k h n v)
  then show ?case by (simp add: shrinks_refl delta_refl)
next
  case (5 k h n c cs v)
  let ?s = "sender (nodes h ! n)"
  have cN: "n < c" "c < length (nodes h)" "sender (nodes h ! c) = ?s"
    using "5.prems"(3) by simp_all
  have rest: "\<forall>c \<in> set cs. n < c \<and> c < length (nodes h) \<and> sender (nodes h ! c) = ?s"
    using "5.prems"(3) by simp
  show ?case
  proof (cases "c \<in> set (children (nodes h ! n))")
    case True
    obtain h1 where t1: "trigger k h c v = Some h1"
      and r1: "trigger_children k h1 n cs v = Some h'"
      using "5.prems"(4) True by (auto split: option.splits)
    have a: "shrinks h h1 \<and> list_all (ev_ok h (sender (nodes h ! c)) c) (delta h h1)"
      using "5.hyps"(1)[OF True "5.prems"(1) cN(2) t1] .
    have sh1: "shrinks h h1" using a by blast
    have ev1: "list_all (ev_ok h ?s (Suc n)) (delta h h1)"
      using list_all_ev_ok_mono[OF conjunct2[OF a] shrinks_refl, of "Suc n"] cN by simp
    have wf1: "well_formed h1" using shrinks_well_formed[OF "5.prems"(1) sh1] .
    have len1: "length (nodes h1) = length (nodes h)" using shrinksD(2)[OF sh1] .
    have n1: "n < length (nodes h1)" using len1 "5.prems"(2) by simp
    have s1: "sender (nodes h1 ! n) = ?s" using shrinks_sender[OF sh1 "5.prems"(2)] .
    have rest1: "\<forall>c \<in> set cs. n < c \<and> c < length (nodes h1) \<and>
        sender (nodes h1 ! c) = sender (nodes h1 ! n)"
    proof
      fix x assume "x \<in> set cs"
      then have x: "n < x" "x < length (nodes h)" "sender (nodes h ! x) = ?s" using rest by blast+
      show "n < x \<and> x < length (nodes h1) \<and> sender (nodes h1 ! x) = sender (nodes h1 ! n)"
        using x len1 s1 shrinks_sender[OF sh1 x(2)] by simp
    qed
    have r: "shrinks h1 h' \<and> list_all (ev_ok h1 (sender (nodes h1 ! n)) (Suc n)) (delta h1 h')"
      using "5.hyps"(2)[OF True t1 wf1 n1 rest1 r1] .
    have ev2: "list_all (ev_ok h ?s (Suc n)) (delta h1 h')"
      using list_all_ev_ok_mono[OF conjunct2[OF r] sh1, of "Suc n"] s1 by simp
    have "delta h h' = delta h h1 @ delta h1 h'"
      using delta_trans[OF shrinksD(5)[OF sh1] shrinksD(5)[OF conjunct1[OF r]]] .
    then show ?thesis using ev1 ev2 shrinks_trans[OF sh1 conjunct1[OF r]] by simp
  next
    case False
    then have "trigger_children k h n cs v = Some h'" using "5.prems"(4) by simp
    then show ?thesis using "5.hyps"(3)[OF False "5.prems"(1,2) rest] by blast
  qed
qed

text \<open>With fuel for three nested calls per node of the store, a firing returns.\<close>

lemma trigger_total:
  "well_formed h \<Longrightarrow> n < length (nodes h) \<Longrightarrow> 3 * length (nodes h) + 2 \<le> k + n \<Longrightarrow>
     \<exists>h'. trigger k h n v = Some h'"
  "well_formed h \<Longrightarrow> n < length (nodes h) \<Longrightarrow> 3 * length (nodes h) + 1 \<le> k + n \<Longrightarrow>
     \<exists>h'. notifyListeners k h n v = Some h'"
  "well_formed h \<Longrightarrow> n < length (nodes h) \<Longrightarrow>
     (\<forall>c \<in> set cs. n < c \<and> c < length (nodes h) \<and> sender (nodes h ! c) = sender (nodes h ! n)) \<Longrightarrow>
     3 * length (nodes h) + 1 \<le> k + n \<Longrightarrow>
     \<exists>h'. trigger_children k h n cs v = Some h'"
proof (induct k h n v and k h n v and k h n cs v
    rule: trigger_notifyListeners_trigger_children.induct)
  case (1 h n v)
  then show ?case by simp
next
  case (2 k h n v)
  have nd: "node_at h n = Some (nodes h ! n)" using "2.prems"(2) by (simp add: node_at_def)
  have fuel: "3 * length (nodes h) + 1 \<le> k + n" using "2.prems"(3) by simp
  show ?case
  proof (cases "variant (nodes h ! n)")
    case SingleEventSource
    then show ?thesis
      using "2.hyps"(1)[OF nd SingleEventSource "2.prems"(1,2) fuel] nd by simp
  next
    case (FilterEvent pred)
    let ?e = "emit (Test n v) h"
    show ?thesis
    proof (cases "pred v")
      case True
      have wfe: "well_formed ?e" using shrinks_well_formed[OF "2.prems"(1) shrinks_emit] .
      have ne: "n < length (nodes ?e)" using "2.prems"(2) by (simp add: nodes_emit)
      have fe: "3 * length (nodes ?e) + 1 \<le> k + n" using fuel by (simp add: nodes_emit)
      show ?thesis
        using "2.hyps"(2)[OF nd FilterEvent True wfe ne fe] nd FilterEvent True by simp
    next
      case False
      then show ?thesis using nd FilterEvent by simp
    qed
  next
    case (MapEvent f)
    then show ?thesis
      using "2.hyps"(3)[OF nd MapEvent "2.prems"(1,2) fuel] nd by simp
  qed
next
  case (3 k h n v)
  have nd: "node_at h n = Some (nodes h ! n)" using "3.prems"(2) by (simp add: node_at_def)
  have f1: "2 * length (nodes h) + 1 \<le> k" using "3.prems"(2,3) by simp
  obtain h1 where l1: "notify_loop k h n (listeners (nodes h ! n)) v = Some h1"
    using notify_loop_total[OF "3.prems"(1,2) f1] by blast
  have lo: "listeners_ok h" using "3.prems"(1) by (simp add: well_formed_def)
  have dl: "distinct (listeners (nodes h ! n))" using listeners_ok_distinct[OF lo "3.prems"(2)] .
  have sh1: "shrinks h h1" using notify_loop_all[OF l1 "3.prems"(2) dl subset_refl] by blast
  have wf1: "well_formed h1" using shrinks_well_formed[OF "3.prems"(1) sh1] .
  have len1: "length (nodes h1) = length (nodes h)" using shrinksD(2)[OF sh1] .
  have n1: "n < length (nodes h1)" using len1 "3.prems"(2) by simp
  have lk1: "links_ok h1" using wf1 by (simp add: well_formed_def)
  have cs: "\<forall>c \<in> set (children (nodes h1 ! n)).
      n < c \<and> c < length (nodes h1) \<and> sender (nodes h1 ! c) = sender (nodes h1 ! n)"
    using links_okD[OF lk1 n1] by blast
  have fuel1: "3 * length (nodes h1) + 1 \<le> k + n" using "3.prems"(3) len1 by simp
  have "\<exists>h'. trigger_children k h1 n (children (nodes h1 ! n)) v = Some h'"
    using "3.hyps"[OF nd l1 wf1 n1 cs fuel1] .
  then show ?case using nd l1 by simp
next
  case (4 k h n v)
  then show ?case by simp
next
  case (5 k h n c cs v)
  let ?s = "sender (nodes h ! n)"
  have cN: "n < c" "c < length (nodes h)" "sender (nodes h ! c) = ?s"
    using "5.prems"(3) by simp_all
  have rest: "\<forall>c \<in> set cs. n < c \<and> c < length (nodes h) \<and> sender (nodes h ! c) = ?s"
    using "5.prems"(3) by simp
  show ?case
  proof (cases "c \<in> set (children (nodes h ! n))")
    case True
    have fc: "3 * length (nodes h) + 2 \<le> k + c" using "5.prems"(4) cN(1) by simp
    obtain h1 where t1: "trigger k h c v = Some h1"
      using "5.hyps"(1)[OF True "5.prems"(1) cN(2) fc] by blast
    have sh1: "shrinks h h1" using trigger_events(1)[OF "5.prems"(1) cN(2) t1] by blast
    have wf1: "well_formed h1" using shrinks_well_formed[OF "5.prems"(1) sh1] .
    have len1: "length (nodes h1) = length (nodes h)" using shrinksD(2)[OF sh1] .
    have n1: "n < length (nodes h1)" using len1 "5.prems"(2) by simp
    have s1: "sender (nodes h1 ! n) = ?s" using shrinks_sender[OF sh1 "5.prems"(2)] .
    have rest1: "\<forall>c \<in> set cs. n < c \<and> c < length (nodes h1) \<and>
        sender (nodes h1 ! c) = sender (nodes h1 ! n)"
    proof
      fix x assume "x \<in> set cs"
      then have x: "n < x" "x < length (nodes h)" "sender (nodes h ! x) = ?s" using rest by blast+
      show "n < x \<and> x < length (nodes h1) \<and> sender (nodes h1 ! x) = sender (nodes h1 ! n)"
        using x len1 s1 shrinks_sender[OF sh1 x(2)] by simp
    qed
    have fuel1: "3 * length (nodes h1) + 1 \<le> k + n" using "5.prems"(4) len1 by simp
    have "\<exists>h'. trigger_children k h1 n cs v = Some h'"
      using "5.hyps"(2)[OF True t1 wf1 n1 rest1 fuel1] .
    then show ?thesis using True t1 by simp
  next
    case False
    have "\<exists>h'. trigger_children k h n cs v = Some h'"
      using "5.hyps"(3)[OF False "5.prems"(1,2) rest "5.prems"(4)] .
    then show ?thesis using False by simp
  qed
qed

lemma enough_trigger: "enough h k \<Longrightarrow> 3 * length (nodes h) + 2 \<le> k + n"
  by (simp add: enough_def)

lemma enough_notify: "enough h k \<Longrightarrow> 3 * length (nodes h) + 1 \<le> k + n"
  by (simp add: enough_def)

lemma enough_connect: "enough h k \<Longrightarrow> n < length (nodes h) \<Longrightarrow> n < k"
  by (simp add: enough_def)

lemma enough_unlisten: "enough h k \<Longrightarrow> 2 * length (nodes h) + 1 \<le> k + n"
  by (simp add: enough_def)

text \<open>listen\<close>

lemma listener_fits_put:
  assumes "listeners_ok h" "n < length (nodes h)"
    "case l of Ext j \<Rightarrow> True | Once m p \<Rightarrow> m = n \<and> p < length (promises h)"
  shows "listeners_ok (put_node h n ((nodes h ! n)\<lparr>listeners := set_add l (listeners (nodes h ! n))\<rparr>))"
    (is "listeners_ok ?h'")
  unfolding listeners_ok_def
proof (intro ballI conjI)
  have len: "length (nodes ?h') = length (nodes h)" by (simp add: nodes_put_node)
  fix x assume "x \<in> {..<length (nodes ?h')}"
  then have x: "x < length (nodes h)" using len by simp
  have ls: "listeners (nodes ?h' ! x) = (if x = n then set_add l (listeners (nodes h ! n)) else listeners (nodes h ! x))"
    using x by (simp add: nodes_put_node)
  show "distinct (listeners (nodes ?h' ! x))"
    using ls listeners_ok_distinct[OF assms(1) x] listeners_ok_distinct[OF assms(1,2)]
    by (simp add: set_add_distinct)
  fix l' assume l': "l' \<in> set (listeners (nodes ?h' ! x))"
  show "case l' of Ext j \<Rightarrow> True | Once m p \<Rightarrow> m = x \<and> p < length (promises ?h')"
  proof (cases "x = n \<and> l' = l")
    case True
    then show ?thesis using assms(3) by (simp add: other_put_node split: listener.splits)
  next
    case False
    then have in_old: "l' \<in> set (listeners (nodes h ! x))" using l' ls
      by (auto simp: set_add_set split: if_splits)
    show ?thesis
    proof (cases l')
      case (Ext j)
      then show ?thesis by simp
    next
      case (Once m p)
      then show ?thesis using listeners_okD[OF assms(1) x, of m p] in_old
        by (simp add: other_put_node)
    qed
  qed
qed

lemma links_ok_put_listeners:
  assumes "links_ok h" "n < length (nodes h)"
  shows "links_ok (put_node h n ((nodes h ! n)\<lparr>listeners := ls\<rparr>))" (is "links_ok ?h'")
proof -
  have len: "length (nodes ?h') = length (nodes h)" by (simp add: nodes_put_node)
  have ch: "\<And>x. x < length (nodes h) \<Longrightarrow> children (nodes ?h' ! x) = children (nodes h ! x)"
    by (case_tac "x = n") (simp_all add: nodes_put_node)
  have sn: "\<And>x. x < length (nodes h) \<Longrightarrow> sender (nodes ?h' ! x) = sender (nodes h ! x)"
    by (case_tac "x = n") (simp_all add: nodes_put_node)
  show ?thesis
    unfolding links_ok_def
  proof (intro ballI conjI)
    fix x assume "x \<in> {..<length (nodes ?h')}"
    then have x: "x < length (nodes h)" using len by simp
    show "distinct (children (nodes ?h' ! x))" using ch[OF x] links_ok_distinct[OF assms(1) x] by simp
    fix c assume "c \<in> set (children (nodes ?h' ! x))"
    then have c: "c \<in> set (children (nodes h ! x))" using ch[OF x] by simp
    note ok = links_okD[OF assms(1) x c]
    show "x < c" using ok by blast
    show "c < length (nodes ?h')" using ok len by simp
    have "c < length (nodes h)" using ok by blast
    then show "sender (nodes ?h' ! c) = sender (nodes ?h' ! x)" using ok sn x by simp
  qed
qed

lemma listen_effect:
  assumes "well_formed h" "n < length (nodes h)" "listen k h n l = Some h'"
    "case l of Ext j \<Rightarrow> True | Once m p \<Rightarrow> m = n \<and> p < length (promises h)"
  shows "well_formed h'"
    and "map static (nodes h') = map static (nodes h)"
    and "listeners (nodes h' ! n) = set_add l (listeners (nodes h ! n))"
    and "x < length (nodes h) \<Longrightarrow> x \<noteq> n \<Longrightarrow> listeners (nodes h' ! x) = listeners (nodes h ! x)"
    and "promises h' = promises h" and "takes h' = takes h" and "queue h' = queue h"
    and "emits is_Connect h h'"
proof -
  have nd: "node_at h n = Some (nodes h ! n)" using assms(2) by (simp add: node_at_def)
  obtain h1 where h1: "(if idle (nodes h ! n) then run_connect k h n else Some h) = Some h1"
    and h': "h' = put_node h1 n ((nodes h1 ! n)\<lparr>listeners := set_add l (listeners (nodes h1 ! n))\<rparr>)"
    using assms(3) nd by (auto simp: listen_def split: option.splits)
  have 1: "well_formed h1 \<and> cframe h h1"
  proof (cases "idle (nodes h ! n)")
    case True
    then have "run_connect k h n = Some h1" using h1 by simp
    then show ?thesis using connect_frame(1)[OF assms(1,2)] by blast
  next
    case False
    then have "h1 = h" using h1 by simp
    then show ?thesis using assms(1) cframe_refl by simp
  qed
  note cf = cframeD[OF conjunct2[OF 1]]
  have n1: "n < length (nodes h1)" using cf(2) assms(2) by simp
  have wf1: "hooks_ok h1" "links_ok h1" "listeners_ok h1" using 1 by (simp_all add: well_formed_def)
  have fits: "case l of Ext j \<Rightarrow> True | Once m p \<Rightarrow> m = n \<and> p < length (promises h1)"
    using assms(4) cf(4) by (simp split: listener.splits)
  have st: "map static (nodes h') = map static (nodes h1)"
    unfolding h' using n1 by (simp add: nodes_put_node map_update_same static_listeners_update)
  have "hooks_ok h'" using hooks_ok_static[OF wf1(1) st] .
  moreover have "links_ok h'" unfolding h' using links_ok_put_listeners[OF wf1(2) n1] .
  moreover have "listeners_ok h'" unfolding h' using listener_fits_put[OF wf1(3) n1 fits] .
  ultimately show "well_formed h'" by (simp add: well_formed_def)
  show "map static (nodes h') = map static (nodes h)" using st cf(1) by simp
  have l1: "\<And>x. x < length (nodes h) \<Longrightarrow> listeners (nodes h1 ! x) = listeners (nodes h ! x)"
    using listeners_nth[OF cf(3)] .
  show "listeners (nodes h' ! n) = set_add l (listeners (nodes h ! n))"
    unfolding h' using n1 l1[OF assms(2)] by (simp add: nodes_put_node)
  show "x < length (nodes h) \<Longrightarrow> x \<noteq> n \<Longrightarrow> listeners (nodes h' ! x) = listeners (nodes h ! x)"
    unfolding h' using l1[of x] by (simp add: nodes_put_node)
  show "promises h' = promises h" "takes h' = takes h" "queue h' = queue h"
    unfolding h' using cf(4,5,6) by (simp_all add: other_put_node)
  have "emits is_Connect h1 h'"
    unfolding h' by (simp add: emits_def extends_def delta_def other_put_node)
  then show "emits is_Connect h h'"
    using 1 emits_trans[of is_Connect h h1 h'] by (simp add: cframe_def)
qed

lemma listen_total:
  assumes "hooks_ok h" "n < length (nodes h)" "n < k"
  shows "\<exists>h'. listen k h n l = Some h'"
proof -
  have nd: "node_at h n = Some (nodes h ! n)" using assms(2) by (simp add: node_at_def)
  show ?thesis
  proof (cases "idle (nodes h ! n)")
    case True
    obtain h1 where "run_connect k h n = Some h1" using connect_total(1)[OF assms] by blast
    then show ?thesis using nd True by (simp add: listen_def)
  next
    case False
    then show ?thesis using nd by (simp add: listen_def)
  qed
qed

text \<open>Construction keeps the store well formed.\<close>

lemma init_well_formed: "well_formed init"
  by (simp add: well_formed_def hooks_ok_def links_ok_def listeners_ok_def init_def)

lemma well_formed_append:
  assumes "well_formed h" "listeners nd = []" "children nd = []"
    "case connect nd of OnConnect \<Rightarrow> True
     | AddChildHook p c \<Rightarrow> p < length (nodes h) \<and> c = length (nodes h) \<and> sender (nodes h ! p) = sender nd"
    "case disconnect nd of OnDisconnect \<Rightarrow> True
     | RemoveChildHook p c \<Rightarrow> p < length (nodes h) \<and> c = length (nodes h)"
  shows "well_formed (h\<lparr>nodes := nodes h @ [nd]\<rparr>)" (is "well_formed ?h'")
proof -
  let ?N = "length (nodes h)"
  have old: "\<And>x. x < ?N \<Longrightarrow> nodes ?h' ! x = nodes h ! x" by (simp add: nth_append)
  have new: "nodes ?h' ! ?N = nd" by simp
  have len: "length (nodes ?h') = Suc ?N" by simp
  have hk: "hooks_ok h" and lk: "links_ok h" and lo: "listeners_ok h"
    using assms(1) by (simp_all add: well_formed_def)
  have "hooks_ok ?h'"
    unfolding hooks_ok_def
  proof
    fix x assume "x \<in> {..<length (nodes ?h')}"
    then have x: "x < ?N \<or> x = ?N" using len by auto
    show "(case connect (nodes ?h' ! x) of OnConnect \<Rightarrow> True
      | AddChildHook p c \<Rightarrow> p < x \<and> c = x \<and> sender (nodes ?h' ! p) = sender (nodes ?h' ! x)) \<and>
     (case disconnect (nodes ?h' ! x) of OnDisconnect \<Rightarrow> True
      | RemoveChildHook p c \<Rightarrow> p < x \<and> c = x)"
    proof (cases "x = ?N")
      case True
      have 1: "case connect nd of OnConnect \<Rightarrow> True
        | AddChildHook p c \<Rightarrow> p < ?N \<and> c = ?N \<and> sender (nodes ?h' ! p) = sender nd"
      proof (cases "connect nd")
        case OnConnect
        then show ?thesis by simp
      next
        case (AddChildHook p c)
        then have "p < ?N \<and> c = ?N \<and> sender (nodes h ! p) = sender nd" using assms(4) by simp
        then show ?thesis using AddChildHook old[of p] by simp
      qed
      show ?thesis unfolding True new using 1 assms(5) by blast
    next
      case False
      then have xl: "x < ?N" using x by simp
      have 1: "case connect (nodes h ! x) of OnConnect \<Rightarrow> True
        | AddChildHook p c \<Rightarrow> p < x \<and> c = x \<and> sender (nodes ?h' ! p) = sender (nodes h ! x)"
      proof (cases "connect (nodes h ! x)")
        case OnConnect
        then show ?thesis by simp
      next
        case (AddChildHook p c)
        note k = hooks_ok_connect[OF hk xl AddChildHook]
        then have "p < ?N" using xl by simp
        then show ?thesis using AddChildHook k old[of p] by simp
      qed
      have 2: "case disconnect (nodes h ! x) of OnDisconnect \<Rightarrow> True
        | RemoveChildHook p c \<Rightarrow> p < x \<and> c = x"
      proof (cases "disconnect (nodes h ! x)")
        case OnDisconnect
        then show ?thesis by simp
      next
        case (RemoveChildHook p c)
        then show ?thesis using hooks_ok_disconnect[OF hk xl RemoveChildHook] by simp
      qed
      show ?thesis unfolding old[OF xl] using 1 2 by blast
    qed
  qed
  moreover have "links_ok ?h'"
    unfolding links_ok_def
  proof (intro ballI conjI)
    fix x assume "x \<in> {..<length (nodes ?h')}"
    then have x: "x < ?N \<or> x = ?N" using len by auto
    show "distinct (children (nodes ?h' ! x))"
    proof (cases "x = ?N")
      case True
      then show ?thesis using assms(3) new by simp
    next
      case False
      then have xl: "x < ?N" using x by simp
      show ?thesis unfolding old[OF xl] using links_ok_distinct[OF lk xl] .
    qed
    fix c assume c: "c \<in> set (children (nodes ?h' ! x))"
    have xl: "x < ?N"
    proof (rule ccontr)
      assume "\<not> x < ?N"
      then have "x = ?N" using x by simp
      then show False using c assms(3) new by simp
    qed
    have c': "c \<in> set (children (nodes h ! x))" using c old[OF xl] by simp
    note ok = links_okD[OF lk xl c']
    show "x < c" using ok by blast
    show "c < length (nodes ?h')" using ok len by simp
    have "c < ?N" using ok by blast
    then show "sender (nodes ?h' ! c) = sender (nodes ?h' ! x)"
      using ok old[OF xl] old[of c] by simp
  qed
  moreover have "listeners_ok ?h'"
    unfolding listeners_ok_def
  proof (intro ballI conjI)
    fix x assume "x \<in> {..<length (nodes ?h')}"
    then have x: "x < ?N \<or> x = ?N" using len by auto
    show "distinct (listeners (nodes ?h' ! x))"
    proof (cases "x = ?N")
      case True
      then show ?thesis using assms(2) new by simp
    next
      case False
      then have xl: "x < ?N" using x by simp
      show ?thesis unfolding old[OF xl] using listeners_ok_distinct[OF lo xl] .
    qed
    fix l assume l: "l \<in> set (listeners (nodes ?h' ! x))"
    have xl: "x < ?N"
    proof (rule ccontr)
      assume "\<not> x < ?N"
      then have "x = ?N" using x by simp
      then show False using l assms(2) new by simp
    qed
    have l': "l \<in> set (listeners (nodes h ! x))" using l old[OF xl] by simp
    show "case l of Ext j \<Rightarrow> True | Once m p \<Rightarrow> m = x \<and> p < length (promises ?h')"
    proof (cases l)
      case (Ext j)
      then show ?thesis by simp
    next
      case (Once m p)
      then show ?thesis using listeners_okD[OF lo xl, of m p] l' by simp
    qed
  qed
  ultimately show ?thesis by (simp add: well_formed_def)
qed

lemma singleEvent_well_formed: "well_formed h \<Longrightarrow> well_formed (fst (singleEvent h s))"
  unfolding singleEvent_def fst_conv
  by (rule well_formed_append) simp_all

lemma derive_effect:
  assumes "well_formed h" "derive h n var = Some (h1, c)"
  shows "n < length (nodes h)" and "c = length (nodes h)"
    and "h1 = h\<lparr>nodes := nodes h @ [\<lparr>listeners = [], children = [], connect = AddChildHook n c,
                 disconnect = RemoveChildHook n c, sender = sender (nodes h ! n), variant = var\<rparr>]\<rparr>"
    and "well_formed h1"
proof -
  show n: "n < length (nodes h)" using assms(2) by (simp add: derive_def node_at_def split: if_splits)
  show c: "c = length (nodes h)" using assms(2) n by (auto simp: derive_def node_at_def Let_def)
  show h1: "h1 = h\<lparr>nodes := nodes h @ [\<lparr>listeners = [], children = [], connect = AddChildHook n c,
                 disconnect = RemoveChildHook n c, sender = sender (nodes h ! n), variant = var\<rparr>]\<rparr>"
    using assms(2) n by (auto simp: derive_def node_at_def Let_def)
  show "well_formed h1"
    unfolding h1 by (rule well_formed_append[OF assms(1)]) (simp_all add: n c)
qed

text \<open>The events of a connect chain.\<close>

lemma run_connect_head:
  assumes "well_formed h" "n < length (nodes h)" "run_connect k h n = Some h'"
  shows "\<exists>t. delta h h' = Connect n # t"
proof -
  obtain k' where k: "k = Suc k'" using assms(3) by (cases k) simp_all
  have nd: "node_at h n = Some (nodes h ! n)" using assms(2) by (simp add: node_at_def)
  let ?e = "emit (Connect n) h"
  show ?thesis
  proof (cases "connect (nodes h ! n)")
    case OnConnect
    then have "h' = ?e" using assms(3) k nd by simp
    then show ?thesis by (simp add: delta_def emit_def)
  next
    case (AddChildHook p c)
    have hk: "hooks_ok h" using assms(1) by (simp add: well_formed_def)
    note ok = hooks_ok_connect[OF hk assms(2) AddChildHook]
    have run: "addChild k' ?e p c = Some h'" using assms(3) k nd AddChildHook by simp
    have wfe: "well_formed ?e" using shrinks_well_formed[OF assms(1) shrinks_emit] .
    have "cframe ?e h'"
      using connect_frame(2)[OF wfe _ _ _ run] ok assms(2) by (simp add: nodes_emit)
    then have "trace h' = trace ?e @ delta ?e h'" using extends_trace cframeD(7) by blast
    then have "trace h' = trace h @ (Connect n # delta ?e h')" by (simp add: trace_emit)
    then show ?thesis using delta_eq by blast
  qed
qed

lemma addChild_effect:
  assumes "well_formed h" "p < c" "c < length (nodes h)"
    "sender (nodes h ! c) = sender (nodes h ! p)" "addChild k h p c = Some h'"
  shows "c \<in> set (children (nodes h' ! p))"
    and "idle (nodes h ! p) \<Longrightarrow> \<exists>t. delta h h' = Connect p # t"
    and "\<not> idle (nodes h ! p) \<Longrightarrow> delta h h' = []"
proof -
  have pv: "p < length (nodes h)" using assms(2,3) by simp
  have nd: "node_at h p = Some (nodes h ! p)" using pv by (simp add: node_at_def)
  obtain h1 where h1: "(if idle (nodes h ! p) then run_connect k h p else Some h) = Some h1"
    and h': "h' = put_node h1 p ((nodes h1 ! p)\<lparr>children := set_add c (children (nodes h1 ! p))\<rparr>)"
    using assms(5) nd by (auto split: option.splits)
  have cf: "cframe h h1"
  proof (cases "idle (nodes h ! p)")
    case True
    then have "run_connect k h p = Some h1" using h1 by simp
    then show ?thesis using connect_frame(1)[OF assms(1) pv] by blast
  next
    case False
    then show ?thesis using h1 cframe_refl by simp
  qed
  have p1: "p < length (nodes h1)" using cframeD(2)[OF cf] pv by simp
  show "c \<in> set (children (nodes h' ! p))"
    unfolding h' using p1 by (simp add: nodes_put_node set_add_set)
  have tr: "trace h' = trace h1" unfolding h' by (simp add: other_put_node)
  show "idle (nodes h ! p) \<Longrightarrow> \<exists>t. delta h h' = Connect p # t"
  proof -
    assume "idle (nodes h ! p)"
    then have "run_connect k h p = Some h1" using h1 by simp
    then obtain t where "delta h h1 = Connect p # t"
      using run_connect_head[OF assms(1) pv] by blast
    then show ?thesis using tr by (simp add: delta_def)
  qed
  show "\<not> idle (nodes h ! p) \<Longrightarrow> delta h h' = []"
  proof -
    assume "\<not> idle (nodes h ! p)"
    then have "h1 = h" using h1 by simp
    then show ?thesis using tr by (simp add: delta_def)
  qed
qed

lemma notify_loop_shrinks: "notify_loop k h n ls v = Some h' \<Longrightarrow> shrinks h h'"
proof (induction ls arbitrary: h)
  case Nil
  then show ?case by (simp add: shrinks_refl)
next
  case (Cons l ls)
  show ?case
  proof (cases "l \<in> set (listeners (nodes h ! n))")
    case True
    then obtain h1 where c1: "call_listener k h l v (sender (nodes h ! n)) = Some h1"
      and r1: "notify_loop k h1 n ls v = Some h'"
      using Cons.prems by (auto split: option.splits)
    show ?thesis using shrinks_trans[OF call_listener_frame(1)[OF c1] Cons.IH[OF r1]] .
  next
    case False
    then show ?thesis using Cons.prems Cons.IH by simp
  qed
qed

lemma trigger_shrinks:
  "trigger k h n v = Some h' \<Longrightarrow> shrinks h h'"
  "notifyListeners k h n v = Some h' \<Longrightarrow> shrinks h h'"
  "trigger_children k h n cs v = Some h' \<Longrightarrow> shrinks h h'"
proof (induct k h n v and k h n v and k h n cs v arbitrary: h' and h' and h'
    rule: trigger_notifyListeners_trigger_children.induct)
  case (1 h n v)
  then show ?case by simp
next
  case (2 k h n v)
  from "2.prems" obtain nd where nd: "node_at h n = Some nd" by (auto split: option.splits)
  show ?case
  proof (cases "variant nd")
    case SingleEventSource
    then show ?thesis using "2.prems" nd "2.hyps"(1)[OF nd SingleEventSource] by simp
  next
    case (FilterEvent pred)
    show ?thesis
    proof (cases "pred v")
      case True
      then have "notifyListeners k (emit (Test n v) h) n v = Some h'"
        using "2.prems" nd FilterEvent by simp
      then have "shrinks (emit (Test n v) h) h'" using "2.hyps"(2)[OF nd FilterEvent True] by blast
      then show ?thesis using shrinks_trans[OF shrinks_emit] by blast
    next
      case False
      then have "h' = emit (Test n v) h" using "2.prems" nd FilterEvent by simp
      then show ?thesis by (simp add: shrinks_emit)
    qed
  next
    case (MapEvent f)
    then show ?thesis using "2.prems" nd "2.hyps"(3)[OF nd MapEvent] by simp
  qed
next
  case (3 k h n v)
  from "3.prems" obtain nd where nd: "node_at h n = Some nd" by (auto split: option.splits)
  obtain h1 where l1: "notify_loop k h n (listeners nd) v = Some h1"
    and c1: "trigger_children k h1 n (children (nodes h1 ! n)) v = Some h'"
    using "3.prems" nd by (auto split: option.splits)
  show ?case using shrinks_trans[OF notify_loop_shrinks[OF l1] "3.hyps"[OF nd l1 c1]] .
next
  case (4 k h n v)
  then show ?case by (simp add: shrinks_refl)
next
  case (5 k h n c cs v)
  show ?case
  proof (cases "c \<in> set (children (nodes h ! n))")
    case True
    then obtain h1 where t1: "trigger k h c v = Some h1"
      and r1: "trigger_children k h1 n cs v = Some h'"
      using "5.prems" by (auto split: option.splits)
    show ?thesis using shrinks_trans[OF "5.hyps"(1)[OF True t1] "5.hyps"(2)[OF True t1 r1]] .
  next
    case False
    then show ?thesis using "5.prems" "5.hyps"(3)[OF False] by simp
  qed
qed

lemma filter_calls_of_map:
  "distinct ls \<Longrightarrow> l \<in> set ls \<Longrightarrow> filter (calls_of l) (map (\<lambda>l. Call l v s) ls) = [Call l v s]"
proof (induction ls)
  case Nil
  then show ?case by simp
next
  case (Cons a ls)
  show ?case
  proof (cases "a = l")
    case True
    then have "l \<notin> set ls" using Cons.prems(1) by simp
    then have "filter (calls_of l) (map (\<lambda>l. Call l v s) ls) = []"
      by (induction ls) auto
    then show ?thesis using True by simp
  next
    case False
    then show ?thesis using Cons by simp
  qed
qed

lemma filter_calls_of_Call: "filter (calls_of l) (filter is_Call t) = filter (calls_of l) t"
proof (induction t)
  case Nil
  then show ?case by simp
next
  case (Cons e t)
  then show ?case by (cases e) simp_all
qed

lemma no_calls_unregistered:
  assumes "list_all (ev_ok h s b) t" "\<not> registered h l"
  shows "filter (calls_of l) t = []"
  using assms(1)
proof (induction t)
  case Nil
  then show ?case by simp
next
  case (Cons e t)
  then have "ev_ok h s b e" by simp
  then have "\<not> calls_of l e" using assms(2) by (cases e) (auto simp: ev_ok_def)
  then show ?case using Cons by simp
qed

lemma ev_ok_sent_by: "list_all (ev_ok h s b) t \<Longrightarrow> list_all (sent_by s) t"
proof (induction t)
  case Nil
  then show ?case by simp
next
  case (Cons e t)
  then have "ev_ok h s b e" by simp
  then have "sent_by s e" by (cases e) (auto simp: ev_ok_def)
  then show ?case using Cons by simp
qed

lemma no_tests_above:
  assumes "list_all (ev_ok h s (Suc n)) t"
  shows "filter (tests_of n) t = []"
  using assms
proof (induction t)
  case Nil
  then show ?case by simp
next
  case (Cons e t)
  then have "ev_ok h s (Suc n) e" by simp
  then have "\<not> tests_of n e" by (cases e) (auto simp: ev_ok_def)
  then show ?case using Cons by simp
qed

lemma unregistered_after:
  assumes "listeners_ok h" "n < length (nodes h)" "Once n p \<notin> set (listeners (nodes h ! n))"
  shows "\<not> registered h (Once n p)"
proof
  assume "registered h (Once n p)"
  then obtain x where x: "x < length (nodes h)" "Once n p \<in> set (listeners (nodes h ! x))"
    unfolding registered_def by blast
  then have "n = x" using listeners_okD[OF assms(1) x(1) x(2)] by simp
  then show False using x(2) assms(3) by simp
qed


text \<open>
  The store \<open>demo\<close> is what the calls
  \<^verbatim>\<open>ev.listen(l1); ev.listen(l2); f = ev.filter(x => 0 < x); f.listen(l3); m = f.map(x => 2 * x); m.listen(l4)\<close>
  build on a fresh source \<^verbatim>\<open>ev\<close> with sender \<^verbatim>\<open>'me'\<close>.
\<close>

lemma demo_built:
  "(case listen 3 (fst (singleEvent init ''me'')) 0 (Ext 1) of None \<Rightarrow> None | Some a \<Rightarrow>
    case listen 3 a 0 (Ext 2) of None \<Rightarrow> None | Some b \<Rightarrow>
    case filter_ev b 0 (\<lambda>x. 0 < x) of None \<Rightarrow> None | Some (c, f) \<Rightarrow>
    case listen 3 c f (Ext 3) of None \<Rightarrow> None | Some d \<Rightarrow>
    case map_ev d f (\<lambda>x. 2 * x) of None \<Rightarrow> None | Some (e, m) \<Rightarrow>
    listen 5 e m (Ext 4))
   = Some (demo\<lparr>trace := [Connect 0, Connect 1, Connect 2]\<rparr>)"
  by (simp add: listen_def singleEvent_def init_def filter_ev_def map_ev_def derive_def node_at_def
      put_node_def emit_def idle_def set_add_def demo_def eval_nat_numeral Let_def)

lemma demo_well_formed: "well_formed demo"
  by (simp add: well_formed_def hooks_ok_def links_ok_def listeners_ok_def demo_def
      lessThan_Suc eval_nat_numeral)

lemma demo_enough: "enough demo 11"
  by (simp add: enough_def demo_def)

lemma well_formed_more_promises:
  assumes "well_formed h"
  shows "well_formed (h\<lparr>promises := promises h @ ps\<rparr>)" (is "well_formed ?h'")
proof -
  have hk: "hooks_ok h" and lk: "links_ok h" and lo: "listeners_ok h"
    using assms by (simp_all add: well_formed_def)
  have "hooks_ok ?h'" by (rule hooks_ok_static[OF hk]) simp
  moreover have "links_ok ?h' = links_ok h" unfolding links_ok_def by simp
  then have "links_ok ?h'" using lk by blast
  moreover have "listeners_ok ?h'"
    unfolding listeners_ok_def
  proof (intro ballI conjI)
    fix x assume "x \<in> {..<length (nodes ?h')}"
    then have x: "x < length (nodes h)" by simp
    show "distinct (listeners (nodes ?h' ! x))" using listeners_ok_distinct[OF lo x] by simp
    fix l assume "l \<in> set (listeners (nodes ?h' ! x))"
    then have l: "l \<in> set (listeners (nodes h ! x))" by simp
    show "case l of Ext j \<Rightarrow> True | Once m p \<Rightarrow> m = x \<and> p < length (promises ?h')"
    proof (cases l)
      case (Ext j)
      then show ?thesis by simp
    next
      case (Once m p)
      then show ?thesis using listeners_okD[OF lo x, of m p] l by simp
    qed
  qed
  ultimately show ?thesis by (simp add: well_formed_def)
qed

text \<open>What \<^verbatim>\<open>next()\<close> leaves behind.\<close>

lemma next_ev_effect:
  assumes "well_formed h" "n < length (nodes h)" "n < k"
  shows "\<exists>h1. next_ev k h n = Some (h1, length (promises h)) \<and> well_formed h1 \<and>
     map static (nodes h1) = map static (nodes h) \<and>
     promises h1 = promises h @ [None] \<and> takes h1 = takes h \<and> queue h1 = queue h \<and>
     listeners (nodes h1 ! n) = set_add (Once n (length (promises h))) (listeners (nodes h ! n)) \<and>
     (\<forall>x. x < length (nodes h) \<and> x \<noteq> n \<longrightarrow> listeners (nodes h1 ! x) = listeners (nodes h ! x)) \<and>
     emits is_Connect h h1"
proof -
  let ?p = "length (promises h)"
  let ?h0 = "h\<lparr>promises := promises h @ [None]\<rparr>"
  have wf0: "well_formed ?h0" using well_formed_more_promises[OF assms(1)] .
  have n0: "n < length (nodes ?h0)" using assms(2) by simp
  have hk0: "hooks_ok ?h0" using wf0 by (simp add: well_formed_def)
  obtain h1 where L: "listen k ?h0 n (Once n ?p) = Some h1"
    using listen_total[OF hk0 n0 assms(3)] by blast
  have fits: "case Once n ?p of Ext j \<Rightarrow> True | Once m q \<Rightarrow> m = n \<and> q < length (promises ?h0)"
    by simp
  note e = listen_effect[OF wf0 n0 L fits]
  have 1: "next_ev k h n = Some (h1, ?p)" using L by (simp add: next_ev_def Let_def)
  have 2: "map static (nodes h1) = map static (nodes h)" using e(2) by simp
  have 3: "promises h1 = promises h @ [None]" "takes h1 = takes h" "queue h1 = queue h"
    using e(5,6,7) by simp_all
  have 4: "listeners (nodes h1 ! n) = set_add (Once n ?p) (listeners (nodes h ! n))"
    using e(3) by simp
  have 5: "\<forall>x. x < length (nodes h) \<and> x \<noteq> n \<longrightarrow> listeners (nodes h1 ! x) = listeners (nodes h ! x)"
    using e(4) by simp
  have 6: "emits is_Connect h h1"
    using e(8) by (simp add: emits_def extends_def delta_def)
  show ?thesis using 1 e(1) 2 3 4 5 6 by blast
qed

lemma enough_static:
  "map static (nodes h') = map static (nodes h) \<Longrightarrow> enough h k \<Longrightarrow> enough h' k"
  using static_length[of "nodes h'" "nodes h"] by (simp add: enough_def)

text \<open>A firing of a node that holds a listener of \<^verbatim>\<open>next()\<close> settles its promise.\<close>

lemma notify_settles:
  assumes "well_formed g" "n < length (nodes g)" "enough g k" "p < length (promises g)"
    "promises g ! p = None" "Once n p \<in> set (listeners (nodes g ! n))"
  shows "\<exists>g'. notifyListeners k g n v = Some g' \<and> well_formed g' \<and> shrinks g g' \<and>
     promises g' ! p = Some v \<and> \<not> registered g' (Once n p) \<and>
     filter (calls_of (Once n p)) (delta g g') = [Call (Once n p) v (sender (nodes g ! n))]"
proof -
  let ?l = "Once n p"
  let ?s = "sender (nodes g ! n)"
  have nd: "node_at g n = Some (nodes g ! n)" using assms(2) by (simp add: node_at_def)
  obtain g' where run: "notifyListeners k g n v = Some g'"
    using trigger_total(2)[OF assms(1,2) enough_notify[OF assms(3)]] by blast
  obtain g1 where l1: "notify_loop k g n (listeners (nodes g ! n)) v = Some g1"
    and c1: "trigger_children k g1 n (children (nodes g1 ! n)) v = Some g'"
    using run nd by (auto split: option.splits)
  have lo: "listeners_ok g" using assms(1) by (simp add: well_formed_def)
  have dl: "distinct (listeners (nodes g ! n))" using listeners_ok_distinct[OF lo assms(2)] .
  note a = notify_loop_all[OF l1 assms(2) dl subset_refl]
  have sh1: "shrinks g g1" using a by blast
  have calls: "filter is_Call (delta g g1) = map (\<lambda>l. Call l v ?s) (listeners (nodes g ! n))"
    using a by blast
  have gone: "?l \<notin> set (listeners (nodes g1 ! n))" using a assms(2,6) by blast
  have "\<forall>m q. Once m q \<in> set (listeners (nodes g ! n)) \<longrightarrow> q < length (promises g) \<longrightarrow>
        (promises g ! q = None \<or> promises g ! q = Some v) \<longrightarrow> promises g1 ! q = Some v"
    using a by blast
  then have pr1: "promises g1 ! p = Some v" using assms(4,5,6) by blast
  have wf1: "well_formed g1" using shrinks_well_formed[OF assms(1) sh1] .
  have n1: "n < length (nodes g1)" using shrinksD(2)[OF sh1] assms(2) by simp
  have p1: "p < length (promises g1)" using shrinksD(3)[OF sh1] assms(4) by simp
  have lo1: "listeners_ok g1" and lk1: "links_ok g1" using wf1 by (simp_all add: well_formed_def)
  have un1: "\<not> registered g1 ?l" using unregistered_after[OF lo1 n1 gone] .
  have cs: "\<forall>c \<in> set (children (nodes g1 ! n)).
      n < c \<and> c < length (nodes g1) \<and> sender (nodes g1 ! c) = sender (nodes g1 ! n)"
    using links_okD[OF lk1 n1] by blast
  note b = trigger_events(3)[OF wf1 n1 cs c1]
  have sh2: "shrinks g1 g'" using b by blast
  have ev2: "list_all (ev_ok g1 (sender (nodes g1 ! n)) (Suc n)) (delta g1 g')" using b by blast
  have none2: "filter (calls_of ?l) (delta g1 g') = []"
    using no_calls_unregistered[OF ev2 un1] .
  have one1: "filter (calls_of ?l) (delta g g1) = [Call ?l v ?s]"
    using filter_calls_of_Call[of ?l "delta g g1"] filter_calls_of_map[OF dl assms(6), of v ?s] calls
    by simp
  have dsplit: "delta g g' = delta g g1 @ delta g1 g'"
    using delta_trans[OF shrinksD(5)[OF sh1] shrinksD(5)[OF sh2]] .
  have A: "well_formed g'" using shrinks_well_formed[OF wf1 sh2] .
  have B: "promises g' ! p = Some v" using shrinks_promise[OF sh2 p1 pr1] .
  have C: "\<not> registered g' ?l" using un1 shrinks_registered[OF sh2] by blast
  have D: "filter (calls_of ?l) (delta g g') = [Call ?l v ?s]" using dsplit one1 none2 by simp
  show ?thesis using run A shrinks_trans[OF sh1 sh2] B C D by blast
qed

text \<open>Once the listener is gone and the promise is settled, a firing changes neither.\<close>

lemma settled_stays:
  assumes "well_formed g" "x < length (nodes g)" "enough g k" "p < length (promises g)"
    "promises g ! p = Some v" "\<not> registered g l"
  shows "\<exists>g'. trigger k g x w = Some g' \<and> well_formed g' \<and> shrinks g g' \<and>
     promises g' ! p = Some v \<and> \<not> registered g' l \<and> filter (calls_of l) (delta g g') = []"
proof -
  obtain g' where run: "trigger k g x w = Some g'"
    using trigger_total(1)[OF assms(1,2) enough_trigger[OF assms(3)]] by blast
  note b = trigger_events(1)[OF assms(1,2) run]
  have sh: "shrinks g g'" using b by blast
  have ev: "list_all (ev_ok g (sender (nodes g ! x)) x) (delta g g')" using b by blast
  have A: "well_formed g'" using shrinks_well_formed[OF assms(1) sh] .
  have B: "promises g' ! p = Some v" using shrinks_promise[OF sh assms(4,5)] .
  have C: "\<not> registered g' l" using assms(6) shrinks_registered[OF sh] by blast
  have D: "filter (calls_of l) (delta g g') = []" using no_calls_unregistered[OF ev assms(6)] .
  show ?thesis using run A sh B C D by blast
qed

lemma takes_okD:
  assumes "takes_ok h" "t < length (takes h)" "takes h ! t = Awaiting m cnt i arr q"
  shows "m < length (nodes h) \<and> q < length (promises h)"
proof -
  have "takes h ! t \<in> set (takes h)" using assms(2) by simp
  then have "case takes h ! t of Returned arr \<Rightarrow> True
     | Awaiting m cnt i arr q \<Rightarrow> m < length (nodes h) \<and> q < length (promises h)"
    using assms(1) unfolding takes_ok_def by blast
  then show ?thesis using assms(3) by simp
qed

lemma takes_okI:
  assumes "\<And>t m cnt i arr q. t < length (takes h) \<Longrightarrow> takes h ! t = Awaiting m cnt i arr q \<Longrightarrow>
     m < length (nodes h) \<and> q < length (promises h)"
  shows "takes_ok h"
  unfolding takes_ok_def
proof
  fix tk assume "tk \<in> set (takes h)"
  then obtain t where t: "t < length (takes h)" "takes h ! t = tk" by (auto simp: in_set_conv_nth)
  show "case tk of Returned arr \<Rightarrow> True
     | Awaiting m cnt i arr q \<Rightarrow> m < length (nodes h) \<and> q < length (promises h)"
  proof (cases tk)
    case (Awaiting m cnt i arr q)
    then show ?thesis using assms[OF t(1), of m cnt i arr q] t(2) by simp
  next
    case (Returned arr)
    then show ?thesis by simp
  qed
qed

lemma well_formed_nodes_promises:
  assumes "well_formed h" "nodes h' = nodes h" "promises h' = promises h"
  shows "well_formed h'"
proof -
  have "hooks_ok h' = hooks_ok h" unfolding hooks_ok_def assms(2) by simp
  moreover have "links_ok h' = links_ok h" unfolding links_ok_def assms(2) by simp
  moreover have "listeners_ok h' = listeners_ok h" unfolding listeners_ok_def assms(2,3) by simp
  ultimately show ?thesis using assms(1) by (simp add: well_formed_def)
qed

lemma grows_refl: "grows h h"
  by (simp add: grows_def)

lemma growsD:
  assumes "grows h h'"
  shows "map static (nodes h') = map static (nodes h)" "length (nodes h') = length (nodes h)"
    "length (takes h') = length (takes h)" "queue h' = queue h"
    "p < length (promises h) \<Longrightarrow> promises h' ! p = promises h ! p"
    "length (promises h) \<le> length (promises h')"
    "x < length (nodes h) \<Longrightarrow> l \<in> set (listeners (nodes h ! x)) \<Longrightarrow> l \<in> set (listeners (nodes h' ! x))"
proof -
  show st: "map static (nodes h') = map static (nodes h)" using assms by (simp add: grows_def)
  show "length (nodes h') = length (nodes h)" using static_length[OF st] .
  show "length (takes h') = length (takes h)" "queue h' = queue h"
    using assms by (simp_all add: grows_def)
  obtain ps where ps: "promises h' = promises h @ ps" using assms unfolding grows_def by blast
  show "p < length (promises h) \<Longrightarrow> promises h' ! p = promises h ! p"
    using ps by (simp add: nth_append)
  show "length (promises h) \<le> length (promises h')" using ps by simp
  have "\<forall>x \<in> {..<length (nodes h)}. set (listeners (nodes h ! x)) \<subseteq> set (listeners (nodes h' ! x))"
    using assms unfolding grows_def by blast
  then show "x < length (nodes h) \<Longrightarrow> l \<in> set (listeners (nodes h ! x)) \<Longrightarrow>
      l \<in> set (listeners (nodes h' ! x))"
    by blast
qed

text \<open>The loop of \<^verbatim>\<open>take\<close> up to its next suspension.\<close>

lemma take_loop_effect:
  assumes "well_formed g" "enough g k" "m < length (nodes g)"
  shows "\<exists>g' tk. take_loop k g m cnt i arr = Some (g', tk) \<and> well_formed g' \<and> grows g g' \<and>
     takes g' = takes g \<and>
     (if i < cnt
      then \<exists>p. tk = Awaiting m cnt i arr p \<and> p < length (promises g') \<and> promises g' ! p = None \<and>
             Once m p \<in> set (listeners (nodes g' ! m))
      else tk = Returned arr \<and> g' = g)"
proof (cases "i < cnt")
  case True
  let ?p = "length (promises g)"
  have mk: "m < k" using enough_connect[OF assms(2,3)] .
  obtain g' where N: "next_ev k g m = Some (g', ?p)" and wf: "well_formed g'"
    and st: "map static (nodes g') = map static (nodes g)"
    and pr: "promises g' = promises g @ [None]" and tk: "takes g' = takes g"
    and qu: "queue g' = queue g"
    and ls: "listeners (nodes g' ! m) = set_add (Once m ?p) (listeners (nodes g ! m))"
    and ot: "\<forall>x. x < length (nodes g) \<and> x \<noteq> m \<longrightarrow> listeners (nodes g' ! x) = listeners (nodes g ! x)"
    using next_ev_effect[OF assms(1,3) mk] by blast
  have sub: "\<forall>x \<in> {..<length (nodes g)}. set (listeners (nodes g ! x)) \<subseteq> set (listeners (nodes g' ! x))"
  proof
    fix x assume "x \<in> {..<length (nodes g)}"
    then have x: "x < length (nodes g)" by simp
    show "set (listeners (nodes g ! x)) \<subseteq> set (listeners (nodes g' ! x))"
    proof (cases "x = m")
      case True
      then show ?thesis using ls by (auto simp: set_add_set)
    next
      case False
      then show ?thesis using ot x by simp
    qed
  qed
  have gr: "grows g g'" unfolding grows_def using st tk pr sub qu by simp
  have T: "take_loop k g m cnt i arr = Some (g', Awaiting m cnt i arr ?p)"
    using True N by (simp add: take_loop_def)
  have "?p < length (promises g') \<and> promises g' ! ?p = None \<and>
      Once m ?p \<in> set (listeners (nodes g' ! m))"
    using pr ls by (simp add: set_add_set)
  then show ?thesis using T wf gr tk True by auto
next
  case False
  then show ?thesis using assms(1) by (simp add: take_loop_def grows_refl)
qed

lemma takes_ok_grows_update:
  assumes "takes_ok g" "grows g g'" "takes g' = (takes g)[t := tk]"
    "case tk of Returned arr \<Rightarrow> True
     | Awaiting m cnt i arr q \<Rightarrow> m < length (nodes g') \<and> q < length (promises g')"
  shows "takes_ok g'"
proof (rule takes_okI)
  fix t' m cnt i arr q
  assume t': "t' < length (takes g')" and a: "takes g' ! t' = Awaiting m cnt i arr q"
  note gd = growsD[OF assms(2)]
  show "m < length (nodes g') \<and> q < length (promises g')"
  proof (cases "t' = t")
    case True
    then have "takes g' ! t' = tk" using t' assms(3) by simp
    then have "tk = Awaiting m cnt i arr q" using a by simp
    then show ?thesis using assms(4) by simp
  next
    case False
    then have "takes g ! t' = Awaiting m cnt i arr q" using a assms(3) by simp
    moreover have "t' < length (takes g)" using t' assms(3) by simp
    ultimately have "m < length (nodes g) \<and> q < length (promises g)"
      using takes_okD[OF assms(1)] by blast
    then show ?thesis using gd(2) gd(6) by simp
  qed
qed

text \<open>One continuation from the queue.\<close>

lemma resume_effect:
  assumes "well_formed g" "takes_ok g" "enough g k" "t < length (takes g)"
  shows "\<exists>g'. resume k g t = Some g' \<and> well_formed g' \<and> takes_ok g' \<and> grows g g' \<and>
     (\<forall>t'. t' \<noteq> t \<longrightarrow> takes g' ! t' = takes g ! t') \<and>
     (case takes g ! t of
        Returned arr \<Rightarrow> g' = g
      | Awaiting m cnt i arr q \<Rightarrow>
          (case promises g ! q of None \<Rightarrow> g' = g
           | Some a \<Rightarrow>
               (if i + 1 < cnt
                then \<exists>p. takes g' ! t = Awaiting m cnt (i + 1) (arr @ [a]) p \<and>
                       p < length (promises g') \<and> promises g' ! p = None \<and>
                       Once m p \<in> set (listeners (nodes g' ! m))
                else takes g' ! t = Returned (arr @ [a]))))"
proof (cases "takes g ! t")
  case (Returned arr)
  then have "resume k g t = Some g" using assms(4) by (simp add: resume_def)
  then show ?thesis using assms(1,2) Returned grows_refl by simp
next
  case (Awaiting m cnt i arr q)
  have mq: "m < length (nodes g)" "q < length (promises g)"
    using takes_okD[OF assms(2,4) Awaiting] by simp_all
  show ?thesis
  proof (cases "promises g ! q")
    case None
    then have "resume k g t = Some g" using assms(4) Awaiting mq by (simp add: resume_def)
    then show ?thesis using assms(1,2) Awaiting None grows_refl by simp
  next
    case (Some a)
    obtain g1 tk where T: "take_loop k g m cnt (i + 1) (arr @ [a]) = Some (g1, tk)"
      and wf1: "well_formed g1" and gr1: "grows g g1" and tk1: "takes g1 = takes g"
      and eff: "if i + 1 < cnt
        then \<exists>p. tk = Awaiting m cnt (i + 1) (arr @ [a]) p \<and> p < length (promises g1) \<and>
               promises g1 ! p = None \<and> Once m p \<in> set (listeners (nodes g1 ! m))
        else tk = Returned (arr @ [a]) \<and> g1 = g"
      using take_loop_effect[OF assms(1,3) mq(1), of cnt "i + 1" "arr @ [a]"] by blast
    define g' where "g' = g1\<lparr>takes := (takes g1)[t := tk]\<rparr>"
    have R: "resume k g t = Some g'"
      using assms(4) Awaiting mq Some T by (simp add: resume_def g'_def)
    have wf': "well_formed g'"
      by (rule well_formed_nodes_promises[OF wf1]) (simp_all add: g'_def)
    have gr': "grows g g'" using gr1 unfolding grows_def g'_def by simp
    have tk': "takes g' = (takes g)[t := tk]" using tk1 by (simp add: g'_def)
    have at: "takes g' ! t = tk" using tk' assms(4) by simp
    have ok: "case tk of Returned arr \<Rightarrow> True
      | Awaiting m cnt i arr q \<Rightarrow> m < length (nodes g') \<and> q < length (promises g')"
    proof (cases "i + 1 < cnt")
      case True
      then obtain p where "tk = Awaiting m cnt (i + 1) (arr @ [a]) p" "p < length (promises g1)"
        using eff by auto
      then show ?thesis using mq(1) growsD(2)[OF gr1] by (simp add: g'_def)
    next
      case False
      then show ?thesis using eff by simp
    qed
    have to: "takes_ok g'" using takes_ok_grows_update[OF assms(2) gr' tk' ok] .
    have oth: "\<forall>t'. t' \<noteq> t \<longrightarrow> takes g' ! t' = takes g ! t'" using tk' by simp
    have fin: "if i + 1 < cnt
        then \<exists>p. takes g' ! t = Awaiting m cnt (i + 1) (arr @ [a]) p \<and>
               p < length (promises g') \<and> promises g' ! p = None \<and>
               Once m p \<in> set (listeners (nodes g' ! m))
        else takes g' ! t = Returned (arr @ [a])"
    proof (cases "i + 1 < cnt")
      case True
      then obtain p where "tk = Awaiting m cnt (i + 1) (arr @ [a]) p" "p < length (promises g1)"
        "promises g1 ! p = None" "Once m p \<in> set (listeners (nodes g1 ! m))"
        using eff by auto
      then show ?thesis using True at by (auto simp: g'_def)
    next
      case False
      then show ?thesis using eff at by simp
    qed
    show ?thesis using R wf' to gr' oth fin Awaiting Some by simp
  qed
qed

lemma waiting_grows:
  assumes "waiting t n cnt i arr g" "grows g g'" "takes g' ! t = takes g ! t" "n < length (nodes g)"
  shows "waiting t n cnt i arr g'"
proof -
  obtain p where p: "takes g ! t = Awaiting n cnt i arr p" "p < length (promises g)"
    "promises g ! p = None" "Once n p \<in> set (listeners (nodes g ! n))"
    using assms(1) unfolding waiting_def by blast
  note gd = growsD[OF assms(2)]
  have "takes g' ! t = Awaiting n cnt i arr p" using p(1) assms(3) by simp
  moreover have "p < length (promises g')" using p(2) gd(6) by simp
  moreover have "promises g' ! p = None" using gd(5)[OF p(2)] p(3) by simp
  moreover have "Once n p \<in> set (listeners (nodes g' ! n))" using gd(7)[OF assms(4) p(4)] .
  ultimately show ?thesis unfolding waiting_def by blast
qed

lemma ready_grows:
  assumes "ready t n cnt i arr v g" "grows g g'" "takes g' ! t = takes g ! t"
  shows "ready t n cnt i arr v g'"
proof -
  obtain p where p: "takes g ! t = Awaiting n cnt i arr p" "p < length (promises g)"
    "promises g ! p = Some v"
    using assms(1) unfolding ready_def by blast
  note gd = growsD[OF assms(2)]
  have "takes g' ! t = Awaiting n cnt i arr p" using p(1) assms(3) by simp
  moreover have "p < length (promises g')" using p(2) gd(6) by simp
  moreover have "promises g' ! p = Some v" using gd(5)[OF p(2)] p(3) by simp
  ultimately show ?thesis unfolding ready_def by blast
qed

lemma advanced_grows:
  assumes "advanced t n cnt i arr v g" "grows g g'" "takes g' ! t = takes g ! t" "n < length (nodes g)"
  shows "advanced t n cnt i arr v g'"
proof (cases "i + 1 < cnt")
  case True
  then have "waiting t n cnt (i + 1) (arr @ [v]) g" using assms(1) by (simp add: advanced_def)
  then have "waiting t n cnt (i + 1) (arr @ [v]) g'" using waiting_grows assms(2,3,4) by blast
  then show ?thesis using True by (simp add: advanced_def)
next
  case False
  then show ?thesis using assms(1,3) by (simp add: advanced_def)
qed

lemma baseD:
  assumes "base k t n g"
  shows "well_formed g" "takes_ok g" "enough g k" "n < length (nodes g)" "t < length (takes g)"
  using assms by (simp_all add: base_def)

lemma base_grows:
  assumes "base k t n g" "grows g g'" "well_formed g'" "takes_ok g'"
  shows "base k t n g'"
proof -
  note b = baseD[OF assms(1)] and gd = growsD[OF assms(2)]
  have "enough g' k" using enough_static[OF gd(1) b(3)] .
  then show ?thesis using assms(3,4) b(4,5) gd(2,3) by (simp add: base_def)
qed

text \<open>A continuation that runs after the call advanced changes nothing for it.\<close>

lemma resume_advanced:
  assumes "base k t n g" "t' < length (takes g)" "advanced t n cnt i arr v g"
  shows "\<exists>g1. resume k g t' = Some g1 \<and> base k t n g1 \<and> queue g1 = queue g \<and>
     length (takes g1) = length (takes g) \<and> advanced t n cnt i arr v g1"
proof -
  note b = baseD[OF assms(1)]
  obtain g1 where R: "resume k g t' = Some g1" and wf1: "well_formed g1" and to1: "takes_ok g1"
    and gr: "grows g g1" and oth: "\<forall>t''. t'' \<noteq> t' \<longrightarrow> takes g1 ! t'' = takes g ! t''"
    and eff: "case takes g ! t' of
        Returned arr \<Rightarrow> g1 = g
      | Awaiting m cnt i arr q \<Rightarrow>
          (case promises g ! q of None \<Rightarrow> g1 = g
           | Some a \<Rightarrow>
               (if i + 1 < cnt
                then \<exists>p. takes g1 ! t' = Awaiting m cnt (i + 1) (arr @ [a]) p \<and>
                       p < length (promises g1) \<and> promises g1 ! p = None \<and>
                       Once m p \<in> set (listeners (nodes g1 ! m))
                else takes g1 ! t' = Returned (arr @ [a])))"
    using resume_effect[OF b(1,2,3) assms(2)] by blast
  note gd = growsD[OF gr]
  have same: "takes g1 ! t = takes g ! t"
  proof (cases "t' = t")
    case False
    then show ?thesis using oth by simp
  next
    case True
    show ?thesis
    proof (cases "i + 1 < cnt")
      case True
      then obtain p where "takes g ! t = Awaiting n cnt (i + 1) (arr @ [v]) p" "promises g ! p = None"
        using assms(3) by (auto simp: advanced_def waiting_def)
      then have "g1 = g" using eff \<open>t' = t\<close> by simp
      then show ?thesis by simp
    next
      case False
      then have "takes g ! t = Returned (arr @ [v])" using assms(3) by (simp add: advanced_def)
      then have "g1 = g" using eff \<open>t' = t\<close> by simp
      then show ?thesis by simp
    qed
  qed
  have "advanced t n cnt i arr v g1" using advanced_grows[OF assms(3) gr same b(4)] .
  then show ?thesis using R base_grows[OF assms(1) gr wf1 to1] gd(3,4) by blast
qed

lemma resume_ready_other:
  assumes "base k t n g" "t' < length (takes g)" "t' \<noteq> t" "ready t n cnt i arr v g"
  shows "\<exists>g1. resume k g t' = Some g1 \<and> base k t n g1 \<and> queue g1 = queue g \<and>
     length (takes g1) = length (takes g) \<and> ready t n cnt i arr v g1"
proof -
  note b = baseD[OF assms(1)]
  obtain g1 where R: "resume k g t' = Some g1" and wf1: "well_formed g1" and to1: "takes_ok g1"
    and gr: "grows g g1" and oth: "\<forall>t''. t'' \<noteq> t' \<longrightarrow> takes g1 ! t'' = takes g ! t''"
    using resume_effect[OF b(1,2,3) assms(2)] by blast
  note gd = growsD[OF gr]
  have same: "takes g1 ! t = takes g ! t" using oth assms(3) by simp
  have "ready t n cnt i arr v g1" using ready_grows[OF assms(4) gr same] .
  then show ?thesis using R base_grows[OF assms(1) gr wf1 to1] gd(3,4) by blast
qed

lemma resume_ready_self:
  assumes "base k t n g" "ready t n cnt i arr v g"
  shows "\<exists>g1. resume k g t = Some g1 \<and> base k t n g1 \<and> queue g1 = queue g \<and>
     length (takes g1) = length (takes g) \<and> advanced t n cnt i arr v g1"
proof -
  note b = baseD[OF assms(1)]
  obtain p where p: "takes g ! t = Awaiting n cnt i arr p" "p < length (promises g)"
    "promises g ! p = Some v"
    using assms(2) unfolding ready_def by blast
  obtain g1 where R: "resume k g t = Some g1" and wf1: "well_formed g1" and to1: "takes_ok g1"
    and gr: "grows g g1"
    and eff: "case takes g ! t of
        Returned arr \<Rightarrow> g1 = g
      | Awaiting m cnt i arr q \<Rightarrow>
          (case promises g ! q of None \<Rightarrow> g1 = g
           | Some a \<Rightarrow>
               (if i + 1 < cnt
                then \<exists>p. takes g1 ! t = Awaiting m cnt (i + 1) (arr @ [a]) p \<and>
                       p < length (promises g1) \<and> promises g1 ! p = None \<and>
                       Once m p \<in> set (listeners (nodes g1 ! m))
                else takes g1 ! t = Returned (arr @ [a])))"
    using resume_effect[OF b(1,2,3,5)] by blast
  note gd = growsD[OF gr]
  have "if i + 1 < cnt
        then \<exists>p. takes g1 ! t = Awaiting n cnt (i + 1) (arr @ [v]) p \<and>
               p < length (promises g1) \<and> promises g1 ! p = None \<and>
               Once n p \<in> set (listeners (nodes g1 ! n))
        else takes g1 ! t = Returned (arr @ [v])"
    using eff p by simp
  then have "advanced t n cnt i arr v g1" by (simp add: advanced_def waiting_def)
  then show ?thesis using R base_grows[OF assms(1) gr wf1 to1] gd(3,4) by blast
qed

text \<open>Running the queue.\<close>

lemma run_queue_advanced:
  "base k t n g \<Longrightarrow> \<forall>t' \<in> set qs. t' < length (takes g) \<Longrightarrow> advanced t n cnt i arr v g \<Longrightarrow>
     \<exists>g'. run_queue k g qs = Some g' \<and> base k t n g' \<and> queue g' = queue g \<and>
          advanced t n cnt i arr v g'"
proof (induction qs arbitrary: g)
  case Nil
  then show ?case by simp
next
  case (Cons t' qs)
  have t': "t' < length (takes g)" using Cons.prems(2) by simp
  obtain g1 where R: "resume k g t' = Some g1" and b1: "base k t n g1" and q1: "queue g1 = queue g"
    and l1: "length (takes g1) = length (takes g)" and a1: "advanced t n cnt i arr v g1"
    using resume_advanced[OF Cons.prems(1) t' Cons.prems(3)] by blast
  have rest: "\<forall>t' \<in> set qs. t' < length (takes g1)" using Cons.prems(2) l1 by simp
  obtain g' where "run_queue k g1 qs = Some g'" "base k t n g'" "queue g' = queue g1"
    "advanced t n cnt i arr v g'"
    using Cons.IH[OF b1 rest a1] by blast
  then show ?case using R q1 by simp
qed

lemma run_queue_ready:
  "base k t n g \<Longrightarrow> \<forall>t' \<in> set qs. t' < length (takes g) \<Longrightarrow> ready t n cnt i arr v g \<Longrightarrow>
     \<exists>g'. run_queue k g qs = Some g' \<and> base k t n g' \<and> queue g' = queue g \<and>
          (advanced t n cnt i arr v g' \<or> t \<notin> set qs)"
proof (induction qs arbitrary: g)
  case Nil
  then show ?case by simp
next
  case (Cons t' qs)
  have t': "t' < length (takes g)" using Cons.prems(2) by simp
  show ?case
  proof (cases "t' = t")
    case True
    obtain g1 where R: "resume k g t = Some g1" and b1: "base k t n g1" and q1: "queue g1 = queue g"
      and l1: "length (takes g1) = length (takes g)" and a1: "advanced t n cnt i arr v g1"
      using resume_ready_self[OF Cons.prems(1,3)] by blast
    have rest: "\<forall>t' \<in> set qs. t' < length (takes g1)" using Cons.prems(2) l1 by simp
    obtain g' where "run_queue k g1 qs = Some g'" "base k t n g'" "queue g' = queue g1"
      "advanced t n cnt i arr v g'"
      using run_queue_advanced[OF b1 rest a1] by blast
    then show ?thesis using R q1 True by simp
  next
    case False
    obtain g1 where R: "resume k g t' = Some g1" and b1: "base k t n g1" and q1: "queue g1 = queue g"
      and l1: "length (takes g1) = length (takes g)" and r1: "ready t n cnt i arr v g1"
      using resume_ready_other[OF Cons.prems(1) t' False Cons.prems(3)] by blast
    have rest: "\<forall>t' \<in> set qs. t' < length (takes g1)" using Cons.prems(2) l1 by simp
    obtain g' where "run_queue k g1 qs = Some g'" "base k t n g'" "queue g' = queue g1"
      "advanced t n cnt i arr v g' \<or> t \<notin> set qs"
      using Cons.IH[OF b1 rest r1] by blast
    then show ?thesis using R q1 False by auto
  qed
qed

lemma shrinks_takes_ok:
  assumes "takes_ok g" "shrinks g g'"
  shows "takes_ok g'"
proof (rule takes_okI)
  fix t m cnt i arr q
  assume "t < length (takes g')" "takes g' ! t = Awaiting m cnt i arr q"
  then have "t < length (takes g)" "takes g ! t = Awaiting m cnt i arr q"
    using shrinksD(4)[OF assms(2)] by simp_all
  then have "m < length (nodes g) \<and> q < length (promises g)" using takes_okD[OF assms(1)] by blast
  then show "m < length (nodes g') \<and> q < length (promises g')"
    using shrinksD(2,3)[OF assms(2)] by simp
qed

lemma takes_ok_same:
  assumes "takes_ok g" "nodes g' = nodes g" "promises g' = promises g" "takes g' = takes g"
  shows "takes_ok g'"
proof (rule takes_okI)
  fix t m cnt i arr q
  assume "t < length (takes g')" "takes g' ! t = Awaiting m cnt i arr q"
  then have "m < length (nodes g) \<and> q < length (promises g)"
    using takes_okD[OF assms(1), of t m cnt i arr q] assms(4) by simp
  then show "m < length (nodes g') \<and> q < length (promises g')" using assms(2,3) by simp
qed

text \<open>One firing of the node followed by the queue.\<close>

lemma round_effect:
  assumes "base k t n g" "queue g = []" "waiting t n cnt i arr g"
  shows "\<exists>g1 g2. notifyListeners k g n v = Some g1 \<and> drain k g1 = Some g2 \<and> base k t n g2 \<and>
     queue g2 = [] \<and> advanced t n cnt i arr v g2"
proof -
  note b = baseD[OF assms(1)]
  obtain p where p: "takes g ! t = Awaiting n cnt i arr p" "p < length (promises g)"
    "promises g ! p = None" "Once n p \<in> set (listeners (nodes g ! n))"
    using assms(3) unfolding waiting_def by blast
  obtain g1 where N: "notifyListeners k g n v = Some g1" and wf1: "well_formed g1"
    and sh: "shrinks g g1" and pr1: "promises g1 ! p = Some v"
    using notify_settles[OF b(1,4,3) p(2,3,4)] by blast
  note sd = shrinksD[OF sh]
  have aw: "awaits (takes g ! t) p" using p(1) by (simp add: awaits_def)
  have tin: "t \<in> set (queue g1)"
    using queuesD(2)[OF sd(9) p(2) b(5) p(3) _ aw] pr1 by simp
  obtain qs where "queue g1 = queue g @ qs" "set qs \<subseteq> {..<length (takes g)}"
    using queuesD(1)[OF sd(9)] by blast
  then have qok: "\<forall>t' \<in> set (queue g1). t' < length (takes g)" using assms(2) by auto
  let ?g = "g1\<lparr>queue := []\<rparr>"
  have wfq: "well_formed ?g" by (rule well_formed_nodes_promises[OF wf1]) simp_all
  have toq: "takes_ok ?g" by (rule takes_ok_same[OF shrinks_takes_ok[OF b(2) sh]]) simp_all
  have enq: "enough ?g k" using enough_static[OF sd(1) b(3)] by (simp add: enough_def)
  have bq: "base k t n ?g"
    unfolding base_def using wfq toq enq b(4,5) sd(2,4) by simp
  have rq: "ready t n cnt i arr v ?g"
    unfolding ready_def using p(1,2) pr1 sd(3,4) by simp
  have qq: "\<forall>t' \<in> set (queue g1). t' < length (takes ?g)" using qok sd(4) by simp
  obtain g2 where R: "run_queue k ?g (queue g1) = Some g2" and b2: "base k t n g2"
    and q2: "queue g2 = queue ?g" and a2: "advanced t n cnt i arr v g2 \<or> t \<notin> set (queue g1)"
    using run_queue_ready[OF bq qq rq] by blast
  have "drain k g1 = Some g2" using R by (simp add: drain_def)
  moreover have "queue g2 = []" using q2 by simp
  moreover have "advanced t n cnt i arr v g2" using a2 tin by blast
  ultimately show ?thesis using N b2 by blast
qed

lemma rounds_effect:
  "base k t n g \<Longrightarrow> queue g = [] \<Longrightarrow> waiting t n cnt i arr g \<Longrightarrow> i < cnt \<Longrightarrow>
   i + int (length ws) \<le> cnt \<Longrightarrow>
     \<exists>g'. rounds k g n ws = Some g' \<and> base k t n g' \<and> queue g' = [] \<and>
          (if i + int (length ws) < cnt then waiting t n cnt (i + int (length ws)) (arr @ ws) g'
           else takes g' ! t = Returned (arr @ ws))"
proof (induction ws arbitrary: g i arr)
  case Nil
  then show ?case by simp
next
  case (Cons v ws)
  obtain g1 g2 where N: "notifyListeners k g n v = Some g1" and D: "drain k g1 = Some g2"
    and b2: "base k t n g2" and q2: "queue g2 = []" and a2: "advanced t n cnt i arr v g2"
    using round_effect[OF Cons.prems(1,2,3)] by blast
  have step: "rounds k g n (v # ws) = rounds k g2 n ws" using N D by simp
  show ?case
  proof (cases "i + 1 < cnt")
    case True
    then have w2: "waiting t n cnt (i + 1) (arr @ [v]) g2" using a2 by (simp add: advanced_def)
    have le: "i + 1 + int (length ws) \<le> cnt" using Cons.prems(5) by simp
    obtain g' where r: "rounds k g2 n ws = Some g'" and b': "base k t n g'" and q': "queue g' = []"
      and c: "if i + 1 + int (length ws) < cnt
       then waiting t n cnt (i + 1 + int (length ws)) ((arr @ [v]) @ ws) g'
       else takes g' ! t = Returned ((arr @ [v]) @ ws)"
      using Cons.IH[OF b2 q2 w2 True le] by blast
    have e1: "i + 1 + int (length ws) = i + int (length (v # ws))" by simp
    have e2: "(arr @ [v]) @ ws = arr @ v # ws" by simp
    have c': "if i + int (length (v # ws)) < cnt
       then waiting t n cnt (i + int (length (v # ws))) (arr @ v # ws) g'
       else takes g' ! t = Returned (arr @ v # ws)"
      using c by (simp only: e1 e2)
    have R: "rounds k g n (v # ws) = Some g'" unfolding step by (rule r)
    show ?thesis using R b' q' c' by blast
  next
    case False
    then have r2: "takes g2 ! t = Returned (arr @ [v])" using a2 by (simp add: advanced_def)
    have "i + 1 + int (length ws) \<le> cnt" using Cons.prems(5) by simp
    then have "int (length ws) \<le> 0" using False by linarith
    then have ws: "ws = []" by simp
    have "rounds k g2 n ws = Some g2" using ws by simp
    then have R: "rounds k g n (v # ws) = Some g2" unfolding step .
    have c': "if i + int (length (v # ws)) < cnt
       then waiting t n cnt (i + int (length (v # ws))) (arr @ v # ws) g2
       else takes g2 ! t = Returned (arr @ v # ws)"
      using r2 False ws by simp
    show ?thesis using R b2 q2 c' by blast
  qed
qed

text \<open>The call of \<^verbatim>\<open>take\<close> itself.\<close>

lemma take_ev_start:
  assumes "well_formed h" "takes_ok h" "enough h k" "n < length (nodes h)" "queue h = []" "0 < cnt"
  shows "\<exists>h1. take_ev k h n cnt = Some (h1, length (takes h)) \<and> base k (length (takes h)) n h1 \<and>
     queue h1 = [] \<and> waiting (length (takes h)) n cnt 0 [] h1"
proof -
  obtain g tk where T: "take_loop k h n cnt 0 [] = Some (g, tk)" and wfg: "well_formed g"
    and gr: "grows h g" and tg: "takes g = takes h"
    and eff: "if 0 < cnt
      then \<exists>p. tk = Awaiting n cnt 0 [] p \<and> p < length (promises g) \<and> promises g ! p = None \<and>
             Once n p \<in> set (listeners (nodes g ! n))
      else tk = Returned [] \<and> g = h"
    using take_loop_effect[OF assms(1,3,4), of cnt 0 "[]"] by blast
  obtain p where p: "tk = Awaiting n cnt 0 [] p" "p < length (promises g)" "promises g ! p = None"
    "Once n p \<in> set (listeners (nodes g ! n))"
    using eff assms(6) by auto
  note gd = growsD[OF gr]
  define h1 where "h1 = g\<lparr>takes := takes g @ [tk]\<rparr>"
  have TE: "take_ev k h n cnt = Some (h1, length (takes h))"
    using T tg by (simp add: take_ev_def h1_def)
  have wf1: "well_formed h1" by (rule well_formed_nodes_promises[OF wfg]) (simp_all add: h1_def)
  have to1: "takes_ok h1"
  proof (rule takes_okI)
    fix t m c i arr q
    assume t: "t < length (takes h1)" and a: "takes h1 ! t = Awaiting m c i arr q"
    show "m < length (nodes h1) \<and> q < length (promises h1)"
    proof (cases "t < length (takes h)")
      case True
      then have "takes h ! t = Awaiting m c i arr q" using a tg by (simp add: h1_def nth_append)
      then have "m < length (nodes h) \<and> q < length (promises h)"
        using takes_okD[OF assms(2) True] by blast
      then show ?thesis using gd(2,6) by (simp add: h1_def)
    next
      case False
      then have "t = length (takes h)" using t tg by (simp add: h1_def)
      then have "tk = Awaiting m c i arr q" using a tg by (simp add: h1_def)
      then show ?thesis using p assms(4) gd(2) by (simp add: h1_def)
    qed
  qed
  have en1: "enough h1 k" using enough_static[OF gd(1) assms(3)] by (simp add: enough_def h1_def)
  have b1: "base k (length (takes h)) n h1"
    unfolding base_def using wf1 to1 en1 assms(4) gd(2) tg by (simp add: h1_def)
  have q1: "queue h1 = []" using gd(4) assms(5) by (simp add: h1_def)
  have w1: "waiting (length (takes h)) n cnt 0 [] h1"
    unfolding waiting_def using p tg by (simp add: h1_def)
  show ?thesis using TE b1 q1 w1 by blast
qed

lemma trigger_source:
  "node_at g n = Some nd \<Longrightarrow> variant nd = SingleEventSource \<Longrightarrow>
     trigger (Suc k) g n v = notifyListeners k g n v"
  by simp

text \<open>The connect hook of a derived node is the call of \<^verbatim>\<open>addChild\<close> on its parent.\<close>

lemma run_connect_registers:
  assumes "well_formed h" "c < length (nodes h)" "connect (nodes h ! c) = AddChildHook p x"
    "length (nodes h) \<le> k"
  shows "\<exists>g. run_connect (Suc k) h c = Some g \<and> well_formed g \<and> cframe h g \<and> p < c \<and>
     c \<in> set (children (nodes g ! p)) \<and>
     (\<exists>t. delta h g = Connect c # (if idle (nodes h ! p) then Connect p # t else []))"
proof -
  let ?e = "emit (Connect c) h"
  have hk: "hooks_ok h" using assms(1) by (simp add: well_formed_def)
  note ok = hooks_ok_connect[OF hk assms(2,3)]
  have x: "x = c" and pc: "p < c" using ok by simp_all
  have nd: "node_at h c = Some (nodes h ! c)" using assms(2) by (simp add: node_at_def)
  have wfe: "well_formed ?e" using shrinks_well_formed[OF assms(1) shrinks_emit] .
  have hke: "hooks_ok ?e" using wfe by (simp add: well_formed_def)
  have pe: "p < length (nodes ?e)" using pc assms(2) by (simp add: nodes_emit)
  have pk: "p < k" using pc assms(2,4) by simp
  obtain g where g: "addChild k ?e p c = Some g"
    using connect_total(2)[OF hke pe pk] by blast
  have ce: "c < length (nodes ?e)" using assms(2) by (simp add: nodes_emit)
  have se: "sender (nodes ?e ! c) = sender (nodes ?e ! p)" using ok by (simp add: nodes_emit)
  note ac = addChild_effect[OF wfe pc ce se g]
  have fr: "well_formed g \<and> cframe ?e g" using connect_frame(2)[OF wfe pc ce se g] .
  have cf: "cframe h g" using cframe_trans[OF cframe_emit] fr by blast
  have run: "run_connect (Suc k) h c = Some g" using nd assms(3) g x by simp
  have tg: "trace g = trace h @ (Connect c # delta ?e g)"
    using extends_trace[OF cframeD(7)[OF conjunct2[OF fr]]] by (simp add: trace_emit)
  have dl: "delta h g = Connect c # delta ?e g" using delta_eq[OF tg] .
  have ide: "idle (nodes ?e ! p) = idle (nodes h ! p)" by (simp add: nodes_emit)
  have E: "\<exists>t. delta h g = Connect c # (if idle (nodes h ! p) then Connect p # t else [])"
  proof (cases "idle (nodes h ! p)")
    case True
    then obtain t where "delta ?e g = Connect p # t" using ac(2) ide by blast
    then show ?thesis using dl True by simp
  next
    case False
    then have "delta ?e g = []" using ac(3) ide by blast
    then show ?thesis using dl False by simp
  qed
  show ?thesis using run fr cf pc ac(1) E by blast
qed

lemma listen_registers:
  assumes "well_formed h" "c < length (nodes h)" "connect (nodes h ! c) = AddChildHook p x"
    "length (nodes h) \<le> k"
  shows "\<exists>h2. listen (Suc k) h c l = Some h2 \<and> l \<in> set (listeners (nodes h2 ! c)) \<and>
     (if idle (nodes h ! c)
      then c \<in> set (children (nodes h2 ! p)) \<and>
           (\<exists>t. delta h h2 = Connect c # (if idle (nodes h ! p) then Connect p # t else []))
      else h2 = put_node h c ((nodes h ! c)\<lparr>listeners := set_add l (listeners (nodes h ! c))\<rparr>))"
proof (cases "idle (nodes h ! c)")
  case True
  obtain g where run: "run_connect (Suc k) h c = Some g" and cf: "cframe h g" and pc: "p < c"
    and ch: "c \<in> set (children (nodes g ! p))"
    and dl: "\<exists>t. delta h g = Connect c # (if idle (nodes h ! p) then Connect p # t else [])"
    using run_connect_registers[OF assms] by blast
  have nd: "node_at h c = Some (nodes h ! c)" using assms(2) by (simp add: node_at_def)
  define h2 where "h2 = put_node g c ((nodes g ! c)\<lparr>listeners := set_add l (listeners (nodes g ! c))\<rparr>)"
  have L: "listen (Suc k) h c l = Some h2" using nd True run unfolding listen_def h2_def by simp
  have cg: "c < length (nodes g)" using cframeD(2)[OF cf] assms(2) by simp
  have A: "l \<in> set (listeners (nodes h2 ! c))"
    unfolding h2_def using cg by (simp add: nodes_put_node set_add_set)
  have "nodes h2 ! p = nodes g ! p" unfolding h2_def using pc by (simp add: nodes_put_node)
  then have B: "c \<in> set (children (nodes h2 ! p))" using ch by simp
  have "trace h2 = trace g" by (simp add: h2_def other_put_node)
  then have "delta h h2 = delta h g" by (simp add: delta_def)
  then have C: "\<exists>t. delta h h2 = Connect c # (if idle (nodes h ! p) then Connect p # t else [])"
    using dl by simp
  show ?thesis using L A B C True by auto
next
  case False
  have nd: "node_at h c = Some (nodes h ! c)" using assms(2) by (simp add: node_at_def)
  let ?h2 = "put_node h c ((nodes h ! c)\<lparr>listeners := set_add l (listeners (nodes h ! c))\<rparr>)"
  have L: "listen (Suc k) h c l = Some ?h2" using nd False unfolding listen_def by simp
  have A: "l \<in> set (listeners (nodes ?h2 ! c))"
    using assms(2) by (simp add: nodes_put_node set_add_set)
  show ?thesis using L A False by auto
qed

lemma addChild_registers:
  assumes "well_formed h" "c < length (nodes h)" "connect (nodes h ! c) = AddChildHook p x"
    "length (nodes h) \<le> k"
  shows "\<exists>h2. addChild (Suc k) h c d = Some h2 \<and> d \<in> set (children (nodes h2 ! c)) \<and>
     (if idle (nodes h ! c)
      then c \<in> set (children (nodes h2 ! p)) \<and>
           (\<exists>t. delta h h2 = Connect c # (if idle (nodes h ! p) then Connect p # t else []))
      else h2 = put_node h c ((nodes h ! c)\<lparr>children := set_add d (children (nodes h ! c))\<rparr>))"
proof (cases "idle (nodes h ! c)")
  case True
  obtain g where run: "run_connect (Suc k) h c = Some g" and cf: "cframe h g" and pc: "p < c"
    and ch: "c \<in> set (children (nodes g ! p))"
    and dl: "\<exists>t. delta h g = Connect c # (if idle (nodes h ! p) then Connect p # t else [])"
    using run_connect_registers[OF assms] by blast
  have nd: "node_at h c = Some (nodes h ! c)" using assms(2) by (simp add: node_at_def)
  define h2 where "h2 = put_node g c ((nodes g ! c)\<lparr>children := set_add d (children (nodes g ! c))\<rparr>)"
  have L: "addChild (Suc k) h c d = Some h2" using nd True run unfolding h2_def by simp
  have cg: "c < length (nodes g)" using cframeD(2)[OF cf] assms(2) by simp
  have A: "d \<in> set (children (nodes h2 ! c))"
    unfolding h2_def using cg by (simp add: nodes_put_node set_add_set)
  have "nodes h2 ! p = nodes g ! p" unfolding h2_def using pc by (simp add: nodes_put_node)
  then have B: "c \<in> set (children (nodes h2 ! p))" using ch by simp
  have "trace h2 = trace g" by (simp add: h2_def other_put_node)
  then have "delta h h2 = delta h g" by (simp add: delta_def)
  then have C: "\<exists>t. delta h h2 = Connect c # (if idle (nodes h ! p) then Connect p # t else [])"
    using dl by simp
  show ?thesis using L A B C True by auto
next
  case False
  have nd: "node_at h c = Some (nodes h ! c)" using assms(2) by (simp add: node_at_def)
  let ?h2 = "put_node h c ((nodes h ! c)\<lparr>children := set_add d (children (nodes h ! c))\<rparr>)"
  have L: "addChild (Suc k) h c d = Some ?h2" using nd False by simp
  have A: "d \<in> set (children (nodes ?h2 ! c))"
    using assms(2) by (simp add: nodes_put_node set_add_set)
  show ?thesis using L A False by auto
qed

lemma derive_fresh:
  assumes "well_formed h" "derive h n var = Some (h1, c)"
  shows "c = length (nodes h) \<and> take c (nodes h1) = nodes h \<and> trace h1 = trace h \<and>
     well_formed h1 \<and> idle (nodes h1 ! c) \<and> connect (nodes h1 ! c) = AddChildHook n c \<and>
     disconnect (nodes h1 ! c) = RemoveChildHook n c"
proof -
  note e = derive_effect[OF assms]
  have new: "nodes h1 ! c = \<lparr>listeners = [], children = [], connect = AddChildHook n c,
      disconnect = RemoveChildHook n c, sender = sender (nodes h ! n), variant = var\<rparr>"
    unfolding e(3) using e(2) by simp
  have A: "take c (nodes h1) = nodes h" unfolding e(3) using e(2) by simp
  have B: "trace h1 = trace h" unfolding e(3) by simp
  have C: "idle (nodes h1 ! c)" "connect (nodes h1 ! c) = AddChildHook n c"
    "disconnect (nodes h1 ! c) = RemoveChildHook n c"
    using new by (simp_all add: idle_def)
  show ?thesis using e(2,4) A B C by blast
qed


lemma fresh_built:
  "(case filter_ev (fst (singleEvent init ''me'')) 0 (\<lambda>x. 0 < x) of None \<Rightarrow> None
    | Some (a, f) \<Rightarrow> map_ev a f (\<lambda>x. 2 * x)) = Some (fresh, 2)"
  by (simp add: filter_ev_def map_ev_def derive_def singleEvent_def init_def node_at_def Let_def
      fresh_def)

lemma fresh_well_formed: "well_formed fresh"
proof -
  have a: "hooks_ok fresh"
    by (simp add: hooks_ok_def fresh_def lessThan_Suc eval_nat_numeral)
  have b: "links_ok fresh"
    by (simp add: links_ok_def fresh_def lessThan_Suc eval_nat_numeral)
  have c: "listeners_ok fresh"
    by (simp add: listeners_ok_def fresh_def lessThan_Suc eval_nat_numeral)
  show ?thesis using a b c by (simp add: well_formed_def)
qed

text \<open>
  \<^verbatim>\<open>unlisten\<close> of a listener that is registered nowhere from a node down does nothing there,
  when the node and every attached node has a listener or a child.
\<close>

lemma attached_okD:
  "attached_ok h \<Longrightarrow> n < length (nodes h) \<Longrightarrow> c \<in> set (children (nodes h ! n)) \<Longrightarrow>
     \<not> idle (nodes h ! c)"
  unfolding attached_ok_def by blast

lemma put_node_same: "n < length (nodes h) \<Longrightarrow> nd = nodes h ! n \<Longrightarrow> put_node h n nd = h"
  by (simp add: put_node_def)

lemma delete_absent:
  assumes "n < length (nodes h)" "l \<notin> set (listeners (nodes h ! n))"
  shows "put_node h n ((nodes h ! n)\<lparr>listeners := set_delete l (listeners (nodes h ! n))\<rparr>) = h"
proof -
  have "set_delete l (listeners (nodes h ! n)) = listeners (nodes h ! n)"
    using assms(2) by (simp add: set_delete_def)
  then have "(nodes h ! n)\<lparr>listeners := set_delete l (listeners (nodes h ! n))\<rparr> = nodes h ! n"
    by simp
  then show ?thesis using put_node_same[OF assms(1)] by simp
qed

lemma unlisten_absent:
  "unlisten k h x l = Some h' \<Longrightarrow> links_ok h \<Longrightarrow> attached_ok h \<Longrightarrow> x < length (nodes h) \<Longrightarrow>
     \<not> idle (nodes h ! x) \<Longrightarrow>
     (\<forall>z. z < length (nodes h) \<longrightarrow> x \<le> z \<longrightarrow> l \<notin> set (listeners (nodes h ! z))) \<Longrightarrow> h' = h"
  "unlisten_children k h x cs l = Some h' \<Longrightarrow> links_ok h \<Longrightarrow> attached_ok h \<Longrightarrow>
     x < length (nodes h) \<Longrightarrow>
     (\<forall>z. z < length (nodes h) \<longrightarrow> x < z \<longrightarrow> l \<notin> set (listeners (nodes h ! z))) \<Longrightarrow> h' = h"
proof (induct k h x l and k h x cs l arbitrary: h' and h' rule: unlisten_unlisten_children.induct)
  case (1 h n l)
  then show ?case by simp
next
  case (2 k h n l)
  have nd: "node_at h n = Some (nodes h ! n)" using "2.prems"(4) by (simp add: node_at_def)
  define h1 where "h1 = put_node h n ((nodes h ! n)\<lparr>listeners := set_delete l (listeners (nodes h ! n))\<rparr>)"
  have abs: "l \<notin> set (listeners (nodes h ! n))" using "2.prems"(4,6) by simp
  have e: "h1 = h" unfolding h1_def using delete_absent[OF "2.prems"(4) abs] .
  obtain h2 where h2: "unlisten_children k h1 n (children (nodes h1 ! n)) l = Some h2"
    and fin: "(if idle (nodes h2 ! n) then run_disconnect k h2 n else Some h2) = Some h'"
    using "2.prems"(1) nd by (auto simp: h1_def Let_def split: option.splits)
  have below: "\<forall>z. z < length (nodes h1) \<longrightarrow> n < z \<longrightarrow> l \<notin> set (listeners (nodes h1 ! z))"
    using "2.prems"(6) e by simp
  have "h2 = h1"
    using "2.hyps"[OF nd h1_def h2] "2.prems"(2,3,4) below unfolding e by blast
  then have "h2 = h" using e by simp
  then show ?case using fin "2.prems"(5) by simp
next
  case (3 k h n l)
  then show ?case by simp
next
  case (4 k h n c cs l)
  show ?case
  proof (cases "c \<in> set (children (nodes h ! n))")
    case True
    then obtain h1 where h1: "unlisten k h c l = Some h1"
      and r: "unlisten_children k h1 n cs l = Some h'"
      using "4.prems"(1) by (auto split: option.splits)
    note lk = links_okD[OF "4.prems"(2,4) True]
    have ni: "\<not> idle (nodes h ! c)" using attached_okD[OF "4.prems"(3,4) True] .
    have ab: "\<forall>z. z < length (nodes h) \<longrightarrow> c \<le> z \<longrightarrow> l \<notin> set (listeners (nodes h ! z))"
      using "4.prems"(5) lk by simp
    have c: "c < length (nodes h)" using lk by simp
    have e: "h1 = h" using "4.hyps"(1)[OF True h1 "4.prems"(2,3) c ni ab] .
    show ?thesis using "4.hyps"(2)[OF True h1 r] "4.prems"(2,3,4,5) unfolding e by blast
  next
    case False
    then have "unlisten_children k h n cs l = Some h'" using "4.prems"(1) by simp
    then show ?thesis using "4.hyps"(3)[OF False] "4.prems"(2,3,4,5) by blast
  qed
qed


lemma attached_ok_nodes: "nodes h' = nodes h \<Longrightarrow> attached_ok h' = attached_ok h"
  by (simp add: attached_ok_def)

lemma attached_ok_put_listeners:
  assumes "attached_ok h" "n < length (nodes h)" "children (nodes h ! n) \<noteq> []"
  shows "attached_ok (put_node h n ((nodes h ! n)\<lparr>listeners := ls\<rparr>))" (is "attached_ok ?h'")
  unfolding attached_ok_def
proof (intro ballI)
  fix x c assume x: "x \<in> {..<length (nodes ?h')}" and c: "c \<in> set (children (nodes ?h' ! x))"
  have xl: "x < length (nodes h)" using x by (simp add: nodes_put_node)
  have "children (nodes ?h' ! x) = children (nodes h ! x)"
    using xl by (cases "x = n") (simp_all add: nodes_put_node)
  then have c0: "c \<in> set (children (nodes h ! x))" using c by simp
  have ni: "\<not> idle (nodes h ! c)" using attached_okD[OF assms(1) xl c0] .
  show "\<not> idle (nodes ?h' ! c)"
  proof (cases "c = n")
    case True
    then show ?thesis using assms(2,3) by (simp add: nodes_put_node idle_def)
  next
    case False
    then show ?thesis using ni by (simp add: nodes_put_node)
  qed
qed

lemma unlisten_at_parent:
  assumes "unlisten k h n l = Some h'" "links_ok h" "attached_ok h" "n < length (nodes h)"
    "children (nodes h ! n) \<noteq> []"
    "\<forall>z. z < length (nodes h) \<longrightarrow> n < z \<longrightarrow> l \<notin> set (listeners (nodes h ! z))"
  shows "h' = put_node h n ((nodes h ! n)\<lparr>listeners := set_delete l (listeners (nodes h ! n))\<rparr>)"
proof -
  obtain k1 where k: "k = Suc k1" using assms(1) by (cases k) simp_all
  have nd: "node_at h n = Some (nodes h ! n)" using assms(4) by (simp add: node_at_def)
  define h1 where "h1 = put_node h n ((nodes h ! n)\<lparr>listeners := set_delete l (listeners (nodes h ! n))\<rparr>)"
  obtain h2 where h2: "unlisten_children k1 h1 n (children (nodes h1 ! n)) l = Some h2"
    and fin: "(if idle (nodes h2 ! n) then run_disconnect k1 h2 n else Some h2) = Some h'"
    using assms(1) nd unfolding k by (auto simp: h1_def Let_def split: option.splits)
  have lk1: "links_ok h1" unfolding h1_def using links_ok_put_listeners[OF assms(2,4)] .
  have at1: "attached_ok h1" unfolding h1_def using attached_ok_put_listeners[OF assms(3,4,5)] .
  have n1: "n < length (nodes h1)" using assms(4) by (simp add: h1_def nodes_put_node)
  have ab: "\<forall>z. z < length (nodes h1) \<longrightarrow> n < z \<longrightarrow> l \<notin> set (listeners (nodes h1 ! z))"
    using assms(6) by (simp add: h1_def nodes_put_node)
  have e: "h2 = h1" using unlisten_absent(2)[OF h2 lk1 at1 n1 ab] .
  have "children (nodes h1 ! n) = children (nodes h ! n)"
    using assms(4) by (simp add: h1_def nodes_put_node)
  then have "\<not> idle (nodes h2 ! n)" using assms(5) e by (simp add: idle_def)
  then have "h' = h1" using fin e by simp
  then show ?thesis by (simp add: h1_def)
qed

lemma calm_refl: "calm n h h"
  by (simp add: calm_def shrinks_refl delta_refl)

lemma calm_trans:
  assumes "calm n h h1" "calm n h1 h2"
  shows "calm n h h2"
proof -
  have s1: "shrinks h h1" and s2: "shrinks h1 h2" using assms by (simp_all add: calm_def)
  have len: "length (nodes h1) = length (nodes h)" using shrinksD(2)[OF s1] .
  have a: "\<forall>x \<in> {..<length (nodes h)}. x \<noteq> n \<longrightarrow> nodes h2 ! x = nodes h ! x"
    using assms len by (simp add: calm_def)
  have b: "children (nodes h2 ! n) = children (nodes h ! n)" using assms by (simp add: calm_def)
  have "delta h h2 = delta h h1 @ delta h1 h2"
    using delta_trans[OF shrinksD(5)[OF s1] shrinksD(5)[OF s2]] .
  then have c: "list_all is_Call (delta h h2)" using assms by (simp add: calm_def)
  show ?thesis using shrinks_trans[OF s1 s2] a b c by (simp add: calm_def)
qed

lemma calmD:
  assumes "calm n h h'"
  shows "shrinks h h'" "x < length (nodes h) \<Longrightarrow> x \<noteq> n \<Longrightarrow> nodes h' ! x = nodes h ! x"
    "children (nodes h' ! n) = children (nodes h ! n)" "list_all is_Call (delta h h')"
  using assms unfolding calm_def by simp_all

lemma attached_ok_calm:
  assumes "calm n h h'" "attached_ok h" "n < length (nodes h)" "children (nodes h ! n) \<noteq> []"
    "links_ok h"
  shows "attached_ok h'"
  unfolding attached_ok_def
proof (intro ballI)
  have len: "length (nodes h') = length (nodes h)" using shrinksD(2)[OF calmD(1)[OF assms(1)]] .
  have ch: "\<And>x. x < length (nodes h) \<Longrightarrow> children (nodes h' ! x) = children (nodes h ! x)"
  proof -
    fix x assume "x < length (nodes h)"
    then show "children (nodes h' ! x) = children (nodes h ! x)"
      using calmD(2)[OF assms(1), of x] calmD(3)[OF assms(1)] by (cases "x = n") simp_all
  qed
  fix x c assume x: "x \<in> {..<length (nodes h')}" and c: "c \<in> set (children (nodes h' ! x))"
  have xl: "x < length (nodes h)" using x len by simp
  have c0: "c \<in> set (children (nodes h ! x))" using c ch[OF xl] by simp
  have ni: "\<not> idle (nodes h ! c)" using attached_okD[OF assms(2) xl c0] .
  have cl: "c < length (nodes h)" using links_okD[OF assms(5) xl c0] by simp
  show "\<not> idle (nodes h' ! c)"
  proof (cases "c = n")
    case True
    then show ?thesis using assms(4) calmD(3)[OF assms(1)] by (simp add: idle_def)
  next
    case False
    show ?thesis using ni calmD(2)[OF assms(1) cl False] by simp
  qed
qed

lemma call_listener_calm:
  assumes "call_listener k h l v s = Some h'" "well_formed h" "attached_ok h"
    "n < length (nodes h)" "l \<in> set (listeners (nodes h ! n))" "children (nodes h ! n) \<noteq> []"
  shows "calm n h h'"
proof (cases l)
  case (Ext j)
  then have e: "h' = emit (Call l v s) h" using assms(1) by (simp add: call_listener_def)
  have "delta h h' = [Call l v s]" unfolding e by (simp add: delta_def emit_def)
  then show ?thesis unfolding calm_def using shrinks_emit[of h "Call l v s"] e
    by (simp add: nodes_emit)
next
  case (Once m p)
  have lo: "listeners_ok h" and lk: "links_ok h" using assms(2) by (simp_all add: well_formed_def)
  have m: "m = n" using listeners_okD[OF lo assms(4)] assms(5) Once by blast
  define r where "r = resolve (emit (Call l v s) h) p v"
  have nr: "nodes r = nodes h" by (simp add: r_def nodes_resolve nodes_emit)
  have tr: "trace r = trace h @ [Call l v s]" by (simp add: r_def trace_resolve trace_emit)
  have un: "unlisten k r n l = Some h'" using assms(1) Once m by (simp add: call_listener_def r_def)
  have "links_ok r = links_ok h" by (simp add: links_ok_def nr)
  then have lkr: "links_ok r" using lk by simp
  have atr: "attached_ok r" using assms(3) attached_ok_nodes[OF nr] by simp
  have nl: "n < length (nodes r)" using assms(4) nr by simp
  have chr: "children (nodes r ! n) \<noteq> []" using assms(6) nr by simp
  have ab: "\<forall>z. z < length (nodes r) \<longrightarrow> n < z \<longrightarrow> l \<notin> set (listeners (nodes r ! z))"
  proof (intro allI impI)
    fix z assume z: "z < length (nodes r)" and nz: "n < z"
    show "l \<notin> set (listeners (nodes r ! z))"
    proof
      assume "l \<in> set (listeners (nodes r ! z))"
      then have "Once m p \<in> set (listeners (nodes h ! z))" using Once nr by simp
      then have "m = z" using listeners_okD[OF lo] z nr by simp
      then show False using m nz by simp
    qed
  qed
  have e: "h' = put_node r n ((nodes r ! n)\<lparr>listeners := set_delete l (listeners (nodes r ! n))\<rparr>)"
    using unlisten_at_parent[OF un lkr atr nl chr ab] .
  have sh: "shrinks h h'" using call_listener_frame(1)[OF assms(1)] .
  have a: "\<forall>x \<in> {..<length (nodes h)}. x \<noteq> n \<longrightarrow> nodes h' ! x = nodes h ! x"
    unfolding e by (simp add: nodes_put_node nr)
  have b: "children (nodes h' ! n) = children (nodes h ! n)"
    unfolding e using assms(4) by (simp add: nodes_put_node nr)
  have "trace h' = trace h @ [Call l v s]" unfolding e by (simp add: other_put_node tr)
  then have "delta h h' = [Call l v s]" using delta_eq by blast
  then have c: "list_all is_Call (delta h h')" by simp
  show ?thesis using sh a b c by (simp add: calm_def)
qed

lemma notify_loop_calm:
  "notify_loop k h n ls v = Some h' \<Longrightarrow> well_formed h \<Longrightarrow> attached_ok h \<Longrightarrow>
     n < length (nodes h) \<Longrightarrow> children (nodes h ! n) \<noteq> [] \<Longrightarrow> calm n h h'"
proof (induction ls arbitrary: h)
  case Nil
  then show ?case by (simp add: calm_refl)
next
  case (Cons l ls)
  show ?case
  proof (cases "l \<in> set (listeners (nodes h ! n))")
    case True
    then obtain h1 where c1: "call_listener k h l v (sender (nodes h ! n)) = Some h1"
      and r1: "notify_loop k h1 n ls v = Some h'"
      using Cons.prems(1) by (auto split: option.splits)
    have cm: "calm n h h1" using call_listener_calm[OF c1 Cons.prems(2,3,4) True Cons.prems(5)] .
    have sh: "shrinks h h1" using calmD(1)[OF cm] .
    have wf1: "well_formed h1" using shrinks_well_formed[OF Cons.prems(2) sh] .
    have lk: "links_ok h" using Cons.prems(2) by (simp add: well_formed_def)
    have at1: "attached_ok h1" using attached_ok_calm[OF cm Cons.prems(3,4,5) lk] .
    have n1: "n < length (nodes h1)" using shrinksD(2)[OF sh] Cons.prems(4) by simp
    have ch1: "children (nodes h1 ! n) \<noteq> []" using calmD(3)[OF cm] Cons.prems(5) by simp
    show ?thesis using calm_trans[OF cm Cons.IH[OF r1 wf1 at1 n1 ch1]] .
  next
    case False
    then have "notify_loop k h n ls v = Some h'" using Cons.prems(1) by simp
    then show ?thesis using Cons.IH Cons.prems(2,3,4,5) by blast
  qed
qed

text \<open>The tree of hooks.\<close>

lemma tree_okD:
  assumes "tree_ok h" "n < length (nodes h)"
  shows "paired (connect (nodes h ! n)) (disconnect (nodes h ! n))"
    "c \<in> set (children (nodes h ! n)) \<Longrightarrow> connect (nodes h ! c) = AddChildHook n c"
  using assms unfolding tree_ok_def by blast+

lemma tree_ok_child_hook:
  assumes "tree_ok h" "links_ok h" "n < length (nodes h)" "c \<in> set (children (nodes h ! n))"
  shows "disconnect (nodes h ! c) = RemoveChildHook n c"
proof -
  have c: "c < length (nodes h)" using links_okD[OF assms(2,3,4)] by simp
  have "connect (nodes h ! c) = AddChildHook n c" using tree_okD(2)[OF assms(1,3,4)] .
  then show ?thesis using tree_okD(1)[OF assms(1) c] by simp
qed

lemma shrinks_tree_ok:
  assumes "tree_ok h" "shrinks h h'" "links_ok h"
  shows "tree_ok h'"
  unfolding tree_ok_def
proof (intro ballI conjI)
  note st = shrinksD(1)[OF assms(2)]
  have len: "length (nodes h') = length (nodes h)" using shrinksD(2)[OF assms(2)] .
  fix n assume "n \<in> {..<length (nodes h')}"
  then have n: "n < length (nodes h)" using len by simp
  show "paired (connect (nodes h' ! n)) (disconnect (nodes h' ! n))"
    using tree_okD(1)[OF assms(1) n] static_nth(1,2)[OF st n] by simp
  fix c assume "c \<in> set (children (nodes h' ! n))"
  then have c: "c \<in> set (children (nodes h ! n))"
    using shrinks_children_subset[OF assms(2) n] by blast
  have hk: "connect (nodes h ! c) = AddChildHook n c" using tree_okD(2)[OF assms(1) n c] .
  have "c < length (nodes h)" using links_okD[OF assms(3) n c] by simp
  then show "connect (nodes h' ! c) = AddChildHook n c" using static_nth(1)[OF st] hk by simp
qed

text \<open>The relation \<open>below\<close> depends on the hooks only, and goes to larger indices.\<close>

lemma below_static_imp:
  assumes "below ns c x" "map static ns' = map static ns"
  shows "below ns' c x"
  using assms(1)
proof (induction rule: below.induct)
  case below_self
  show ?case by (rule below.below_self)
next
  case (below_step x p y)
  have len: "length ns' = length ns" using static_length[OF assms(2)] .
  have d: "disconnect (ns' ! x) = RemoveChildHook p y"
    using static_nth(2)[OF assms(2) below_step.hyps(1)] below_step.hyps(2) by simp
  show ?case using below.below_step[of x ns' p y c] below_step.hyps(1) len d below_step.IH by simp
qed

lemma below_static:
  assumes "map static ns' = map static ns"
  shows "below ns' c x = below ns c x"
  using below_static_imp[OF _ assms] below_static_imp[OF _ assms[symmetric]] by blast

lemma below_shrinks: "shrinks h h' \<Longrightarrow> below (nodes h') c x = below (nodes h) c x"
  using below_static[OF shrinksD(1)] by blast

lemma apart_shrinks: "shrinks h h' \<Longrightarrow> apart h' c x = apart h c x"
  by (simp add: apart_def below_shrinks shrinksD(2))

lemma below_ge:
  assumes "below (nodes h) c x" "hooks_ok h"
  shows "c \<le> x"
  using assms(1)
proof (induction rule: below.induct)
  case below_self
  show ?case by simp
next
  case (below_step x p y)
  have "p < x" using hooks_ok_disconnect[OF assms(2) below_step.hyps(1,2)] by simp
  then show ?case using below_step.IH by simp
qed

lemma below_up:
  assumes "\<not> below ns c x" "x < length ns" "disconnect (ns ! x) = RemoveChildHook p y"
  shows "\<not> below ns c p"
  using assms below.below_step by blast

lemma below_parent:
  assumes "below ns z c" "z < length ns" "disconnect (ns ! z) = RemoveChildHook x y"
  shows "below ns x c"
  using assms(1)
proof (induction rule: below.induct)
  case below_self
  show ?case using below.below_step[OF assms(2,3) below.below_self] .
next
  case (below_step c' p y')
  show ?case using below.below_step[OF below_step.hyps(1,2) below_step.IH] .
qed

lemma below_cases:
  assumes "below ns c z"
  shows "z = c \<or> (\<exists>p y. z < length ns \<and> disconnect (ns ! z) = RemoveChildHook p y \<and> below ns c p)"
  using assms by (cases rule: below.cases) auto

lemma below_child:
  assumes "tree_ok h" "links_ok h" "x < length (nodes h)" "z \<in> set (children (nodes h ! x))"
    "below (nodes h) c z"
  shows "z = c \<or> below (nodes h) c x"
proof -
  have d: "disconnect (nodes h ! z) = RemoveChildHook x z"
    using tree_ok_child_hook[OF assms(1,2,3,4)] .
  show ?thesis using below_cases[OF assms(5)] d by auto
qed

lemma apart_child:
  assumes "tree_ok h" "links_ok h" "apart h c x" "z \<in> set (children (nodes h ! x))"
  shows "apart h c z"
proof -
  have x: "x < length (nodes h)" and a: "\<not> below (nodes h) x c" and b: "\<not> below (nodes h) c x"
    using assms(3) by (simp_all add: apart_def)
  have z: "z < length (nodes h)" using links_okD[OF assms(2) x assms(4)] by simp
  have d: "disconnect (nodes h ! z) = RemoveChildHook x z"
    using tree_ok_child_hook[OF assms(1,2) x assms(4)] .
  have 1: "\<not> below (nodes h) z c" using below_parent[OF _ z d] a by blast
  have zc: "z \<noteq> c" using 1 below.below_self by blast
  have 2: "\<not> below (nodes h) c z" using below_child[OF assms(1,2) x assms(4)] zc b by blast
  show ?thesis using z 1 2 by (simp add: apart_def)
qed

lemma sibling_apart:
  assumes "tree_ok h" "well_formed h" "n < length (nodes h)" "c \<in> set (children (nodes h ! n))"
    "s \<in> set (children (nodes h ! n))" "s \<noteq> c"
  shows "apart h c s"
proof -
  have lk: "links_ok h" and hk: "hooks_ok h" using assms(2) by (simp_all add: well_formed_def)
  note lc = links_okD[OF lk assms(3,4)]
  note ls = links_okD[OF lk assms(3,5)]
  have dc: "disconnect (nodes h ! c) = RemoveChildHook n c"
    using tree_ok_child_hook[OF assms(1) lk assms(3,4)] .
  have ds: "disconnect (nodes h ! s) = RemoveChildHook n s"
    using tree_ok_child_hook[OF assms(1) lk assms(3,5)] .
  have 1: "\<not> below (nodes h) s c"
  proof
    assume "below (nodes h) s c"
    then have "below (nodes h) s n" using below_cases[of "nodes h" s c] dc assms(6) by auto
    then have "s \<le> n" using below_ge[OF _ hk] by blast
    then show False using ls by simp
  qed
  have 2: "\<not> below (nodes h) c s"
  proof
    assume "below (nodes h) c s"
    then have "below (nodes h) c n" using below_cases[of "nodes h" c s] ds assms(6) by auto
    then have "c \<le> n" using below_ge[OF _ hk] by blast
    then show False using lc by simp
  qed
  show ?thesis using ls 1 2 by (simp add: apart_def)
qed

text \<open>What happens apart from a node leaves the node and everything below it alone.\<close>

lemma quiet_refl: "quiet c h h"
  by (simp add: quiet_def shrinks_refl delta_refl)

lemma quietD:
  assumes "quiet c h h'"
  shows "shrinks h h'"
    "x < length (nodes h) \<Longrightarrow> below (nodes h) c x \<Longrightarrow> nodes h' ! x = nodes h ! x"
    "x < length (nodes h) \<Longrightarrow> c \<in> set (children (nodes h ! x)) \<Longrightarrow>
       c \<in> set (children (nodes h' ! x))"
    "filter (tests_of c) (delta h h') = []"
  using assms unfolding quiet_def by simp_all

lemma quietI:
  assumes "shrinks h h'"
    "\<And>x. x < length (nodes h) \<Longrightarrow> below (nodes h) c x \<Longrightarrow> nodes h' ! x = nodes h ! x"
    "\<And>x. x < length (nodes h) \<Longrightarrow> c \<in> set (children (nodes h ! x)) \<Longrightarrow>
       c \<in> set (children (nodes h' ! x))"
    "filter (tests_of c) (delta h h') = []"
  shows "quiet c h h'"
  using assms unfolding quiet_def by simp

lemma quiet_trans:
  assumes "quiet c h h1" "quiet c h1 h2"
  shows "quiet c h h2"
proof (rule quietI)
  note s1 = quietD(1)[OF assms(1)]
  note s2 = quietD(1)[OF assms(2)]
  have len: "length (nodes h1) = length (nodes h)" using shrinksD(2)[OF s1] .
  show "shrinks h h2" using shrinks_trans[OF s1 s2] .
  show "\<And>x. x < length (nodes h) \<Longrightarrow> below (nodes h) c x \<Longrightarrow> nodes h2 ! x = nodes h ! x"
  proof -
    fix x assume x: "x < length (nodes h)" and b: "below (nodes h) c x"
    have b1: "below (nodes h1) c x" using b below_shrinks[OF s1] by simp
    have x1: "x < length (nodes h1)" using x len by simp
    show "nodes h2 ! x = nodes h ! x"
      using quietD(2)[OF assms(1) x b] quietD(2)[OF assms(2) x1 b1] by simp
  qed
  show "\<And>x. x < length (nodes h) \<Longrightarrow> c \<in> set (children (nodes h ! x)) \<Longrightarrow>
       c \<in> set (children (nodes h2 ! x))"
  proof -
    fix x assume x: "x < length (nodes h)" and b: "c \<in> set (children (nodes h ! x))"
    have x1: "x < length (nodes h1)" using x len by simp
    show "c \<in> set (children (nodes h2 ! x))"
      using quietD(3)[OF assms(2) x1 quietD(3)[OF assms(1) x b]] .
  qed
  have "delta h h2 = delta h h1 @ delta h1 h2"
    using delta_trans[OF shrinksD(5)[OF s1] shrinksD(5)[OF s2]] .
  then show "filter (tests_of c) (delta h h2) = []"
    using quietD(4)[OF assms(1)] quietD(4)[OF assms(2)] by simp
qed

lemma quiet_emit:
  assumes "\<not> tests_of c e"
  shows "quiet c h (emit e h)"
proof (rule quietI)
  show "shrinks h (emit e h)" by (rule shrinks_emit)
  show "\<And>x. x < length (nodes h) \<Longrightarrow> below (nodes h) c x \<Longrightarrow> nodes (emit e h) ! x = nodes h ! x"
    by (simp add: nodes_emit)
  show "\<And>x. x < length (nodes h) \<Longrightarrow> c \<in> set (children (nodes h ! x)) \<Longrightarrow>
       c \<in> set (children (nodes (emit e h) ! x))"
    by (simp add: nodes_emit)
  have "delta h (emit e h) = [e]" by (simp add: delta_def emit_def)
  then show "filter (tests_of c) (delta h (emit e h)) = []" using assms by simp
qed

lemma quiet_same_nodes:
  assumes "shrinks h h'" "nodes h' = nodes h" "filter (tests_of c) (delta h h') = []"
  shows "quiet c h h'"
  using assms by (simp add: quiet_def)

lemma quiet_del_child:
  assumes "p < length (nodes h)" "\<not> below (nodes h) c p" "y \<noteq> c"
  shows "quiet c h (put_node h p ((nodes h ! p)\<lparr>children := set_delete y (children (nodes h ! p))\<rparr>))"
    (is "quiet c h ?h'")
proof (rule quietI)
  have "dframe h ?h'" using dframe_del_child[OF assms(1)] .
  then show "shrinks h ?h'" by (simp add: dframe_def)
  show "\<And>x. x < length (nodes h) \<Longrightarrow> below (nodes h) c x \<Longrightarrow> nodes ?h' ! x = nodes h ! x"
  proof -
    fix x assume "x < length (nodes h)" and b: "below (nodes h) c x"
    have "x \<noteq> p" using b assms(2) by blast
    then show "nodes ?h' ! x = nodes h ! x" by (simp add: nodes_put_node)
  qed
  show "\<And>x. x < length (nodes h) \<Longrightarrow> c \<in> set (children (nodes h ! x)) \<Longrightarrow>
       c \<in> set (children (nodes ?h' ! x))"
  proof -
    fix x assume x: "x < length (nodes h)" and b: "c \<in> set (children (nodes h ! x))"
    show "c \<in> set (children (nodes ?h' ! x))"
      using x b assms(3) by (cases "x = p") (simp_all add: nodes_put_node set_delete_def)
  qed
  have "trace ?h' = trace h" by (simp add: other_put_node)
  then show "filter (tests_of c) (delta h ?h') = []" by (simp add: delta_def)
qed

lemma quiet_del_listener:
  assumes "x < length (nodes h)" "\<not> below (nodes h) c x"
  shows "quiet c h (put_node h x ((nodes h ! x)\<lparr>listeners := set_delete l (listeners (nodes h ! x))\<rparr>))"
    (is "quiet c h ?h'")
proof (rule quietI)
  have "uframe l h ?h'" using uframe_del_listener[OF assms(1)] .
  then show "shrinks h ?h'" by (simp add: uframe_def)
  show "\<And>z. z < length (nodes h) \<Longrightarrow> below (nodes h) c z \<Longrightarrow> nodes ?h' ! z = nodes h ! z"
  proof -
    fix z assume "z < length (nodes h)" and b: "below (nodes h) c z"
    have "z \<noteq> x" using b assms(2) by blast
    then show "nodes ?h' ! z = nodes h ! z" by (simp add: nodes_put_node)
  qed
  show "\<And>z. z < length (nodes h) \<Longrightarrow> c \<in> set (children (nodes h ! z)) \<Longrightarrow>
       c \<in> set (children (nodes ?h' ! z))"
  proof -
    fix z assume z: "z < length (nodes h)" and b: "c \<in> set (children (nodes h ! z))"
    show "c \<in> set (children (nodes ?h' ! z))"
      using z b by (cases "z = x") (simp_all add: nodes_put_node)
  qed
  have "trace ?h' = trace h" by (simp add: other_put_node)
  then show "filter (tests_of c) (delta h ?h') = []" by (simp add: delta_def)
qed

lemma disconnect_quiet:
  "run_disconnect k h y = Some h' \<Longrightarrow> hooks_ok h \<Longrightarrow> y < length (nodes h) \<Longrightarrow>
     \<not> below (nodes h) c y \<Longrightarrow> quiet c h h'"
  "removeChild k h p y = Some h' \<Longrightarrow> hooks_ok h \<Longrightarrow> p < length (nodes h) \<Longrightarrow>
     \<not> below (nodes h) c p \<Longrightarrow> y \<noteq> c \<Longrightarrow> quiet c h h'"
proof (induct k h y and k h p y arbitrary: h' and h' rule: run_disconnect_removeChild.induct)
  case (1 h n)
  then show ?case by simp
next
  case (2 k h n)
  have nd: "node_at h n = Some (nodes h ! n)" using "2.prems"(3) by (simp add: node_at_def)
  let ?e = "emit (Disconnect n) h"
  have qe: "quiet c h ?e" by (rule quiet_emit) simp
  show ?case
  proof (cases "disconnect (nodes h ! n)")
    case OnDisconnect
    then have "h' = ?e" using "2.prems"(1) nd by simp
    then show ?thesis using qe by simp
  next
    case (RemoveChildHook p y)
    note ok = hooks_ok_disconnect[OF "2.prems"(2,3) RemoveChildHook]
    have run: "removeChild k ?e p y = Some h'" using "2.prems"(1) nd RemoveChildHook by simp
    have hke: "hooks_ok ?e" using shrinks_hooks_ok[OF "2.prems"(2) shrinks_emit] .
    have pe: "p < length (nodes ?e)" using ok "2.prems"(3) by (simp add: nodes_emit)
    have nb: "\<not> below (nodes ?e) c p"
      using below_up[OF "2.prems"(4,3) RemoveChildHook] by (simp add: nodes_emit)
    have yc: "y \<noteq> c" using ok "2.prems"(4) below.below_self by blast
    have "quiet c ?e h'" using "2.hyps"[OF nd RemoveChildHook run hke pe nb yc] .
    then show ?thesis using quiet_trans[OF qe] by blast
  qed
next
  case (3 k h p y)
  have nd: "node_at h p = Some (nodes h ! p)" using "3.prems"(3) by (simp add: node_at_def)
  define h1 where "h1 = put_node h p ((nodes h ! p)\<lparr>children := set_delete y (children (nodes h ! p))\<rparr>)"
  have q1: "quiet c h h1" unfolding h1_def using quiet_del_child[OF "3.prems"(3,4,5)] .
  show ?case
  proof (cases "idle (nodes h1 ! p)")
    case True
    then have run: "run_disconnect k h1 p = Some h'"
      using "3.prems"(1) nd by (simp add: h1_def Let_def)
    note sh = quietD(1)[OF q1]
    have hk1: "hooks_ok h1" using shrinks_hooks_ok[OF "3.prems"(2) sh] .
    have p1: "p < length (nodes h1)" using shrinksD(2)[OF sh] "3.prems"(3) by simp
    have nb: "\<not> below (nodes h1) c p" using below_shrinks[OF sh] "3.prems"(4) by simp
    have "quiet c h1 h'" using "3.hyps"[OF nd h1_def True run hk1 p1 nb] .
    then show ?thesis using quiet_trans[OF q1] by blast
  next
    case False
    then have "h' = h1" using "3.prems"(1) nd by (simp add: h1_def Let_def)
    then show ?thesis using q1 by simp
  qed
qed

lemma shrinks_tree:
  assumes "well_formed h" "tree_ok h" "shrinks h h'"
  shows "well_formed h'" "tree_ok h'"
proof -
  show "well_formed h'" using shrinks_well_formed[OF assms(1,3)] .
  have "links_ok h" using assms(1) by (simp add: well_formed_def)
  then show "tree_ok h'" using shrinks_tree_ok[OF assms(2,3)] by blast
qed

lemma apartD:
  assumes "apart h c x"
  shows "x < length (nodes h)" "\<not> below (nodes h) x c" "\<not> below (nodes h) c x" "x \<noteq> c"
  using assms below.below_self unfolding apart_def by blast+

lemma apart_children_shrinks:
  assumes "\<forall>z \<in> set cs. z \<in> set (children (nodes h ! x)) \<longrightarrow> apart h c z" "shrinks h h'"
    "x < length (nodes h)"
  shows "\<forall>z \<in> set cs. z \<in> set (children (nodes h' ! x)) \<longrightarrow> apart h' c z"
proof (intro ballI impI)
  fix z assume z: "z \<in> set cs" and m: "z \<in> set (children (nodes h' ! x))"
  have "z \<in> set (children (nodes h ! x))" using shrinks_children_subset[OF assms(2,3) m] .
  then have "apart h c z" using assms(1) z by blast
  then show "apart h' c z" using apart_shrinks[OF assms(2)] by blast
qed

lemma unlisten_quiet:
  "unlisten k h x l = Some h' \<Longrightarrow> well_formed h \<Longrightarrow> tree_ok h \<Longrightarrow> apart h c x \<Longrightarrow> quiet c h h'"
  "unlisten_children k h x cs l = Some h' \<Longrightarrow> well_formed h \<Longrightarrow> tree_ok h \<Longrightarrow>
     x < length (nodes h) \<Longrightarrow>
     (\<forall>z \<in> set cs. z \<in> set (children (nodes h ! x)) \<longrightarrow> apart h c z) \<Longrightarrow> quiet c h h'"
proof (induct k h x l and k h x cs l arbitrary: h' and h' rule: unlisten_unlisten_children.induct)
  case (1 h n l)
  then show ?case by simp
next
  case (2 k h n l)
  note ap = apartD[OF "2.prems"(4)]
  have nd: "node_at h n = Some (nodes h ! n)" using ap(1) by (simp add: node_at_def)
  define h1 where "h1 = put_node h n ((nodes h ! n)\<lparr>listeners := set_delete l (listeners (nodes h ! n))\<rparr>)"
  obtain h2 where h2: "unlisten_children k h1 n (children (nodes h1 ! n)) l = Some h2"
    and fin: "(if idle (nodes h2 ! n) then run_disconnect k h2 n else Some h2) = Some h'"
    using "2.prems"(1) nd by (auto simp: h1_def Let_def split: option.splits)
  have q1: "quiet c h h1" unfolding h1_def using quiet_del_listener[OF ap(1,3)] .
  note s1 = quietD(1)[OF q1]
  note w1 = shrinks_tree[OF "2.prems"(2,3) s1]
  have lk1: "links_ok h1" using w1(1) by (simp add: well_formed_def)
  have ap1: "apart h1 c n" using apart_shrinks[OF s1] "2.prems"(4) by blast
  have n1: "n < length (nodes h1)" using apartD(1)[OF ap1] .
  have ch: "\<forall>z \<in> set (children (nodes h1 ! n)). z \<in> set (children (nodes h1 ! n)) \<longrightarrow> apart h1 c z"
    using apart_child[OF w1(2) lk1 ap1] by blast
  have q2: "quiet c h1 h2" using "2.hyps"[OF nd h1_def h2 w1 n1 ch] .
  note s2 = quietD(1)[OF q2]
  have q3: "quiet c h2 h'"
  proof (cases "idle (nodes h2 ! n)")
    case True
    then have run: "run_disconnect k h2 n = Some h'" using fin by simp
    have hk2: "hooks_ok h2" using shrinks_well_formed[OF w1(1) s2] by (simp add: well_formed_def)
    have ap2: "apart h2 c n" using apart_shrinks[OF s2] ap1 by blast
    show ?thesis using disconnect_quiet(1)[OF run hk2 apartD(1)[OF ap2] apartD(3)[OF ap2]] .
  next
    case False
    then show ?thesis using fin by (simp add: quiet_refl)
  qed
  show ?case using quiet_trans[OF q1 quiet_trans[OF q2 q3]] .
next
  case (3 k h n l)
  then show ?case by (simp add: quiet_refl)
next
  case (4 k h n z cs l)
  show ?case
  proof (cases "z \<in> set (children (nodes h ! n))")
    case True
    then obtain h1 where h1: "unlisten k h z l = Some h1"
      and r: "unlisten_children k h1 n cs l = Some h'"
      using "4.prems"(1) by (auto split: option.splits)
    have az: "apart h c z" using "4.prems"(5) True by simp
    have q1: "quiet c h h1" using "4.hyps"(1)[OF True h1 "4.prems"(2,3) az] .
    note s1 = quietD(1)[OF q1]
    note w1 = shrinks_tree[OF "4.prems"(2,3) s1]
    have n1: "n < length (nodes h1)" using shrinksD(2)[OF s1] "4.prems"(4) by simp
    have rest: "\<forall>z \<in> set cs. z \<in> set (children (nodes h ! n)) \<longrightarrow> apart h c z"
      using "4.prems"(5) by simp
    have ch: "\<forall>z \<in> set cs. z \<in> set (children (nodes h1 ! n)) \<longrightarrow> apart h1 c z"
      using apart_children_shrinks[OF rest s1 "4.prems"(4)] .
    have q2: "quiet c h1 h'" using "4.hyps"(2)[OF True h1 r w1 n1 ch] .
    show ?thesis using quiet_trans[OF q1 q2] .
  next
    case False
    then have r: "unlisten_children k h n cs l = Some h'" using "4.prems"(1) by simp
    have rest: "\<forall>z \<in> set cs. z \<in> set (children (nodes h ! n)) \<longrightarrow> apart h c z"
      using "4.prems"(5) by simp
    show ?thesis using "4.hyps"(3)[OF False r "4.prems"(2,3,4) rest] .
  qed
qed

lemma call_listener_quiet:
  assumes "call_listener k h l v s = Some h'" "well_formed h" "tree_ok h" "apart h c x"
    "l \<in> set (listeners (nodes h ! x))"
  shows "quiet c h h'"
proof (cases l)
  case (Ext j)
  then have e: "h' = emit (Call l v s) h" using assms(1) by (simp add: call_listener_def)
  show ?thesis unfolding e by (rule quiet_emit) simp
next
  case (Once m p)
  have lo: "listeners_ok h" using assms(2) by (simp add: well_formed_def)
  have m: "m = x" using listeners_okD[OF lo apartD(1)[OF assms(4)]] assms(5) Once by blast
  define r where "r = resolve (emit (Call l v s) h) p v"
  have nr: "nodes r = nodes h" by (simp add: r_def nodes_resolve nodes_emit)
  have tr: "trace r = trace h @ [Call l v s]" by (simp add: r_def trace_resolve trace_emit)
  have sr: "shrinks h r" unfolding r_def using shrinks_trans[OF shrinks_emit shrinks_resolve] .
  have "delta h r = [Call l v s]" using delta_eq[OF tr] .
  then have "filter (tests_of c) (delta h r) = []" by simp
  then have q1: "quiet c h r" using quiet_same_nodes[OF sr nr] by blast
  have un: "unlisten k r x l = Some h'" using assms(1) Once m by (simp add: call_listener_def r_def)
  note w1 = shrinks_tree[OF assms(2,3) sr]
  have ap: "apart r c x" using apart_shrinks[OF sr] assms(4) by blast
  show ?thesis using quiet_trans[OF q1 unlisten_quiet(1)[OF un w1 ap]] .
qed

lemma notify_loop_quiet:
  "notify_loop k h x ls v = Some h' \<Longrightarrow> well_formed h \<Longrightarrow> tree_ok h \<Longrightarrow> apart h c x \<Longrightarrow>
     quiet c h h'"
proof (induction ls arbitrary: h)
  case Nil
  then show ?case by (simp add: quiet_refl)
next
  case (Cons l ls)
  show ?case
  proof (cases "l \<in> set (listeners (nodes h ! x))")
    case True
    then obtain h1 where c1: "call_listener k h l v (sender (nodes h ! x)) = Some h1"
      and r1: "notify_loop k h1 x ls v = Some h'"
      using Cons.prems(1) by (auto split: option.splits)
    have q1: "quiet c h h1" using call_listener_quiet[OF c1 Cons.prems(2,3,4) True] .
    note s1 = quietD(1)[OF q1]
    note w1 = shrinks_tree[OF Cons.prems(2,3) s1]
    have ap: "apart h1 c x" using apart_shrinks[OF s1] Cons.prems(4) by blast
    show ?thesis using quiet_trans[OF q1 Cons.IH[OF r1 w1 ap]] .
  next
    case False
    then have "notify_loop k h x ls v = Some h'" using Cons.prems(1) by simp
    then show ?thesis using Cons.IH Cons.prems(2,3,4) by blast
  qed
qed

lemma trigger_quiet:
  "trigger k h x v = Some h' \<Longrightarrow> well_formed h \<Longrightarrow> tree_ok h \<Longrightarrow> apart h c x \<Longrightarrow> quiet c h h'"
  "notifyListeners k h x v = Some h' \<Longrightarrow> well_formed h \<Longrightarrow> tree_ok h \<Longrightarrow> apart h c x \<Longrightarrow>
     quiet c h h'"
  "trigger_children k h x cs v = Some h' \<Longrightarrow> well_formed h \<Longrightarrow> tree_ok h \<Longrightarrow>
     x < length (nodes h) \<Longrightarrow>
     (\<forall>z \<in> set cs. z \<in> set (children (nodes h ! x)) \<longrightarrow> apart h c z) \<Longrightarrow> quiet c h h'"
proof (induct k h x v and k h x v and k h x cs v arbitrary: h' and h' and h'
    rule: trigger_notifyListeners_trigger_children.induct)
  case (1 h n v)
  then show ?case by simp
next
  case (2 k h n v)
  note ap = apartD[OF "2.prems"(4)]
  have nd: "node_at h n = Some (nodes h ! n)" using ap(1) by (simp add: node_at_def)
  show ?case
  proof (cases "variant (nodes h ! n)")
    case SingleEventSource
    then have "notifyListeners k h n v = Some h'" using "2.prems"(1) nd by simp
    then show ?thesis using "2.hyps"(1)[OF nd SingleEventSource] "2.prems"(2,3,4) by blast
  next
    case (FilterEvent pred)
    let ?e = "emit (Test n v) h"
    have qe: "quiet c h ?e" by (rule quiet_emit) (simp add: ap(4))
    show ?thesis
    proof (cases "pred v")
      case True
      then have run: "notifyListeners k ?e n v = Some h'"
        using "2.prems"(1) nd FilterEvent by simp
      note se = quietD(1)[OF qe]
      note w1 = shrinks_tree[OF "2.prems"(2,3) se]
      have ape: "apart ?e c n" using apart_shrinks[OF se] "2.prems"(4) by blast
      have "quiet c ?e h'" using "2.hyps"(2)[OF nd FilterEvent True run w1 ape] .
      then show ?thesis using quiet_trans[OF qe] by blast
    next
      case False
      then have "h' = ?e" using "2.prems"(1) nd FilterEvent by simp
      then show ?thesis using qe by simp
    qed
  next
    case (MapEvent f)
    then have "notifyListeners k h n (f v) = Some h'" using "2.prems"(1) nd by simp
    then show ?thesis using "2.hyps"(3)[OF nd MapEvent] "2.prems"(2,3,4) by blast
  qed
next
  case (3 k h n v)
  note ap = apartD[OF "3.prems"(4)]
  have nd: "node_at h n = Some (nodes h ! n)" using ap(1) by (simp add: node_at_def)
  obtain h1 where l1: "notify_loop k h n (listeners (nodes h ! n)) v = Some h1"
    and c1: "trigger_children k h1 n (children (nodes h1 ! n)) v = Some h'"
    using "3.prems"(1) nd by (auto split: option.splits)
  have q1: "quiet c h h1" using notify_loop_quiet[OF l1 "3.prems"(2,3,4)] .
  note s1 = quietD(1)[OF q1]
  note w1 = shrinks_tree[OF "3.prems"(2,3) s1]
  have lk1: "links_ok h1" using w1(1) by (simp add: well_formed_def)
  have ap1: "apart h1 c n" using apart_shrinks[OF s1] "3.prems"(4) by blast
  have ch: "\<forall>z \<in> set (children (nodes h1 ! n)). z \<in> set (children (nodes h1 ! n)) \<longrightarrow> apart h1 c z"
    using apart_child[OF w1(2) lk1 ap1] by blast
  have q2: "quiet c h1 h'" using "3.hyps"[OF nd l1 c1 w1 apartD(1)[OF ap1] ch] .
  show ?case using quiet_trans[OF q1 q2] .
next
  case (4 k h n v)
  then show ?case by (simp add: quiet_refl)
next
  case (5 k h n z cs v)
  show ?case
  proof (cases "z \<in> set (children (nodes h ! n))")
    case True
    then obtain h1 where t1: "trigger k h z v = Some h1"
      and r: "trigger_children k h1 n cs v = Some h'"
      using "5.prems"(1) by (auto split: option.splits)
    have az: "apart h c z" using "5.prems"(5) True by simp
    have q1: "quiet c h h1" using "5.hyps"(1)[OF True t1 "5.prems"(2,3) az] .
    note s1 = quietD(1)[OF q1]
    note w1 = shrinks_tree[OF "5.prems"(2,3) s1]
    have n1: "n < length (nodes h1)" using shrinksD(2)[OF s1] "5.prems"(4) by simp
    have rest: "\<forall>z \<in> set cs. z \<in> set (children (nodes h ! n)) \<longrightarrow> apart h c z"
      using "5.prems"(5) by simp
    have ch: "\<forall>z \<in> set cs. z \<in> set (children (nodes h1 ! n)) \<longrightarrow> apart h1 c z"
      using apart_children_shrinks[OF rest s1 "5.prems"(4)] .
    have q2: "quiet c h1 h'" using "5.hyps"(2)[OF True t1 r w1 n1 ch] .
    show ?thesis using quiet_trans[OF q1 q2] .
  next
    case False
    then have r: "trigger_children k h n cs v = Some h'" using "5.prems"(1) by simp
    have rest: "\<forall>z \<in> set cs. z \<in> set (children (nodes h ! n)) \<longrightarrow> apart h c z"
      using "5.prems"(5) by simp
    show ?thesis using "5.hyps"(3)[OF False r "5.prems"(2,3,4) rest] .
  qed
qed

text \<open>The second loop of a firing reaches an attached child, and tests it nowhere else.\<close>

lemma children_reach:
  "trigger_children k g n cs v = Some h' \<Longrightarrow> well_formed g \<Longrightarrow> tree_ok g \<Longrightarrow>
   n < length (nodes g) \<Longrightarrow> c \<in> set cs \<Longrightarrow> distinct cs \<Longrightarrow> c \<in> set (children (nodes g ! n)) \<Longrightarrow>
     \<exists>g1 g2. quiet c g g1 \<and> trigger k g1 c v = Some g2 \<and> quiet c g2 h'"
proof (induction cs arbitrary: g)
  case Nil
  then show ?case by simp
next
  case (Cons s cs)
  show ?case
  proof (cases "s = c")
    case True
    obtain g2 where t: "trigger k g c v = Some g2" and r: "trigger_children k g2 n cs v = Some h'"
      using Cons.prems(1,7) True by (auto split: option.splits)
    have s2: "shrinks g g2" using trigger_shrinks(1)[OF t] .
    note w2 = shrinks_tree[OF Cons.prems(2,3) s2]
    have n2: "n < length (nodes g2)" using shrinksD(2)[OF s2] Cons.prems(4) by simp
    have ch: "\<forall>z \<in> set cs. z \<in> set (children (nodes g2 ! n)) \<longrightarrow> apart g2 c z"
    proof (intro ballI impI)
      fix z assume z: "z \<in> set cs" and m: "z \<in> set (children (nodes g2 ! n))"
      have zc: "z \<noteq> c" using z Cons.prems(6) True by auto
      have m0: "z \<in> set (children (nodes g ! n))"
        using shrinks_children_subset[OF s2 Cons.prems(4) m] .
      have "apart g c z" using sibling_apart[OF Cons.prems(3,2,4,7) m0 zc] .
      then show "apart g2 c z" using apart_shrinks[OF s2] by blast
    qed
    have q: "quiet c g2 h'" using trigger_quiet(3)[OF r w2 n2 ch] .
    show ?thesis using quiet_refl t q by blast
  next
    case False
    then have cin: "c \<in> set cs" using Cons.prems(5) by simp
    have dc: "distinct cs" using Cons.prems(6) by simp
    show ?thesis
    proof (cases "s \<in> set (children (nodes g ! n))")
      case True
      then obtain ga where t: "trigger k g s v = Some ga"
        and r: "trigger_children k ga n cs v = Some h'"
        using Cons.prems(1) by (auto split: option.splits)
      have ap: "apart g c s" using sibling_apart[OF Cons.prems(3,2,4,7) True False] .
      have q1: "quiet c g ga" using trigger_quiet(1)[OF t Cons.prems(2,3) ap] .
      note s1 = quietD(1)[OF q1]
      note w1 = shrinks_tree[OF Cons.prems(2,3) s1]
      have n1: "n < length (nodes ga)" using shrinksD(2)[OF s1] Cons.prems(4) by simp
      have c1: "c \<in> set (children (nodes ga ! n))" using quietD(3)[OF q1 Cons.prems(4,7)] .
      obtain g1 g2 where a: "quiet c ga g1" and b: "trigger k g1 c v = Some g2"
        and d: "quiet c g2 h'"
        using Cons.IH[OF r w1 n1 cin dc c1] by blast
      show ?thesis using quiet_trans[OF q1 a] b d by blast
    next
      case False
      then have r: "trigger_children k g n cs v = Some h'" using Cons.prems(1) by simp
      show ?thesis using Cons.IH[OF r Cons.prems(2,3,4) cin dc Cons.prems(7)] .
    qed
  qed
qed

text \<open>\<^verbatim>\<open>_trigger\<close> of a filter node.\<close>

lemma trigger_filter:
  assumes "well_formed h" "c < length (nodes h)"
    "variant (nodes h ! c) = FilterEvent pred" "enough h k"
  shows "\<exists>h'. trigger (Suc k) h c v = Some h' \<and>
     filter (tests_of c) (delta h h') = [Test c v] \<and>
     (if pred v
      then notifyListeners k (emit (Test c v) h) c v = Some h' \<and>
           (\<exists>t. filter is_Call (delta h h') =
              map (\<lambda>l. Call l v (sender (nodes h ! c))) (listeners (nodes h ! c)) @ t)
      else h' = emit (Test c v) h \<and> filter is_Call (delta h h') = [])"
proof -
  let ?e = "emit (Test c v) h"
  let ?s = "sender (nodes h ! c)"
  have nd: "node_at h c = Some (nodes h ! c)" using assms(2) by (simp add: node_at_def)
  have se: "shrinks h ?e" by (rule shrinks_emit)
  have de: "delta h ?e = [Test c v]" by (simp add: delta_def emit_def)
  show ?thesis
  proof (cases "pred v")
    case True
    have wfe: "well_formed ?e" using shrinks_well_formed[OF assms(1) se] .
    have ce: "c < length (nodes ?e)" using assms(2) by (simp add: nodes_emit)
    have fe: "3 * length (nodes ?e) + 1 \<le> k + c"
      using enough_notify[OF assms(4)] by (simp add: nodes_emit)
    obtain h' where run: "notifyListeners k ?e c v = Some h'"
      using trigger_total(2)[OF wfe ce fe] by blast
    have T: "trigger (Suc k) h c v = Some h'" using nd assms(3) True run by simp
    note b = trigger_events(2)[OF wfe ce run]
    have sh: "shrinks ?e h'" using b by blast
    have ev: "list_all (ev_ok ?e (sender (nodes ?e ! c)) (Suc c)) (delta ?e h')" using b by blast
    have dl: "delta h h' = Test c v # delta ?e h'"
      using delta_trans[OF shrinksD(5)[OF se] shrinksD(5)[OF sh]] de by simp
    have A: "filter (tests_of c) (delta h h') = [Test c v]"
      using dl no_tests_above[OF ev] by simp
    have nde: "node_at ?e c = Some (nodes ?e ! c)" using ce by (simp add: node_at_def)
    obtain h1 where l1: "notify_loop k ?e c (listeners (nodes ?e ! c)) v = Some h1"
      and c1: "trigger_children k h1 c (children (nodes h1 ! c)) v = Some h'"
      using run nde by (auto split: option.splits)
    have lo: "listeners_ok ?e" using wfe by (simp add: well_formed_def)
    have dls: "distinct (listeners (nodes ?e ! c))" using listeners_ok_distinct[OF lo ce] .
    note a = notify_loop_all[OF l1 ce dls subset_refl]
    have sh1: "shrinks ?e h1" using a by blast
    have calls: "filter is_Call (delta ?e h1) =
        map (\<lambda>l. Call l v (sender (nodes ?e ! c))) (listeners (nodes ?e ! c))"
      using a by blast
    have sh2: "shrinks h1 h'" using trigger_shrinks(3)[OF c1] .
    have "delta ?e h' = delta ?e h1 @ delta h1 h'"
      using delta_trans[OF shrinksD(5)[OF sh1] shrinksD(5)[OF sh2]] .
    then have "filter is_Call (delta h h') =
        map (\<lambda>l. Call l v ?s) (listeners (nodes h ! c)) @ filter is_Call (delta h1 h')"
      using dl calls by (simp add: nodes_emit)
    then have B: "\<exists>t. filter is_Call (delta h h') =
        map (\<lambda>l. Call l v ?s) (listeners (nodes h ! c)) @ t"
      by blast
    show ?thesis using T A True run B by auto
  next
    case False
    have T: "trigger (Suc k) h c v = Some ?e" using nd assms(3) False by simp
    show ?thesis using T de False by simp
  qed
qed

lemma no_tests_in_calls: "list_all is_Call t \<Longrightarrow> filter (tests_of c) t = []"
proof (induction t)
  case Nil
  then show ?case by simp
next
  case (Cons e t)
  then show ?case by (cases e) simp_all
qed

text \<open>The constructors and \<^verbatim>\<open>listen\<close> build a tree in which every attached node is observed.\<close>

lemma tree_ok_init: "tree_ok init"
  by (simp add: tree_ok_def init_def)

lemma attached_ok_init: "attached_ok init"
  by (simp add: attached_ok_def init_def)

lemma tree_ok_append:
  assumes "tree_ok h" "links_ok h" "children nd = []" "paired (connect nd) (disconnect nd)"
  shows "tree_ok (h\<lparr>nodes := nodes h @ [nd]\<rparr>)" (is "tree_ok ?h'")
  unfolding tree_ok_def
proof (intro ballI conjI)
  fix n assume "n \<in> {..<length (nodes ?h')}"
  then have n: "n < length (nodes h) \<or> n = length (nodes h)" by auto
  show "paired (connect (nodes ?h' ! n)) (disconnect (nodes ?h' ! n))"
    using n tree_okD(1)[OF assms(1)] assms(4) by (auto simp: nth_append)
  fix c assume c: "c \<in> set (children (nodes ?h' ! n))"
  have nl: "n < length (nodes h)" using n c assms(3) by (auto simp: nth_append)
  have c0: "c \<in> set (children (nodes h ! n))" using c nl by (simp add: nth_append)
  have cl: "c < length (nodes h)" using links_okD[OF assms(2) nl c0] by simp
  show "connect (nodes ?h' ! c) = AddChildHook n c"
    using tree_okD(2)[OF assms(1) nl c0] cl by (simp add: nth_append)
qed

lemma attached_ok_append:
  assumes "attached_ok h" "links_ok h" "children nd = []"
  shows "attached_ok (h\<lparr>nodes := nodes h @ [nd]\<rparr>)" (is "attached_ok ?h'")
  unfolding attached_ok_def
proof (intro ballI)
  fix n c assume "n \<in> {..<length (nodes ?h')}" and c: "c \<in> set (children (nodes ?h' ! n))"
  then have n: "n < length (nodes h) \<or> n = length (nodes h)" by auto
  have nl: "n < length (nodes h)" using n c assms(3) by (auto simp: nth_append)
  have c0: "c \<in> set (children (nodes h ! n))" using c nl by (simp add: nth_append)
  have cl: "c < length (nodes h)" using links_okD[OF assms(2) nl c0] by simp
  show "\<not> idle (nodes ?h' ! c)"
    using attached_okD[OF assms(1) nl c0] cl by (simp add: nth_append)
qed

lemma singleEvent_tree:
  assumes "well_formed h" "tree_ok h" "attached_ok h"
  shows "tree_ok (fst (singleEvent h s))" "attached_ok (fst (singleEvent h s))"
proof -
  have lk: "links_ok h" using assms(1) by (simp add: well_formed_def)
  show "tree_ok (fst (singleEvent h s))"
    unfolding singleEvent_def fst_conv by (rule tree_ok_append[OF assms(2) lk]) simp_all
  show "attached_ok (fst (singleEvent h s))"
    unfolding singleEvent_def fst_conv by (rule attached_ok_append[OF assms(3) lk]) simp
qed

lemma derive_tree:
  assumes "well_formed h" "tree_ok h" "attached_ok h" "derive h n var = Some (h1, c)"
  shows "tree_ok h1" "attached_ok h1"
proof -
  have lk: "links_ok h" using assms(1) by (simp add: well_formed_def)
  note e = derive_effect[OF assms(1,4)]
  show "tree_ok h1" unfolding e(3) by (rule tree_ok_append[OF assms(2) lk]) simp_all
  show "attached_ok h1" unfolding e(3) by (rule attached_ok_append[OF assms(3) lk]) simp
qed

lemma attached_butD:
  "attached_but c h \<Longrightarrow> n < length (nodes h) \<Longrightarrow> y \<in> set (children (nodes h ! n)) \<Longrightarrow>
     y = c \<or> \<not> idle (nodes h ! y)"
  unfolding attached_but_def by blast

lemma attached_ok_but: "attached_ok h \<Longrightarrow> attached_but c h"
  unfolding attached_ok_def attached_but_def by blast

lemma tree_ok_static_children:
  assumes "tree_ok h" "map static (nodes h') = map static (nodes h)" "links_ok h'"
    "\<forall>n \<in> {..<length (nodes h)}. \<forall>c \<in> set (children (nodes h' ! n)).
       c \<in> set (children (nodes h ! n)) \<or> connect (nodes h ! c) = AddChildHook n c"
  shows "tree_ok h'"
  unfolding tree_ok_def
proof (intro ballI conjI)
  have len: "length (nodes h') = length (nodes h)" using static_length[OF assms(2)] .
  fix n assume "n \<in> {..<length (nodes h')}"
  then have n: "n < length (nodes h)" and n': "n < length (nodes h')" using len by simp_all
  show "paired (connect (nodes h' ! n)) (disconnect (nodes h' ! n))"
    using tree_okD(1)[OF assms(1) n] static_nth(1,2)[OF assms(2) n] by simp
  fix c assume c: "c \<in> set (children (nodes h' ! n))"
  have cl: "c < length (nodes h)" using links_okD[OF assms(3) n' c] len by simp
  have "c \<in> set (children (nodes h ! n)) \<or> connect (nodes h ! c) = AddChildHook n c"
    using assms(4) n c by blast
  then have "connect (nodes h ! c) = AddChildHook n c" using tree_okD(2)[OF assms(1) n] by blast
  then show "connect (nodes h' ! c) = AddChildHook n c"
    using static_nth(1)[OF assms(2) cl] by simp
qed

lemma connect_tree:
  "run_connect k h n = Some h' \<Longrightarrow> well_formed h \<Longrightarrow> tree_ok h \<Longrightarrow> attached_ok h \<Longrightarrow>
     n < length (nodes h) \<Longrightarrow> tree_ok h' \<and> attached_but n h'"
  "addChild k h p c = Some h' \<Longrightarrow> well_formed h \<Longrightarrow> tree_ok h \<Longrightarrow> attached_ok h \<Longrightarrow>
     p < c \<Longrightarrow> c < length (nodes h) \<Longrightarrow> connect (nodes h ! c) = AddChildHook p c \<Longrightarrow>
     sender (nodes h ! c) = sender (nodes h ! p) \<Longrightarrow> tree_ok h' \<and> attached_but c h'"
proof (induct k h n and k h p c arbitrary: h' and h' rule: run_connect_addChild.induct)
  case (1 h n)
  then show ?case by simp
next
  case (2 k h n)
  have nd: "node_at h n = Some (nodes h ! n)" using "2.prems"(5) by (simp add: node_at_def)
  let ?e = "emit (Connect n) h"
  note we = shrinks_tree[OF "2.prems"(2,3) shrinks_emit[of h "Connect n"]]
  have ae: "attached_ok ?e" using "2.prems"(4) attached_ok_nodes[of ?e h] by (simp add: nodes_emit)
  show ?case
  proof (cases "connect (nodes h ! n)")
    case OnConnect
    then have "h' = ?e" using "2.prems"(1) nd by simp
    then show ?thesis using we(2) attached_ok_but[OF ae] by simp
  next
    case (AddChildHook p c)
    have hk: "hooks_ok h" using "2.prems"(2) by (simp add: well_formed_def)
    note ok = hooks_ok_connect[OF hk "2.prems"(5) AddChildHook]
    have run: "addChild k ?e p c = Some h'" using "2.prems"(1) nd AddChildHook by simp
    have a: "p < c" using ok by simp
    have b: "c < length (nodes ?e)" using ok "2.prems"(5) by (simp add: nodes_emit)
    have d: "connect (nodes ?e ! c) = AddChildHook p c" using ok AddChildHook by (simp add: nodes_emit)
    have s: "sender (nodes ?e ! c) = sender (nodes ?e ! p)" using ok by (simp add: nodes_emit)
    have "tree_ok h' \<and> attached_but c h'"
      using "2.hyps"[OF nd AddChildHook run we ae a b d s] .
    then show ?thesis using ok by simp
  qed
next
  case (3 k h p c)
  have pv: "p < length (nodes h)" using "3.prems"(5,6) by simp
  have nd: "node_at h p = Some (nodes h ! p)" using pv by (simp add: node_at_def)
  obtain h1 where h1: "(if idle (nodes h ! p) then run_connect k h p else Some h) = Some h1"
    and h': "h' = put_node h1 p ((nodes h1 ! p)\<lparr>children := set_add c (children (nodes h1 ! p))\<rparr>)"
    using "3.prems"(1) nd by (auto split: option.splits)
  have 1: "well_formed h1 \<and> cframe h h1 \<and> tree_ok h1 \<and> attached_but p h1"
  proof (cases "idle (nodes h ! p)")
    case True
    then have run: "run_connect k h p = Some h1" using h1 by simp
    show ?thesis
      using connect_frame(1)[OF "3.prems"(2) pv run] "3.hyps"[OF nd True run "3.prems"(2,3,4) pv]
      by blast
  next
    case False
    then have "h1 = h" using h1 by simp
    then show ?thesis using "3.prems"(2,3) cframe_refl attached_ok_but[OF "3.prems"(4)] by simp
  qed
  have wf1: "well_formed h1" and cf: "cframe h h1" and t1: "tree_ok h1" and ab: "attached_but p h1"
    using 1 by simp_all
  note cfD = cframeD[OF cf]
  have p1: "p < length (nodes h1)" and c1: "c < length (nodes h1)"
    using cfD(2) pv "3.prems"(6) by simp_all
  have s1: "sender (nodes h1 ! c) = sender (nodes h1 ! p)"
    using static_nth(3)[OF cfD(1) pv] static_nth(3)[OF cfD(1) "3.prems"(6)] "3.prems"(8) by simp
  have hc1: "connect (nodes h1 ! c) = AddChildHook p c"
    using static_nth(1)[OF cfD(1) "3.prems"(6)] "3.prems"(7) by simp
  have lk1: "links_ok h1" using wf1 by (simp add: well_formed_def)
  have lk': "links_ok h'" unfolding h' using links_ok_add_child[OF lk1 "3.prems"(5) c1 s1] .
  have st: "map static (nodes h') = map static (nodes h1)"
    unfolding h' using p1 by (simp add: nodes_put_node map_update_same static_children_update)
  have ch: "\<And>x. x < length (nodes h1) \<Longrightarrow> set (children (nodes h' ! x)) =
      (if x = p then insert c (set (children (nodes h1 ! x))) else set (children (nodes h1 ! x)))"
    unfolding h' by (simp add: nodes_put_node set_add_set)
  have A: "tree_ok h'"
  proof (rule tree_ok_static_children[OF t1 st lk'])
    show "\<forall>n \<in> {..<length (nodes h1)}. \<forall>y \<in> set (children (nodes h' ! n)).
       y \<in> set (children (nodes h1 ! n)) \<or> connect (nodes h1 ! y) = AddChildHook n y"
    proof (intro ballI)
      fix n y assume n: "n \<in> {..<length (nodes h1)}" and y: "y \<in> set (children (nodes h' ! n))"
      have nl: "n < length (nodes h1)" using n by simp
      show "y \<in> set (children (nodes h1 ! n)) \<or> connect (nodes h1 ! y) = AddChildHook n y"
        using y ch[OF nl] hc1 by (cases "n = p") auto
    qed
  qed
  have B: "attached_but c h'"
    unfolding attached_but_def
  proof (intro ballI)
    fix n y assume n: "n \<in> {..<length (nodes h')}" and y: "y \<in> set (children (nodes h' ! n))"
    have nl: "n < length (nodes h1)" using n by (simp add: h' nodes_put_node)
    show "y = c \<or> \<not> idle (nodes h' ! y)"
    proof (cases "y = c")
      case True
      then show ?thesis by simp
    next
      case False
      then have y1: "y \<in> set (children (nodes h1 ! n))" using y ch[OF nl] by (cases "n = p") auto
      show ?thesis
      proof (cases "y = p")
        case True
        have "c \<in> set (children (nodes h' ! p))" using ch[OF p1] by simp
        then show ?thesis using True by (auto simp: idle_def)
      next
        case False
        have "\<not> idle (nodes h1 ! y)" using attached_butD[OF ab nl y1] False by simp
        then show ?thesis using False by (simp add: h' nodes_put_node)
      qed
    qed
  qed
  show ?case using A B by simp
qed

lemma listen_tree:
  assumes "listen k h n l = Some h'" "well_formed h" "tree_ok h" "attached_ok h"
    "n < length (nodes h)"
  shows "tree_ok h'" "attached_ok h'"
proof -
  have nd: "node_at h n = Some (nodes h ! n)" using assms(5) by (simp add: node_at_def)
  obtain h1 where h1: "(if idle (nodes h ! n) then run_connect k h n else Some h) = Some h1"
    and h': "h' = put_node h1 n ((nodes h1 ! n)\<lparr>listeners := set_add l (listeners (nodes h1 ! n))\<rparr>)"
    using assms(1) nd by (auto simp: listen_def split: option.splits)
  have 1: "well_formed h1 \<and> cframe h h1 \<and> tree_ok h1 \<and> attached_but n h1"
  proof (cases "idle (nodes h ! n)")
    case True
    then have run: "run_connect k h n = Some h1" using h1 by simp
    show ?thesis
      using connect_frame(1)[OF assms(2,5) run] connect_tree(1)[OF run assms(2,3,4,5)] by blast
  next
    case False
    then have "h1 = h" using h1 by simp
    then show ?thesis using assms(2,3) cframe_refl attached_ok_but[OF assms(4)] by simp
  qed
  have wf1: "well_formed h1" and cf: "cframe h h1" and t1: "tree_ok h1" and ab: "attached_but n h1"
    using 1 by simp_all
  have n1: "n < length (nodes h1)" using cframeD(2)[OF cf] assms(5) by simp
  have lk1: "links_ok h1" using wf1 by (simp add: well_formed_def)
  have lk': "links_ok h'" unfolding h' using links_ok_put_listeners[OF lk1 n1] .
  have st: "map static (nodes h') = map static (nodes h1)"
    unfolding h' using n1 by (simp add: nodes_put_node map_update_same static_listeners_update)
  have ch: "\<And>x. x < length (nodes h1) \<Longrightarrow> children (nodes h' ! x) = children (nodes h1 ! x)"
  proof -
    fix x assume "x < length (nodes h1)"
    then show "children (nodes h' ! x) = children (nodes h1 ! x)"
      unfolding h' by (cases "x = n") (simp_all add: nodes_put_node)
  qed
  show "tree_ok h'"
  proof (rule tree_ok_static_children[OF t1 st lk'])
    show "\<forall>x \<in> {..<length (nodes h1)}. \<forall>y \<in> set (children (nodes h' ! x)).
       y \<in> set (children (nodes h1 ! x)) \<or> connect (nodes h1 ! y) = AddChildHook x y"
      using ch by simp
  qed
  show "attached_ok h'"
    unfolding attached_ok_def
  proof (intro ballI)
    fix x y assume x: "x \<in> {..<length (nodes h')}" and y: "y \<in> set (children (nodes h' ! x))"
    have xl: "x < length (nodes h1)" using x by (simp add: h' nodes_put_node)
    have y1: "y \<in> set (children (nodes h1 ! x))" using y ch[OF xl] by simp
    show "\<not> idle (nodes h' ! y)"
    proof (cases "y = n")
      case True
      have "l \<in> set (listeners (nodes h' ! n))"
        unfolding h' using n1 by (simp add: nodes_put_node set_add_set)
      then show ?thesis using True by (auto simp: idle_def)
    next
      case False
      have "\<not> idle (nodes h1 ! y)" using attached_butD[OF ab xl y1] False by simp
      then show ?thesis using False by (simp add: h' nodes_put_node)
    qed
  qed
qed

lemma demo_tree: "tree_ok demo" "attached_ok demo"
  by (simp_all add: tree_ok_def attached_ok_def idle_def demo_def lessThan_Suc eval_nat_numeral)

text \<open>A node that is nobody's child is not fired from anywhere else.\<close>

lemma orphan_shrinks:
  assumes "\<forall>y. y < length (nodes h) \<longrightarrow> c \<notin> set (children (nodes h ! y))" "shrinks h h'"
  shows "\<forall>y. y < length (nodes h') \<longrightarrow> c \<notin> set (children (nodes h' ! y))"
proof (intro allI impI)
  fix y assume "y < length (nodes h')"
  then have y: "y < length (nodes h)" using shrinksD(2)[OF assms(2)] by simp
  show "c \<notin> set (children (nodes h' ! y))"
    using shrinks_children_subset[OF assms(2) y] assms(1) y by blast
qed

lemma no_tests_in_disconnects: "list_all is_Disconnect t \<Longrightarrow> filter (tests_of c) t = []"
proof (induction t)
  case Nil
  then show ?case by simp
next
  case (Cons e t)
  then show ?case by (cases e) simp_all
qed

lemma notify_loop_untested:
  "notify_loop k h x ls v = Some h' \<Longrightarrow> filter (tests_of c) (delta h h') = []"
proof (induction ls arbitrary: h)
  case Nil
  then show ?case by (simp add: delta_refl)
next
  case (Cons l ls)
  show ?case
  proof (cases "l \<in> set (listeners (nodes h ! x))")
    case True
    then obtain h1 where c1: "call_listener k h l v (sender (nodes h ! x)) = Some h1"
      and r1: "notify_loop k h1 x ls v = Some h'"
      using Cons.prems by (auto split: option.splits)
    obtain t where t: "delta h h1 = Call l v (sender (nodes h ! x)) # t" "list_all is_Disconnect t"
      using call_listener_frame(2)[OF c1] by blast
    have a: "filter (tests_of c) (delta h h1) = []" using t no_tests_in_disconnects[OF t(2)] by simp
    have s1: "shrinks h h1" using call_listener_frame(1)[OF c1] .
    have s2: "shrinks h1 h'" using notify_loop_shrinks[OF r1] .
    have "delta h h' = delta h h1 @ delta h1 h'"
      using delta_trans[OF shrinksD(5)[OF s1] shrinksD(5)[OF s2]] .
    then show ?thesis using a Cons.IH[OF r1] by simp
  next
    case False
    then show ?thesis using Cons.prems Cons.IH by simp
  qed
qed

lemma trigger_untested:
  "trigger k h x v = Some h' \<Longrightarrow> x \<noteq> c \<Longrightarrow>
     (\<forall>y. y < length (nodes h) \<longrightarrow> c \<notin> set (children (nodes h ! y))) \<Longrightarrow>
     filter (tests_of c) (delta h h') = []"
  "notifyListeners k h x v = Some h' \<Longrightarrow>
     (\<forall>y. y < length (nodes h) \<longrightarrow> c \<notin> set (children (nodes h ! y))) \<Longrightarrow>
     filter (tests_of c) (delta h h') = []"
  "trigger_children k h x cs v = Some h' \<Longrightarrow> x < length (nodes h) \<Longrightarrow>
     (\<forall>y. y < length (nodes h) \<longrightarrow> c \<notin> set (children (nodes h ! y))) \<Longrightarrow>
     filter (tests_of c) (delta h h') = []"
proof (induct k h x v and k h x v and k h x cs v arbitrary: h' and h' and h'
    rule: trigger_notifyListeners_trigger_children.induct)
  case (1 h n v)
  then show ?case by simp
next
  case (2 k h n v)
  from "2.prems"(1) obtain nd where nd: "node_at h n = Some nd" by (auto split: option.splits)
  show ?case
  proof (cases "variant nd")
    case SingleEventSource
    then have "notifyListeners k h n v = Some h'" using "2.prems"(1) nd by simp
    then show ?thesis using "2.hyps"(1)[OF nd SingleEventSource] "2.prems"(3) by blast
  next
    case (FilterEvent pred)
    let ?e = "emit (Test n v) h"
    have de: "delta h ?e = [Test n v]" by (simp add: delta_def emit_def)
    show ?thesis
    proof (cases "pred v")
      case True
      then have run: "notifyListeners k ?e n v = Some h'"
        using "2.prems"(1) nd FilterEvent by simp
      have or: "\<forall>y. y < length (nodes ?e) \<longrightarrow> c \<notin> set (children (nodes ?e ! y))"
        using "2.prems"(3) by (simp add: nodes_emit)
      have a: "filter (tests_of c) (delta ?e h') = []"
        using "2.hyps"(2)[OF nd FilterEvent True run or] .
      have s2: "shrinks ?e h'" using trigger_shrinks(2)[OF run] .
      have "delta h h' = delta h ?e @ delta ?e h'"
        using delta_trans[OF shrinksD(5)[OF shrinks_emit] shrinksD(5)[OF s2]] .
      then show ?thesis using a de "2.prems"(2) by simp
    next
      case False
      then have "h' = ?e" using "2.prems"(1) nd FilterEvent by simp
      then show ?thesis using de "2.prems"(2) by simp
    qed
  next
    case (MapEvent f)
    then have "notifyListeners k h n (f v) = Some h'" using "2.prems"(1) nd by simp
    then show ?thesis using "2.hyps"(3)[OF nd MapEvent] "2.prems"(3) by blast
  qed
next
  case (3 k h n v)
  from "3.prems"(1) obtain nd where nd: "node_at h n = Some nd" by (auto split: option.splits)
  note v = node_at_Some[OF nd]
  obtain h1 where l1: "notify_loop k h n (listeners nd) v = Some h1"
    and c1: "trigger_children k h1 n (children (nodes h1 ! n)) v = Some h'"
    using "3.prems"(1) nd by (auto split: option.splits)
  have s1: "shrinks h h1" using notify_loop_shrinks[OF l1] .
  have s2: "shrinks h1 h'" using trigger_shrinks(3)[OF c1] .
  have n1: "n < length (nodes h1)" using shrinksD(2)[OF s1] v by simp
  have a: "filter (tests_of c) (delta h h1) = []" using notify_loop_untested[OF l1] .
  have b: "filter (tests_of c) (delta h1 h') = []"
    using "3.hyps"[OF nd l1 c1 n1 orphan_shrinks[OF "3.prems"(2) s1]] .
  have "delta h h' = delta h h1 @ delta h1 h'"
    using delta_trans[OF shrinksD(5)[OF s1] shrinksD(5)[OF s2]] .
  then show ?case using a b by simp
next
  case (4 k h n v)
  then show ?case by (simp add: delta_refl)
next
  case (5 k h n z cs v)
  show ?case
  proof (cases "z \<in> set (children (nodes h ! n))")
    case True
    then obtain h1 where t1: "trigger k h z v = Some h1"
      and r: "trigger_children k h1 n cs v = Some h'"
      using "5.prems"(1) by (auto split: option.splits)
    have zc: "z \<noteq> c" using True "5.prems"(2,3) by blast
    have s1: "shrinks h h1" using trigger_shrinks(1)[OF t1] .
    have s2: "shrinks h1 h'" using trigger_shrinks(3)[OF r] .
    have n1: "n < length (nodes h1)" using shrinksD(2)[OF s1] "5.prems"(2) by simp
    have a: "filter (tests_of c) (delta h h1) = []" using "5.hyps"(1)[OF True t1 zc "5.prems"(3)] .
    have b: "filter (tests_of c) (delta h1 h') = []"
      using "5.hyps"(2)[OF True t1 r n1 orphan_shrinks[OF "5.prems"(3) s1]] .
    have "delta h h' = delta h h1 @ delta h1 h'"
      using delta_trans[OF shrinksD(5)[OF s1] shrinksD(5)[OF s2]] .
    then show ?thesis using a b by simp
  next
    case False
    then have r: "trigger_children k h n cs v = Some h'" using "5.prems"(1) by simp
    show ?thesis using "5.hyps"(3)[OF False r "5.prems"(2,3)] .
  qed
qed

lemma unattached_orphan:
  assumes "tree_ok h" "connect (nodes h ! c) = AddChildHook n x"
    "c \<notin> set (children (nodes h ! n))"
  shows "\<forall>y. y < length (nodes h) \<longrightarrow> c \<notin> set (children (nodes h ! y))"
proof (intro allI impI)
  fix y assume y: "y < length (nodes h)"
  show "c \<notin> set (children (nodes h ! y))"
  proof
    assume "c \<in> set (children (nodes h ! y))"
    then have "connect (nodes h ! c) = AddChildHook y c" using tree_okD(2)[OF assms(1) y] by blast
    then have "y = n" using assms(2) by simp
    then show False using assms(3) \<open>c \<in> set (children (nodes h ! y))\<close> by simp
  qed
qed

lemma fresh_tree: "tree_ok fresh" "attached_ok fresh"
  by (simp_all add: tree_ok_def attached_ok_def idle_def fresh_def lessThan_Suc eval_nat_numeral)

text \<open>\<^verbatim>\<open>unlisten\<close> and a firing keep every attached node observed.\<close>

lemma attached_exD:
  "attached_ex S h \<Longrightarrow> n < length (nodes h) \<Longrightarrow> y \<in> set (children (nodes h ! n)) \<Longrightarrow>
     y \<in> S \<or> \<not> idle (nodes h ! y)"
  unfolding attached_ex_def by blast

lemma attached_exI:
  assumes "\<And>n y. n < length (nodes h) \<Longrightarrow> y \<in> set (children (nodes h ! n)) \<Longrightarrow>
     y \<in> S \<or> \<not> idle (nodes h ! y)"
  shows "attached_ex S h"
  using assms unfolding attached_ex_def by simp

lemma attached_ex_mono: "attached_ex S h \<Longrightarrow> S \<subseteq> T \<Longrightarrow> attached_ex T h"
  unfolding attached_ex_def by blast

lemma attached_ex_empty: "attached_ex {} h = attached_ok h"
  by (simp add: attached_ex_def attached_ok_def)

lemma attached_ex_nodes: "nodes h' = nodes h \<Longrightarrow> attached_ex S h' = attached_ex S h"
  by (simp add: attached_ex_def)

lemma attached_ex_drop:
  assumes "attached_ex (insert x S) h" "\<not> idle (nodes h ! x)"
  shows "attached_ex S h"
proof (rule attached_exI)
  fix n y assume "n < length (nodes h)" "y \<in> set (children (nodes h ! n))"
  then have "y \<in> insert x S \<or> \<not> idle (nodes h ! y)" using attached_exD[OF assms(1)] by blast
  then show "y \<in> S \<or> \<not> idle (nodes h ! y)" using assms(2) by auto
qed

lemma child_parent:
  assumes "tree_ok h" "n < length (nodes h)" "y \<in> set (children (nodes h ! n))"
    "y < length (nodes h)"
  shows "disconnect (nodes h ! y) = RemoveChildHook n y"
proof -
  have "connect (nodes h ! y) = AddChildHook n y" using tree_okD(2)[OF assms(1,2,3)] .
  then show ?thesis using tree_okD(1)[OF assms(1,4)] by simp
qed

lemma disconnect_attached:
  "run_disconnect k h y = Some h' \<Longrightarrow> well_formed h \<Longrightarrow> tree_ok h \<Longrightarrow> y < length (nodes h) \<Longrightarrow>
     attached_ex (insert y S) h \<Longrightarrow> attached_ex S h'"
  "removeChild k h p y = Some h' \<Longrightarrow> well_formed h \<Longrightarrow> tree_ok h \<Longrightarrow> p < length (nodes h) \<Longrightarrow>
     disconnect (nodes h ! y) = RemoveChildHook p y \<Longrightarrow> attached_ex (insert y S) h \<Longrightarrow>
     attached_ex S h'"
proof (induct k h y and k h p y arbitrary: h' S and h' S rule: run_disconnect_removeChild.induct)
  case (1 h n)
  then show ?case by simp
next
  case (2 k h n)
  have nd: "node_at h n = Some (nodes h ! n)" using "2.prems"(4) by (simp add: node_at_def)
  let ?e = "emit (Disconnect n) h"
  note we = shrinks_tree[OF "2.prems"(2,3) shrinks_emit[of h "Disconnect n"]]
  have ae: "attached_ex (insert n S) ?e"
    using "2.prems"(5) attached_ex_nodes[of ?e h] by (simp add: nodes_emit)
  have lk: "links_ok h" and hk: "hooks_ok h" using "2.prems"(2) by (simp_all add: well_formed_def)
  show ?case
  proof (cases "disconnect (nodes h ! n)")
    case OnDisconnect
    then have e: "h' = ?e" using "2.prems"(1) nd by simp
    have "attached_ex S h"
    proof (rule attached_exI)
      fix x y assume x: "x < length (nodes h)" and y: "y \<in> set (children (nodes h ! x))"
      have yl: "y < length (nodes h)" using links_okD[OF lk x y] by simp
      have "disconnect (nodes h ! y) = RemoveChildHook x y" using child_parent[OF "2.prems"(3) x y yl] .
      then have "y \<noteq> n" using OnDisconnect by auto
      then show "y \<in> S \<or> \<not> idle (nodes h ! y)" using attached_exD[OF "2.prems"(5) x y] by simp
    qed
    then show ?thesis unfolding e using attached_ex_nodes[of ?e h] by (simp add: nodes_emit)
  next
    case (RemoveChildHook p y)
    note ok = hooks_ok_disconnect[OF hk "2.prems"(4) RemoveChildHook]
    have run: "removeChild k ?e p y = Some h'" using "2.prems"(1) nd RemoveChildHook by simp
    have pe: "p < length (nodes ?e)" using ok "2.prems"(4) by (simp add: nodes_emit)
    have d: "disconnect (nodes ?e ! y) = RemoveChildHook p y"
      using ok RemoveChildHook by (simp add: nodes_emit)
    have ae': "attached_ex (insert y S) ?e" using ae ok by simp
    show ?thesis using "2.hyps"[OF nd RemoveChildHook run we pe d ae'] .
  qed
next
  case (3 k h p y)
  have nd: "node_at h p = Some (nodes h ! p)" using "3.prems"(4) by (simp add: node_at_def)
  define h1 where "h1 = put_node h p ((nodes h ! p)\<lparr>children := set_delete y (children (nodes h ! p))\<rparr>)"
  have "dframe h h1" unfolding h1_def using dframe_del_child[OF "3.prems"(4)] .
  then have s1: "shrinks h h1" by (simp add: dframe_def)
  note w1 = shrinks_tree[OF "3.prems"(2,3) s1]
  have lk: "links_ok h" using "3.prems"(2) by (simp add: well_formed_def)
  have p1: "p < length (nodes h1)" using shrinksD(2)[OF s1] "3.prems"(4) by simp
  have len: "length (nodes h1) = length (nodes h)" using shrinksD(2)[OF s1] .
  have a1: "attached_ex (insert p S) h1"
  proof (rule attached_exI)
    fix n z assume n1: "n < length (nodes h1)" and z: "z \<in> set (children (nodes h1 ! n))"
    have n: "n < length (nodes h)" using n1 len by simp
    have z0: "z \<in> set (children (nodes h ! n))" using shrinks_children_subset[OF s1 n z] .
    have zl: "z < length (nodes h)" using links_okD[OF lk n z0] by simp
    have zy: "z \<noteq> y"
    proof
      assume e: "z = y"
      have "disconnect (nodes h ! z) = RemoveChildHook n z" using child_parent[OF "3.prems"(3) n z0 zl] .
      then have "n = p" using e "3.prems"(5) by simp
      then have "z \<notin> set (children (nodes h1 ! n))"
        using e "3.prems"(4) by (simp add: h1_def nodes_put_node set_delete_def)
      then show False using z by simp
    qed
    have "z \<in> insert y S \<or> \<not> idle (nodes h ! z)" using attached_exD[OF "3.prems"(6) n z0] .
    then have c: "z \<in> S \<or> \<not> idle (nodes h ! z)" using zy by simp
    show "z \<in> insert p S \<or> \<not> idle (nodes h1 ! z)"
    proof (cases "z = p")
      case True
      then show ?thesis by simp
    next
      case False
      then have "nodes h1 ! z = nodes h ! z" by (simp add: h1_def nodes_put_node)
      then show ?thesis using c by auto
    qed
  qed
  show ?case
  proof (cases "idle (nodes h1 ! p)")
    case True
    then have run: "run_disconnect k h1 p = Some h'"
      using "3.prems"(1) nd by (simp add: h1_def Let_def)
    show ?thesis using "3.hyps"[OF nd h1_def True run w1 p1 a1] .
  next
    case False
    then have "h' = h1" using "3.prems"(1) nd by (simp add: h1_def Let_def)
    then show ?thesis using attached_ex_drop[OF a1 False] by simp
  qed
qed

lemma unlisten_attached:
  "unlisten k h x l = Some h' \<Longrightarrow> well_formed h \<Longrightarrow> tree_ok h \<Longrightarrow>
     attached_ex (insert x S) h \<Longrightarrow> attached_ex S h'"
  "unlisten_children k h x cs l = Some h' \<Longrightarrow> well_formed h \<Longrightarrow> tree_ok h \<Longrightarrow>
     x < length (nodes h) \<Longrightarrow> attached_ex S h \<Longrightarrow> attached_ex S h'"
proof (induct k h x l and k h x cs l arbitrary: h' S and h' S
    rule: unlisten_unlisten_children.induct)
  case (1 h n l)
  then show ?case by simp
next
  case (2 k h n l)
  from "2.prems"(1) obtain nd0 where nd0: "node_at h n = Some nd0" by (auto split: option.splits)
  have nl: "n < length (nodes h)" using node_at_Some[OF nd0] by simp
  have nd: "node_at h n = Some (nodes h ! n)" using nl by (simp add: node_at_def)
  define h1 where "h1 = put_node h n ((nodes h ! n)\<lparr>listeners := set_delete l (listeners (nodes h ! n))\<rparr>)"
  obtain h2 where h2: "unlisten_children k h1 n (children (nodes h1 ! n)) l = Some h2"
    and fin: "(if idle (nodes h2 ! n) then run_disconnect k h2 n else Some h2) = Some h'"
    using "2.prems"(1) nd by (auto simp: h1_def Let_def split: option.splits)
  have "uframe l h h1" unfolding h1_def using uframe_del_listener[OF nl] .
  then have s1: "shrinks h h1" by (simp add: uframe_def)
  note w1 = shrinks_tree[OF "2.prems"(2,3) s1]
  have n1: "n < length (nodes h1)" using shrinksD(2)[OF s1] nl by simp
  have a1: "attached_ex (insert n S) h1"
  proof (rule attached_exI)
    fix x z assume x1: "x < length (nodes h1)" and z: "z \<in> set (children (nodes h1 ! x))"
    have x: "x < length (nodes h)" using x1 shrinksD(2)[OF s1] by simp
    have z0: "z \<in> set (children (nodes h ! x))" using shrinks_children_subset[OF s1 x z] .
    have c: "z \<in> insert n S \<or> \<not> idle (nodes h ! z)" using attached_exD[OF "2.prems"(4) x z0] .
    show "z \<in> insert n S \<or> \<not> idle (nodes h1 ! z)"
    proof (cases "z = n")
      case True
      then show ?thesis by simp
    next
      case False
      then have "nodes h1 ! z = nodes h ! z" by (simp add: h1_def nodes_put_node)
      then show ?thesis using c by auto
    qed
  qed
  have a2: "attached_ex (insert n S) h2" using "2.hyps"[OF nd h1_def h2 w1 n1 a1] .
  have s2: "shrinks h1 h2" using uframeD(1)[OF unlisten_frame(2)[OF h2]] .
  note w2 = shrinks_tree[OF w1 s2]
  have n2: "n < length (nodes h2)" using shrinksD(2)[OF s2] n1 by simp
  show ?case
  proof (cases "idle (nodes h2 ! n)")
    case True
    then have run: "run_disconnect k h2 n = Some h'" using fin by simp
    show ?thesis using disconnect_attached(1)[OF run w2 n2 a2] .
  next
    case False
    then have "h' = h2" using fin by simp
    then show ?thesis using attached_ex_drop[OF a2 False] by simp
  qed
next
  case (3 k h n l)
  then show ?case by simp
next
  case (4 k h n z cs l)
  show ?case
  proof (cases "z \<in> set (children (nodes h ! n))")
    case True
    then obtain h1 where h1: "unlisten k h z l = Some h1"
      and r: "unlisten_children k h1 n cs l = Some h'"
      using "4.prems"(1) by (auto split: option.splits)
    have az: "attached_ex (insert z S) h" using attached_ex_mono[OF "4.prems"(5)] by blast
    have a1: "attached_ex S h1" using "4.hyps"(1)[OF True h1 "4.prems"(2,3) az] .
    have s1: "shrinks h h1" using uframeD(1)[OF unlisten_frame(1)[OF h1]] .
    note w1 = shrinks_tree[OF "4.prems"(2,3) s1]
    have n1: "n < length (nodes h1)" using shrinksD(2)[OF s1] "4.prems"(4) by simp
    show ?thesis using "4.hyps"(2)[OF True h1 r w1 n1 a1] .
  next
    case False
    then have r: "unlisten_children k h n cs l = Some h'" using "4.prems"(1) by simp
    show ?thesis using "4.hyps"(3)[OF False r "4.prems"(2,3,4,5)] .
  qed
qed

lemma unlisten_tree:
  assumes "unlisten k h x l = Some h'" "well_formed h" "tree_ok h" "attached_ok h"
  shows "well_formed h'" "tree_ok h'" "attached_ok h'"
proof -
  have s: "shrinks h h'" using uframeD(1)[OF unlisten_frame(1)[OF assms(1)]] .
  show "well_formed h'" "tree_ok h'" using shrinks_tree[OF assms(2,3) s] .
  have "attached_ex (insert x {}) h"
    using attached_ex_mono[of "{}" h "insert x {}"] assms(4) by (simp add: attached_ex_empty)
  then have "attached_ex {} h'" using unlisten_attached(1)[OF assms(1,2,3)] by blast
  then show "attached_ok h'" by (simp add: attached_ex_empty)
qed

lemma call_listener_attached:
  assumes "call_listener k h l v s = Some h'" "well_formed h" "tree_ok h" "attached_ok h"
  shows "attached_ok h'"
proof (cases l)
  case (Ext j)
  then have e: "h' = emit (Call l v s) h" using assms(1) by (simp add: call_listener_def)
  show ?thesis unfolding e using assms(4) attached_ok_nodes[of "emit (Call l v s) h" h]
    by (simp add: nodes_emit)
next
  case (Once m p)
  define r where "r = resolve (emit (Call l v s) h) p v"
  have nr: "nodes r = nodes h" by (simp add: r_def nodes_resolve nodes_emit)
  have sr: "shrinks h r" unfolding r_def using shrinks_trans[OF shrinks_emit shrinks_resolve] .
  have un: "unlisten k r m l = Some h'" using assms(1) Once by (simp add: call_listener_def r_def)
  note w1 = shrinks_tree[OF assms(2,3) sr]
  have ar: "attached_ok r" using assms(4) attached_ok_nodes[OF nr] by simp
  show ?thesis using unlisten_tree(3)[OF un w1 ar] .
qed

lemma notify_loop_attached:
  "notify_loop k h x ls v = Some h' \<Longrightarrow> well_formed h \<Longrightarrow> tree_ok h \<Longrightarrow> attached_ok h \<Longrightarrow>
     attached_ok h'"
proof (induction ls arbitrary: h)
  case Nil
  then show ?case by simp
next
  case (Cons l ls)
  show ?case
  proof (cases "l \<in> set (listeners (nodes h ! x))")
    case True
    then obtain h1 where c1: "call_listener k h l v (sender (nodes h ! x)) = Some h1"
      and r1: "notify_loop k h1 x ls v = Some h'"
      using Cons.prems(1) by (auto split: option.splits)
    have a1: "attached_ok h1" using call_listener_attached[OF c1 Cons.prems(2,3,4)] .
    note w1 = shrinks_tree[OF Cons.prems(2,3) call_listener_frame(1)[OF c1]]
    show ?thesis using Cons.IH[OF r1 w1 a1] .
  next
    case False
    then have "notify_loop k h x ls v = Some h'" using Cons.prems(1) by simp
    then show ?thesis using Cons.IH Cons.prems(2,3,4) by blast
  qed
qed

lemma trigger_attached:
  "trigger k h x v = Some h' \<Longrightarrow> well_formed h \<Longrightarrow> tree_ok h \<Longrightarrow> attached_ok h \<Longrightarrow>
     attached_ok h'"
  "notifyListeners k h x v = Some h' \<Longrightarrow> well_formed h \<Longrightarrow> tree_ok h \<Longrightarrow> attached_ok h \<Longrightarrow>
     attached_ok h'"
  "trigger_children k h x cs v = Some h' \<Longrightarrow> well_formed h \<Longrightarrow> tree_ok h \<Longrightarrow> attached_ok h \<Longrightarrow>
     attached_ok h'"
proof (induct k h x v and k h x v and k h x cs v arbitrary: h' and h' and h'
    rule: trigger_notifyListeners_trigger_children.induct)
  case (1 h n v)
  then show ?case by simp
next
  case (2 k h n v)
  from "2.prems"(1) obtain nd where nd: "node_at h n = Some nd" by (auto split: option.splits)
  show ?case
  proof (cases "variant nd")
    case SingleEventSource
    then have "notifyListeners k h n v = Some h'" using "2.prems"(1) nd by simp
    then show ?thesis using "2.hyps"(1)[OF nd SingleEventSource] "2.prems"(2,3,4) by blast
  next
    case (FilterEvent pred)
    let ?e = "emit (Test n v) h"
    note we = shrinks_tree[OF "2.prems"(2,3) shrinks_emit[of h "Test n v"]]
    have ae: "attached_ok ?e" using "2.prems"(4) attached_ok_nodes[of ?e h] by (simp add: nodes_emit)
    show ?thesis
    proof (cases "pred v")
      case True
      then have run: "notifyListeners k ?e n v = Some h'"
        using "2.prems"(1) nd FilterEvent by simp
      show ?thesis using "2.hyps"(2)[OF nd FilterEvent True run we ae] .
    next
      case False
      then have "h' = ?e" using "2.prems"(1) nd FilterEvent by simp
      then show ?thesis using ae by simp
    qed
  next
    case (MapEvent f)
    then have "notifyListeners k h n (f v) = Some h'" using "2.prems"(1) nd by simp
    then show ?thesis using "2.hyps"(3)[OF nd MapEvent] "2.prems"(2,3,4) by blast
  qed
next
  case (3 k h n v)
  from "3.prems"(1) obtain nd where nd: "node_at h n = Some nd" by (auto split: option.splits)
  obtain h1 where l1: "notify_loop k h n (listeners nd) v = Some h1"
    and c1: "trigger_children k h1 n (children (nodes h1 ! n)) v = Some h'"
    using "3.prems"(1) nd by (auto split: option.splits)
  have a1: "attached_ok h1" using notify_loop_attached[OF l1 "3.prems"(2,3,4)] .
  note w1 = shrinks_tree[OF "3.prems"(2,3) notify_loop_shrinks[OF l1]]
  show ?case using "3.hyps"[OF nd l1 c1 w1 a1] .
next
  case (4 k h n v)
  then show ?case by simp
next
  case (5 k h n z cs v)
  show ?case
  proof (cases "z \<in> set (children (nodes h ! n))")
    case True
    then obtain h1 where t1: "trigger k h z v = Some h1"
      and r: "trigger_children k h1 n cs v = Some h'"
      using "5.prems"(1) by (auto split: option.splits)
    have a1: "attached_ok h1" using "5.hyps"(1)[OF True t1 "5.prems"(2,3,4)] .
    note w1 = shrinks_tree[OF "5.prems"(2,3) trigger_shrinks(1)[OF t1]]
    show ?thesis using "5.hyps"(2)[OF True t1 r w1 a1] .
  next
    case False
    then have r: "trigger_children k h n cs v = Some h'" using "5.prems"(1) by simp
    show ?thesis using "5.hyps"(3)[OF False r "5.prems"(2,3,4)] .
  qed
qed

text \<open>\<^verbatim>\<open>next\<close>, \<^verbatim>\<open>take\<close> and the queue of continuations keep the three invariants.\<close>

lemma tree_ok_nodes: "nodes h' = nodes h \<Longrightarrow> tree_ok h' = tree_ok h"
  by (simp add: tree_ok_def)

lemma listen_valid: "listen k h n l = Some h' \<Longrightarrow> n < length (nodes h)"
  by (auto simp: listen_def node_at_def split: if_splits)

lemma next_ev_tree:
  assumes "next_ev k h n = Some (h1, p)" "well_formed h" "tree_ok h" "attached_ok h"
  shows "well_formed h1" "tree_ok h1" "attached_ok h1"
proof -
  let ?h0 = "h\<lparr>promises := promises h @ [None]\<rparr>"
  have L: "listen k ?h0 n (Once n (length (promises h))) = Some h1"
    using assms(1) by (auto simp: next_ev_def Let_def split: option.splits)
  have wf0: "well_formed ?h0" using well_formed_more_promises[OF assms(2)] .
  have t0: "tree_ok ?h0" using assms(3) tree_ok_nodes[of ?h0 h] by simp
  have a0: "attached_ok ?h0" using assms(4) attached_ok_nodes[of ?h0 h] by simp
  have n0: "n < length (nodes ?h0)" using listen_valid[OF L] .
  have fits: "case Once n (length (promises h)) of Ext j \<Rightarrow> True
      | Once m q \<Rightarrow> m = n \<and> q < length (promises ?h0)"
    by simp
  show "well_formed h1" using listen_effect(1)[OF wf0 n0 L fits] .
  show "tree_ok h1" "attached_ok h1" using listen_tree[OF L wf0 t0 a0 n0] .
qed

lemma take_loop_tree:
  assumes "take_loop k h n cnt i arr = Some (h1, tk)" "well_formed h" "tree_ok h" "attached_ok h"
  shows "well_formed h1" "tree_ok h1" "attached_ok h1"
proof -
  have "well_formed h1 \<and> tree_ok h1 \<and> attached_ok h1"
  proof (cases "i < cnt")
    case True
    then obtain p where N: "next_ev k h n = Some (h1, p)"
      using assms(1) by (auto simp: take_loop_def split: option.splits)
    show ?thesis using next_ev_tree[OF N assms(2,3,4)] by simp
  next
    case False
    then have "h1 = h" using assms(1) by (simp add: take_loop_def)
    then show ?thesis using assms(2,3,4) by simp
  qed
  then show "well_formed h1" "tree_ok h1" "attached_ok h1" by simp_all
qed

lemma take_ev_tree:
  assumes "take_ev k h n cnt = Some (h', t)" "well_formed h" "tree_ok h" "attached_ok h"
  shows "well_formed h'" "tree_ok h'" "attached_ok h'"
proof -
  obtain h1 tk where T: "take_loop k h n cnt 0 [] = Some (h1, tk)"
    and e: "h' = h1\<lparr>takes := takes h1 @ [tk]\<rparr>"
    using assms(1) by (auto simp: take_ev_def split: option.splits)
  note w = take_loop_tree[OF T assms(2,3,4)]
  have nn: "nodes h' = nodes h1" and pp: "promises h' = promises h1" using e by simp_all
  show "well_formed h'" using well_formed_nodes_promises[OF w(1) nn pp] .
  show "tree_ok h'" using w(2) tree_ok_nodes[OF nn] by simp
  show "attached_ok h'" using w(3) attached_ok_nodes[OF nn] by simp
qed

lemma resume_tree:
  assumes "resume k h t = Some h'" "well_formed h" "tree_ok h" "attached_ok h"
  shows "well_formed h' \<and> tree_ok h' \<and> attached_ok h'"
proof -
  have tl: "t < length (takes h)" using assms(1) by (auto simp: resume_def split: if_splits)
  show ?thesis
  proof (cases "takes h ! t")
    case (Returned arr)
    then have "h' = h" using assms(1) tl by (simp add: resume_def)
    then show ?thesis using assms(2,3,4) by simp
  next
    case (Awaiting n cnt i arr p)
    have pl: "p < length (promises h)"
      using assms(1) tl Awaiting by (auto simp: resume_def split: if_splits)
    show ?thesis
    proof (cases "promises h ! p")
      case None
      then have "h' = h" using assms(1) tl Awaiting pl by (simp add: resume_def)
      then show ?thesis using assms(2,3,4) by simp
    next
      case (Some a)
      obtain h1 tk where T: "take_loop k h n cnt (i + 1) (arr @ [a]) = Some (h1, tk)"
        and e: "h' = h1\<lparr>takes := (takes h1)[t := tk]\<rparr>"
        using assms(1) tl Awaiting pl Some by (auto simp: resume_def split: option.splits)
      note w = take_loop_tree[OF T assms(2,3,4)]
      have nn: "nodes h' = nodes h1" and pp: "promises h' = promises h1" using e by simp_all
      show ?thesis
        using well_formed_nodes_promises[OF w(1) nn pp] w(2,3) tree_ok_nodes[OF nn]
          attached_ok_nodes[OF nn]
        by simp
    qed
  qed
qed

lemma run_queue_tree:
  "run_queue k h ts = Some h' \<Longrightarrow> well_formed h \<Longrightarrow> tree_ok h \<Longrightarrow> attached_ok h \<Longrightarrow>
     well_formed h' \<and> tree_ok h' \<and> attached_ok h'"
proof (induction ts arbitrary: h)
  case Nil
  then show ?case by simp
next
  case (Cons t ts)
  obtain h1 where r: "resume k h t = Some h1" and q: "run_queue k h1 ts = Some h'"
    using Cons.prems(1) by (auto split: option.splits)
  have w: "well_formed h1 \<and> tree_ok h1 \<and> attached_ok h1"
    using resume_tree[OF r Cons.prems(2,3,4)] .
  show ?case using Cons.IH[OF q] w by blast
qed

lemma drain_tree:
  assumes "drain k h = Some h'" "well_formed h" "tree_ok h" "attached_ok h"
  shows "well_formed h' \<and> tree_ok h' \<and> attached_ok h'"
proof -
  let ?h0 = "h\<lparr>queue := []\<rparr>"
  have r: "run_queue k ?h0 (queue h) = Some h'" using assms(1) by (simp add: drain_def)
  have nn: "nodes ?h0 = nodes h" and pp: "promises ?h0 = promises h" by simp_all
  have w: "well_formed ?h0" using well_formed_nodes_promises[OF assms(2) nn pp] .
  have t: "tree_ok ?h0" using assms(3) tree_ok_nodes[OF nn] by simp
  have a: "attached_ok ?h0" using assms(4) attached_ok_nodes[OF nn] by simp
  show ?thesis using run_queue_tree[OF r w t a] .
qed

lemma trigger_tree:
  assumes "trigger k h n v = Some h'" "well_formed h" "tree_ok h" "attached_ok h"
  shows "well_formed h'" "tree_ok h'" "attached_ok h'"
proof -
  show "well_formed h'" "tree_ok h'" using shrinks_tree[OF assms(2,3) trigger_shrinks(1)[OF assms(1)]] .
  show "attached_ok h'" using trigger_attached(1)[OF assms] .
qed

section \<open>The claims\<close>

text \<open>
  C1 (the connect hook runs exactly once per transition of the listener-and-child count from
  zero to non-zero, the disconnect hook exactly once per transition back to zero, and neither
  runs at any other point). The code runs the disconnect hook more often. A source gets a
  filter child, the child gets the listener \<open>Ext 7\<close>, and \<^verbatim>\<open>unlisten\<close> on the source
  removes it through the cascade: node 0 goes from zero to one child once and back to zero once,
  yet its disconnect hook runs twice, first from \<^verbatim>\<open>removeChild\<close> (called by the child's
  disconnect hook) and again from the size test at the end of its own \<^verbatim>\<open>unlisten\<close>.
\<close>

theorem cascade_disconnects_twice:
  "(case filter_ev (fst (singleEvent (init :: (int, string) state) ''me'')) 0 (\<lambda>x. 0 < x) of
      None \<Rightarrow> None
    | Some (h1, c) \<Rightarrow>
        (case listen 3 h1 c (Ext 7) of None \<Rightarrow> None
         | Some h2 \<Rightarrow> (case unlisten 5 h2 0 (Ext 7) of None \<Rightarrow> None | Some h3 \<Rightarrow> Some (trace h3))))
   = Some [Connect 1, Connect 0, Disconnect 1, Disconnect 0, Disconnect 0]"
  by code_simp

text \<open>
  C2 (\<^verbatim>\<open>unlisten\<close> with a listener that is registered nowhere is a silent no-op: no set
  changes and no hook runs). On a node without listeners and children the code runs the
  disconnect hook: \<^verbatim>\<open>unlisten\<close> tests only the sizes after the deletion, not whether anything
  was deleted.
\<close>

theorem unlisten_idle_runs_disconnect:
  "unlisten 2 (fst (singleEvent (init :: (int, string) state) ''me'')) 0 (Ext 0) =
     Some ((fst (singleEvent init ''me''))\<lparr>trace := [Disconnect 0]\<rparr>)"
  by (simp add: singleEvent_def init_def node_at_def put_node_def emit_def idle_def set_delete_def
      eval_nat_numeral)

text \<open>
  C10 (for a negative count, \<^verbatim>\<open>take\<close> returns the empty array at once, as for zero: no
  listener is registered, no hook runs and nothing fails). The call needs no fuel, and the new
  store differs from the old one only in the record of the returned call.
\<close>

theorem take_negative:
  "cnt < 0 \<Longrightarrow>
     take_ev k h n cnt = take_ev k h n 0 \<and>
     take_ev k h n 0 = Some (h\<lparr>takes := takes h @ [Returned []]\<rparr>, length (takes h))"
  by (simp add: take_ev_def take_loop_def)

theorem take_negative_witness:
  "(-2 :: int) < 0 \<and>
   take_ev 0 (fst (singleEvent (init :: (int, string) state) ''me'')) 0 (-2) =
     take_ev 0 (fst (singleEvent init ''me'')) 0 0 \<and>
   take_ev 0 (fst (singleEvent (init :: (int, string) state) ''me'')) 0 0 =
     Some ((fst (singleEvent init ''me''))\<lparr>takes := [Returned []]\<rparr>, 0)"
proof -
  have neg: "(-2 :: int) < 0" by simp
  have b: "takes (fst (singleEvent (init :: (int, string) state) ''me'')) = []"
    by (simp add: singleEvent_def init_def)
  show ?thesis
    using neg take_negative[OF neg, of 0 "fst (singleEvent (init :: (int, string) state) ''me'')" 0]
    by (simp add: b)
qed


text \<open>
  C3 (\<^verbatim>\<open>filter\<close> and \<^verbatim>\<open>map\<close> register the new node as a child of its parent at
  construction, which runs the parent's connect hook when the parent had no listeners and no
  children). The constructor only stores the two closures: after \<^verbatim>\<open>ev.filter(...)\<close> and
  after \<^verbatim>\<open>ev.map(...)\<close> on a fresh source the new node is 1, the source has no child and no
  hook has run.
\<close>

theorem construction_registers_nothing:
  "map_option (\<lambda>(h1, c). (c, children (nodes h1 ! 0), trace h1))
     (filter_ev (fst (singleEvent (init :: (int, string) state) ''me'')) 0 (\<lambda>x. 0 < x)) =
     Some (1, [], []) \<and>
   map_option (\<lambda>(h1, c). (c, children (nodes h1 ! 0), trace h1))
     (map_ev (fst (singleEvent (init :: (int, string) state) ''me'')) 0 (\<lambda>x. 2 * x)) =
     Some (1, [], [])"
  by (simp add: filter_ev_def map_ev_def derive_def singleEvent_def init_def node_at_def Let_def)

text \<open>
  C3 as amended: \<^verbatim>\<open>filter\<close> and \<^verbatim>\<open>map\<close> append a node that has no listener and no child and
  whose hooks are the closures that add it to and remove it from the parent; they change
  nothing else (every existing node and the trace are as before). A derived node that has no
  listener and no child registers itself with its parent when it gets its first listener or
  its first child: \<^verbatim>\<open>listen\<close> and \<^verbatim>\<open>addChild\<close> on such a node return, the node is then a
  child of its parent, and the hooks run are the node's own connect hook, followed by the
  parent's connect hook exactly when the parent had no listeners and no children. On a derived
  node that has a listener or a child, \<^verbatim>\<open>listen\<close> and \<^verbatim>\<open>addChild\<close> only add the element
  to the set: no hook runs. This holds in every well-formed store.
\<close>

theorem derived_registers_when_first_observed:
  assumes "well_formed (h :: ('v, 's) state)" "length (nodes h) \<le> k"
  shows "(filter_ev h n pred = Some (h1, c') \<or> map_ev h n f = Some (h1, c') \<longrightarrow>
        c' = length (nodes h) \<and> take c' (nodes h1) = nodes h \<and> trace h1 = trace h \<and>
        well_formed h1 \<and> idle (nodes h1 ! c') \<and> connect (nodes h1 ! c') = AddChildHook n c' \<and>
        disconnect (nodes h1 ! c') = RemoveChildHook n c') \<and>
     (c < length (nodes h) \<and> connect (nodes h ! c) = AddChildHook p x \<longrightarrow>
        (\<exists>h2. listen (Suc k) h c l = Some h2 \<and> l \<in> set (listeners (nodes h2 ! c)) \<and>
           (if idle (nodes h ! c)
            then c \<in> set (children (nodes h2 ! p)) \<and>
                 (\<exists>t. delta h h2 = Connect c # (if idle (nodes h ! p) then Connect p # t else []))
            else h2 = put_node h c ((nodes h ! c)\<lparr>listeners := set_add l (listeners (nodes h ! c))\<rparr>))) \<and>
        (\<exists>h2. addChild (Suc k) h c d = Some h2 \<and> d \<in> set (children (nodes h2 ! c)) \<and>
           (if idle (nodes h ! c)
            then c \<in> set (children (nodes h2 ! p)) \<and>
                 (\<exists>t. delta h h2 = Connect c # (if idle (nodes h ! p) then Connect p # t else []))
            else h2 = put_node h c ((nodes h ! c)\<lparr>children := set_add d (children (nodes h ! c))\<rparr>))))"
proof -
  have A: "filter_ev h n pred = Some (h1, c') \<or> map_ev h n f = Some (h1, c') \<longrightarrow>
        c' = length (nodes h) \<and> take c' (nodes h1) = nodes h \<and> trace h1 = trace h \<and>
        well_formed h1 \<and> idle (nodes h1 ! c') \<and> connect (nodes h1 ! c') = AddChildHook n c' \<and>
        disconnect (nodes h1 ! c') = RemoveChildHook n c'"
  proof
    assume "filter_ev h n pred = Some (h1, c') \<or> map_ev h n f = Some (h1, c')"
    then obtain var where d: "derive h n var = Some (h1, c')"
      unfolding filter_ev_def map_ev_def by blast
    show "c' = length (nodes h) \<and> take c' (nodes h1) = nodes h \<and> trace h1 = trace h \<and>
        well_formed h1 \<and> idle (nodes h1 ! c') \<and> connect (nodes h1 ! c') = AddChildHook n c' \<and>
        disconnect (nodes h1 ! c') = RemoveChildHook n c'"
      using derive_fresh[OF assms(1) d] .
  qed
  have B: "c < length (nodes h) \<and> connect (nodes h ! c) = AddChildHook p x \<longrightarrow>
        (\<exists>h2. listen (Suc k) h c l = Some h2 \<and> l \<in> set (listeners (nodes h2 ! c)) \<and>
           (if idle (nodes h ! c)
            then c \<in> set (children (nodes h2 ! p)) \<and>
                 (\<exists>t. delta h h2 = Connect c # (if idle (nodes h ! p) then Connect p # t else []))
            else h2 = put_node h c ((nodes h ! c)\<lparr>listeners := set_add l (listeners (nodes h ! c))\<rparr>))) \<and>
        (\<exists>h2. addChild (Suc k) h c d = Some h2 \<and> d \<in> set (children (nodes h2 ! c)) \<and>
           (if idle (nodes h ! c)
            then c \<in> set (children (nodes h2 ! p)) \<and>
                 (\<exists>t. delta h h2 = Connect c # (if idle (nodes h ! p) then Connect p # t else []))
            else h2 = put_node h c ((nodes h ! c)\<lparr>children := set_add d (children (nodes h ! c))\<rparr>)))"
  proof
    assume a: "c < length (nodes h) \<and> connect (nodes h ! c) = AddChildHook p x"
    then have c: "c < length (nodes h)" and hk: "connect (nodes h ! c) = AddChildHook p x"
      by simp_all
    show "(\<exists>h2. listen (Suc k) h c l = Some h2 \<and> l \<in> set (listeners (nodes h2 ! c)) \<and>
           (if idle (nodes h ! c)
            then c \<in> set (children (nodes h2 ! p)) \<and>
                 (\<exists>t. delta h h2 = Connect c # (if idle (nodes h ! p) then Connect p # t else []))
            else h2 = put_node h c ((nodes h ! c)\<lparr>listeners := set_add l (listeners (nodes h ! c))\<rparr>))) \<and>
        (\<exists>h2. addChild (Suc k) h c d = Some h2 \<and> d \<in> set (children (nodes h2 ! c)) \<and>
           (if idle (nodes h ! c)
            then c \<in> set (children (nodes h2 ! p)) \<and>
                 (\<exists>t. delta h h2 = Connect c # (if idle (nodes h ! p) then Connect p # t else []))
            else h2 = put_node h c ((nodes h ! c)\<lparr>children := set_add d (children (nodes h ! c))\<rparr>)))"
      using listen_registers[OF assms(1) c hk assms(2), of l]
        addChild_registers[OF assms(1) c hk assms(2), of d]
      by (rule conjI)
  qed
  show ?thesis using A B by (rule conjI)
qed

theorem derived_registers_when_first_observed_witness:
  "well_formed fresh \<and> length (nodes fresh) \<le> 3 \<and>
   filter_ev (fst (singleEvent (init :: (int, string) state) ''me'')) 0 (\<lambda>x. 0 < x) =
     Some (fst (the (filter_ev (fst (singleEvent init ''me'')) 0 (\<lambda>x. 0 < x))), 1) \<and>
   idle (nodes (fst (the (filter_ev (fst (singleEvent (init :: (int, string) state) ''me'')) 0 (\<lambda>x. 0 < x)))) ! 1) \<and>
   2 < length (nodes fresh) \<and> connect (nodes fresh ! 2) = AddChildHook 1 2 \<and>
   idle (nodes fresh ! 2) \<and> idle (nodes fresh ! 1) \<and>
   (\<exists>h2. listen 4 fresh 2 (Ext 7) = Some h2 \<and> Ext 7 \<in> set (listeners (nodes h2 ! 2)) \<and>
      2 \<in> set (children (nodes h2 ! 1)) \<and> (\<exists>t. delta fresh h2 = Connect 2 # Connect 1 # t)) \<and>
   (\<exists>h2. addChild 4 fresh 2 5 = Some h2 \<and> 5 \<in> set (children (nodes h2 ! 2)) \<and>
      2 \<in> set (children (nodes h2 ! 1)) \<and> (\<exists>t. delta fresh h2 = Connect 2 # Connect 1 # t)) \<and>
   map_option (\<lambda>g. (trace g, map children (nodes g), map listeners (nodes g)))
     (listen 4 fresh 2 (Ext 7)) =
     Some ([Connect 2, Connect 1, Connect 0], [[1], [2], []], [[], [], [Ext 7]]) \<and>
   (case listen 4 fresh 2 (Ext 7) of None \<Rightarrow> None
    | Some a \<Rightarrow>
        map_option (\<lambda>g. (trace g, map children (nodes g), map listeners (nodes g)))
          (listen 4 a 1 (Ext 8))) =
     Some ([Connect 2, Connect 1, Connect 0], [[1], [2], []], [[], [Ext 8], [Ext 7]])"
proof -
  let ?s = "fst (singleEvent (init :: (int, string) state) ''me'')"
  let ?h1 = "fst (the (filter_ev ?s 0 (\<lambda>x. 0 < x)))"
  have ws: "well_formed ?s" using singleEvent_well_formed[OF init_well_formed] .
  have ls: "length (nodes ?s) \<le> 1" by (simp add: singleEvent_def init_def)
  have b: "length (nodes fresh) \<le> 3" by (simp add: fresh_def)
  have c: "filter_ev ?s 0 (\<lambda>x. 0 < x) = Some (?h1, 1)"
    by (simp add: filter_ev_def derive_def singleEvent_def init_def node_at_def Let_def)
  have d: "2 < length (nodes fresh)" "connect (nodes fresh ! 2) = AddChildHook 1 2"
    "idle (nodes fresh ! 2)" "idle (nodes fresh ! 1)"
    by (simp_all add: fresh_def idle_def)
  have e: "map_option (\<lambda>g. (trace g, map children (nodes g), map listeners (nodes g)))
     (listen 4 fresh 2 (Ext 7)) =
     Some ([Connect 2, Connect 1, Connect 0], [[1], [2], []], [[], [], [Ext 7]])"
    by code_simp
  have f: "(case listen 4 fresh 2 (Ext 7) of None \<Rightarrow> None
    | Some a \<Rightarrow>
        map_option (\<lambda>g. (trace g, map children (nodes g), map listeners (nodes g)))
          (listen 4 a 1 (Ext 8))) =
     Some ([Connect 2, Connect 1, Connect 0], [[1], [2], []], [[], [Ext 8], [Ext 7]])"
    by code_simp
  have g: "idle (nodes ?h1 ! 1)"
    using derived_registers_when_first_observed[OF ws ls, of 0 "\<lambda>x. 0 < x" ?h1 1] c by blast
  have i: "(\<exists>h2. listen 4 fresh 2 (Ext 7) = Some h2 \<and> Ext 7 \<in> set (listeners (nodes h2 ! 2)) \<and>
      2 \<in> set (children (nodes h2 ! 1)) \<and> (\<exists>t. delta fresh h2 = Connect 2 # Connect 1 # t)) \<and>
   (\<exists>h2. addChild 4 fresh 2 5 = Some h2 \<and> 5 \<in> set (children (nodes h2 ! 2)) \<and>
      2 \<in> set (children (nodes h2 ! 1)) \<and> (\<exists>t. delta fresh h2 = Connect 2 # Connect 1 # t))"
    using derived_registers_when_first_observed[OF fresh_well_formed b,
        where c = 2 and p = 1 and x = 2 and l = "Ext 7" and d = 5] d
    by (simp add: eval_nat_numeral)
  show ?thesis using fresh_well_formed b c d e f g i by blast
qed


text \<open>
  C4 (one firing of a node calls its listeners in the order they were registered, each with
  the value and the sender, and only then fires the children, each child's whole subtree
  before the next child). With enough fuel \<^verbatim>\<open>_notifyListeners\<close> returns; its first loop
  returns a store \<open>h1\<close>, and the listener calls made up to \<open>h1\<close> are exactly one call per
  registered listener, in registration order, with the value and the node's sender (a listener
  made by \<^verbatim>\<open>next()\<close> removes itself meanwhile, which skips nobody). Every event of the
  children follows all of those. In the second loop a child that is reached is fired to its end
  before the rest of the children, and all its events precede theirs.
\<close>

theorem notify_order:
  assumes "well_formed (h :: ('v, 's) state)" "n < length (nodes h)" "enough h k"
  shows "\<exists>h1 h'. notify_loop k h n (listeners (nodes h ! n)) v = Some h1 \<and>
     filter is_Call (delta h h1) =
       map (\<lambda>l. Call l v (sender (nodes h ! n))) (listeners (nodes h ! n)) \<and>
     trigger_children k h1 n (children (nodes h1 ! n)) v = Some h' \<and>
     notifyListeners k h n v = Some h' \<and>
     delta h h' = delta h h1 @ delta h1 h' \<and>
     (\<forall>(g :: ('v, 's) state) c cs g'.
        trigger_children k g n (c # cs) v = Some g' \<and> c \<in> set (children (nodes g ! n)) \<longrightarrow>
        (\<exists>g1. trigger k g c v = Some g1 \<and> trigger_children k g1 n cs v = Some g' \<and>
           delta g g' = delta g g1 @ delta g1 g'))"
proof -
  have nd: "node_at h n = Some (nodes h ! n)" using assms(2) by (simp add: node_at_def)
  obtain h' where run: "notifyListeners k h n v = Some h'"
    using trigger_total(2)[OF assms(1,2) enough_notify[OF assms(3)]] by blast
  obtain h1 where l1: "notify_loop k h n (listeners (nodes h ! n)) v = Some h1"
    and c1: "trigger_children k h1 n (children (nodes h1 ! n)) v = Some h'"
    using run nd by (auto split: option.splits)
  have lo: "listeners_ok h" using assms(1) by (simp add: well_formed_def)
  have dl: "distinct (listeners (nodes h ! n))" using listeners_ok_distinct[OF lo assms(2)] .
  note a = notify_loop_all[OF l1 assms(2) dl subset_refl]
  have calls: "filter is_Call (delta h h1) =
       map (\<lambda>l. Call l v (sender (nodes h ! n))) (listeners (nodes h ! n))"
    using a by blast
  have sh1: "shrinks h h1" using a by blast
  have sh2: "shrinks h1 h'" using trigger_shrinks(3)[OF c1] .
  have split: "delta h h' = delta h h1 @ delta h1 h'"
    using delta_trans[OF shrinksD(5)[OF sh1] shrinksD(5)[OF sh2]] .
  have depth: "\<forall>(g :: ('v, 's) state) c cs g'.
        trigger_children k g n (c # cs) v = Some g' \<and> c \<in> set (children (nodes g ! n)) \<longrightarrow>
        (\<exists>g1. trigger k g c v = Some g1 \<and> trigger_children k g1 n cs v = Some g' \<and>
           delta g g' = delta g g1 @ delta g1 g')"
  proof (intro allI impI)
    fix g :: "('v, 's) state" and c cs g'
    assume b: "trigger_children k g n (c # cs) v = Some g' \<and> c \<in> set (children (nodes g ! n))"
    then obtain g1 where t1: "trigger k g c v = Some g1"
      and r1: "trigger_children k g1 n cs v = Some g'"
      by (auto split: option.splits)
    have "delta g g' = delta g g1 @ delta g1 g'"
      using delta_trans[OF shrinksD(5)[OF trigger_shrinks(1)[OF t1]]
          shrinksD(5)[OF trigger_shrinks(3)[OF r1]]] .
    then show "\<exists>g1. trigger k g c v = Some g1 \<and> trigger_children k g1 n cs v = Some g' \<and>
           delta g g' = delta g g1 @ delta g1 g'"
      using t1 r1 by blast
  qed
  show ?thesis using l1 calls c1 run split depth by blast
qed

theorem notify_order_witness:
  "well_formed demo \<and> 0 < length (nodes demo) \<and> enough demo 11 \<and>
   (\<exists>h1 h'. notify_loop 11 demo 0 (listeners (nodes demo ! 0)) 5 = Some h1 \<and>
     filter is_Call (delta demo h1) =
       map (\<lambda>l. Call l 5 (sender (nodes demo ! 0))) (listeners (nodes demo ! 0)) \<and>
     trigger_children 11 h1 0 (children (nodes h1 ! 0)) 5 = Some h' \<and>
     notifyListeners 11 demo 0 5 = Some h' \<and>
     delta demo h' = delta demo h1 @ delta h1 h' \<and>
     (\<forall>(g :: (int, string) state) c cs g'.
        trigger_children 11 g 0 (c # cs) 5 = Some g' \<and> c \<in> set (children (nodes g ! 0)) \<longrightarrow>
        (\<exists>g1. trigger 11 g c 5 = Some g1 \<and> trigger_children 11 g1 0 cs 5 = Some g' \<and>
           delta g g' = delta g g1 @ delta g1 g'))) \<and>
   map_option trace (notifyListeners 11 demo 0 5) =
     Some [Call (Ext 1) 5 ''me'', Call (Ext 2) 5 ''me'', Test 1 5, Call (Ext 3) 5 ''me'',
           Call (Ext 4) 10 ''me'']"
proof -
  have b: "0 < length (nodes demo)" by (simp add: demo_def)
  have t: "map_option trace (notifyListeners 11 demo 0 5) =
     Some [Call (Ext 1) 5 ''me'', Call (Ext 2) 5 ''me'', Test 1 5, Call (Ext 3) 5 ''me'',
           Call (Ext 4) 10 ''me'']"
    by code_simp
  show ?thesis
    using demo_well_formed b demo_enough notify_order[OF demo_well_formed b demo_enough, of 5] t
    by blast
qed


text \<open>
  C5 (when the parent of a node created by \<^verbatim>\<open>filter(p)\<close> fires with \<open>v\<close>, the node notifies
  its listeners and children with \<open>v\<close> if and only if \<open>p\<close> accepts \<open>v\<close>, and \<open>p\<close> is evaluated
  exactly once per firing of the parent). The parent fires its children only, and
  \<^verbatim>\<open>filter\<close> does not make the new node a child: after \<^verbatim>\<open>f = ev.filter(p)\<close> and
  \<^verbatim>\<open>ev.listen(l)\<close>, the firing of \<open>ev\<close> with 5 calls \<open>l\<close> and never evaluates \<open>p\<close>.
\<close>

theorem filter_unattached_not_tested:
  "(case filter_ev (fst (singleEvent (init :: (int, string) state) ''me'')) 0 (\<lambda>x. 0 < x) of
      None \<Rightarrow> None
    | Some (a, f) \<Rightarrow>
        (case listen 2 a 0 (Ext 1) of None \<Rightarrow> None
         | Some b \<Rightarrow>
             map_option (\<lambda>g. (f, map children (nodes g), trace g, filter (tests_of f) (trace g)))
               (trigger 9 b 0 5))) =
   Some (1, [[], []], [Connect 0, Call (Ext 1) 5 ''me''], [])"
  by code_simp

text \<open>
  C5 as amended: the claim holds of a filter node while it is attached, that is, a child of its
  parent, which a derived node is from its first listener or child on (C3). In a store as the
  library builds it (well formed, every child attached to the one node its hooks name, every
  attached node with a listener or a child: the constructors, \<^verbatim>\<open>listen\<close>, \<^verbatim>\<open>unlisten\<close>,
  \<^verbatim>\<open>next\<close>, \<^verbatim>\<open>take\<close> and every firing keep these three), let \<open>c\<close> be a filter node
  with predicate \<open>pred\<close> that was derived from \<open>n\<close>. With enough fuel a firing of \<open>n\<close> with
  \<open>v\<close> (\<^verbatim>\<open>_notifyListeners(v)\<close> of \<open>n\<close>, which for a source is its trigger function)
  returns. If \<open>c\<close> is a child of \<open>n\<close>, then at some store \<open>g\<close> on the way the firing calls
  \<^verbatim>\<open>_trigger(v)\<close> of \<open>c\<close>, which is as the firing began (same listeners, same children);
  \<open>pred\<close> of \<open>c\<close> is evaluated exactly once in the whole firing, with \<open>v\<close>; and either
  \<open>pred v\<close> holds and that call is \<^verbatim>\<open>_notifyListeners(v)\<close> of \<open>c\<close>, whose listener calls
  start with one call per listener of \<open>c\<close> with \<open>v\<close> and the sender, followed by the children
  of \<open>c\<close>, or it does not hold and the evaluation is all that the call did: no listener is
  called and no child is fired. If \<open>c\<close> is not a child of \<open>n\<close>, the firing never evaluates
  \<open>pred\<close> of \<open>c\<close>.
\<close>

theorem filter_attached_fires_iff_accepted:
  assumes "well_formed (h :: ('v, 's) state)" "tree_ok h" "attached_ok h" "n < length (nodes h)"
    "c < length (nodes h)" "connect (nodes h ! c) = AddChildHook n x"
    "variant (nodes h ! c) = FilterEvent pred" "enough h k"
  shows "\<exists>h'. notifyListeners (Suc k) h n v = Some h' \<and>
     (if c \<in> set (children (nodes h ! n))
      then \<exists>g g'. trigger (Suc k) g c v = Some g' \<and>
             delta h h' = delta h g @ delta g g' @ delta g' h' \<and>
             nodes g ! c = nodes h ! c \<and>
             filter (tests_of c) (delta h h') = [Test c v] \<and>
             (if pred v
              then notifyListeners k (emit (Test c v) g) c v = Some g' \<and>
                   (\<exists>t. filter is_Call (delta g g') =
                      map (\<lambda>l. Call l v (sender (nodes h ! c))) (listeners (nodes h ! c)) @ t)
              else g' = emit (Test c v) g \<and> filter is_Call (delta g g') = [])
      else filter (tests_of c) (delta h h') = [])"
proof -
  have lk: "links_ok h" and hk: "hooks_ok h" using assms(1) by (simp_all add: well_formed_def)
  have c: "c < length (nodes h)" using assms(5) .
  have nc: "n < c" using hooks_ok_connect[OF hk assms(5,6)] by simp
  have nd: "node_at h n = Some (nodes h ! n)" using assms(4) by (simp add: node_at_def)
  have fuel: "3 * length (nodes h) + 1 \<le> Suc k + n" using assms(8) by (simp add: enough_def)
  obtain h' where run: "notifyListeners (Suc k) h n v = Some h'"
    using trigger_total(2)[OF assms(1,4) fuel] by blast
  show ?thesis
  proof (cases "c \<in> set (children (nodes h ! n))")
    case True
    obtain h1 where l1: "notify_loop (Suc k) h n (listeners (nodes h ! n)) v = Some h1"
      and c1: "trigger_children (Suc k) h1 n (children (nodes h1 ! n)) v = Some h'"
      using run nd by (auto split: option.splits)
    have ne: "children (nodes h ! n) \<noteq> []" using True by auto
    have cm: "calm n h h1" using notify_loop_calm[OF l1 assms(1,3,4) ne] .
    note s1 = calmD(1)[OF cm]
    note w1 = shrinks_tree[OF assms(1,2) s1]
    have n1: "n < length (nodes h1)" using shrinksD(2)[OF s1] assms(4) by simp
    have ch1: "children (nodes h1 ! n) = children (nodes h ! n)" using calmD(3)[OF cm] .
    have cin: "c \<in> set (children (nodes h1 ! n))" using True ch1 by simp
    have lk1: "links_ok h1" using w1(1) by (simp add: well_formed_def)
    have dc: "distinct (children (nodes h1 ! n))" using links_ok_distinct[OF lk1 n1] .
    obtain g g' where q1: "quiet c h1 g" and t: "trigger (Suc k) g c v = Some g'"
      and q2: "quiet c g' h'"
      using children_reach[OF c1 w1 n1 cin dc cin] by blast
    note sg = quietD(1)[OF q1]
    have shg: "shrinks h g" using shrinks_trans[OF s1 sg] .
    have wg: "well_formed g" using shrinks_well_formed[OF assms(1) shg] .
    have lg: "length (nodes g) = length (nodes h)" using shrinksD(2)[OF shg] .
    have cg: "c < length (nodes g)" using c lg by simp
    have c1l: "c < length (nodes h1)" using c shrinksD(2)[OF s1] by simp
    have same1: "nodes h1 ! c = nodes h ! c" using calmD(2)[OF cm c] nc by simp
    have same2: "nodes g ! c = nodes h1 ! c" using quietD(2)[OF q1 c1l below.below_self] .
    have same: "nodes g ! c = nodes h ! c" using same1 same2 by simp
    have vg: "variant (nodes g ! c) = FilterEvent pred" using assms(7) same by simp
    have eg: "enough g k" using assms(8) lg by (simp add: enough_def)
    obtain g0 where t0: "trigger (Suc k) g c v = Some g0"
      and tests: "filter (tests_of c) (delta g g0) = [Test c v]"
      and eff: "if pred v
        then notifyListeners k (emit (Test c v) g) c v = Some g0 \<and>
             (\<exists>t. filter is_Call (delta g g0) =
                map (\<lambda>l. Call l v (sender (nodes g ! c))) (listeners (nodes g ! c)) @ t)
        else g0 = emit (Test c v) g \<and> filter is_Call (delta g g0) = []"
      using trigger_filter[OF wg cg vg eg, of v] by blast
    have g0: "g0 = g'" using t t0 by simp
    have sgg: "shrinks g g'" using trigger_shrinks(1)[OF t] .
    note sgh = quietD(1)[OF q2]
    have d1: "delta h g = delta h h1 @ delta h1 g"
      using delta_trans[OF shrinksD(5)[OF s1] shrinksD(5)[OF sg]] .
    have d2: "delta g h' = delta g g' @ delta g' h'"
      using delta_trans[OF shrinksD(5)[OF sgg] shrinksD(5)[OF sgh]] .
    have d3: "delta h h' = delta h g @ delta g h'"
      using delta_trans[OF shrinksD(5)[OF shg] shrinksD(5)[OF shrinks_trans[OF sgg sgh]]] .
    have A: "delta h h' = delta h g @ delta g g' @ delta g' h'" using d2 d3 by simp
    have calls: "list_all is_Call (delta h h1)" using calmD(4)[OF cm] .
    have no1: "filter (tests_of c) (delta h h1) = []" using no_tests_in_calls[OF calls] .
    have B: "filter (tests_of c) (delta h h') = [Test c v]"
      using A d1 no1 quietD(4)[OF q1] quietD(4)[OF q2] tests g0 by simp
    have D: "if pred v
        then notifyListeners k (emit (Test c v) g) c v = Some g' \<and>
             (\<exists>t. filter is_Call (delta g g') =
                map (\<lambda>l. Call l v (sender (nodes h ! c))) (listeners (nodes h ! c)) @ t)
        else g' = emit (Test c v) g \<and> filter is_Call (delta g g') = []"
      using eff unfolding g0 same .
    have X: "\<exists>g g'. trigger (Suc k) g c v = Some g' \<and>
             delta h h' = delta h g @ delta g g' @ delta g' h' \<and>
             nodes g ! c = nodes h ! c \<and>
             filter (tests_of c) (delta h h') = [Test c v] \<and>
             (if pred v
              then notifyListeners k (emit (Test c v) g) c v = Some g' \<and>
                   (\<exists>t. filter is_Call (delta g g') =
                      map (\<lambda>l. Call l v (sender (nodes h ! c))) (listeners (nodes h ! c)) @ t)
              else g' = emit (Test c v) g \<and> filter is_Call (delta g g') = [])"
      using t A same B D by blast
    have "notifyListeners (Suc k) h n v = Some h' \<and>
     (if c \<in> set (children (nodes h ! n))
      then \<exists>g g'. trigger (Suc k) g c v = Some g' \<and>
             delta h h' = delta h g @ delta g g' @ delta g' h' \<and>
             nodes g ! c = nodes h ! c \<and>
             filter (tests_of c) (delta h h') = [Test c v] \<and>
             (if pred v
              then notifyListeners k (emit (Test c v) g) c v = Some g' \<and>
                   (\<exists>t. filter is_Call (delta g g') =
                      map (\<lambda>l. Call l v (sender (nodes h ! c))) (listeners (nodes h ! c)) @ t)
              else g' = emit (Test c v) g \<and> filter is_Call (delta g g') = [])
      else filter (tests_of c) (delta h h') = [])"
      using run X True by (simp only: if_True simp_thms)
    then show ?thesis by (rule exI)
  next
    case False
    have "filter (tests_of c) (delta h h') = []"
      using trigger_untested(2)[OF run unattached_orphan[OF assms(2,6) False]] .
    then have "notifyListeners (Suc k) h n v = Some h' \<and>
     (if c \<in> set (children (nodes h ! n))
      then \<exists>g g'. trigger (Suc k) g c v = Some g' \<and>
             delta h h' = delta h g @ delta g g' @ delta g' h' \<and>
             nodes g ! c = nodes h ! c \<and>
             filter (tests_of c) (delta h h') = [Test c v] \<and>
             (if pred v
              then notifyListeners k (emit (Test c v) g) c v = Some g' \<and>
                   (\<exists>t. filter is_Call (delta g g') =
                      map (\<lambda>l. Call l v (sender (nodes h ! c))) (listeners (nodes h ! c)) @ t)
              else g' = emit (Test c v) g \<and> filter is_Call (delta g g') = [])
      else filter (tests_of c) (delta h h') = [])"
      using run False by (simp only: if_False simp_thms)
    then show ?thesis by (rule exI)
  qed
qed

theorem filter_attached_fires_iff_accepted_witness:
  "well_formed demo \<and> tree_ok demo \<and> attached_ok demo \<and> 0 < length (nodes demo) \<and>
   1 < length (nodes demo) \<and> connect (nodes demo ! 1) = AddChildHook 0 1 \<and>
   variant (nodes demo ! 1) = FilterEvent (\<lambda>x. 0 < x) \<and> enough demo 11 \<and>
   1 \<in> set (children (nodes demo ! 0)) \<and>
   (\<exists>h'. notifyListeners (Suc 11) demo 0 5 = Some h' \<and>
     (\<exists>g g'. trigger (Suc 11) g 1 5 = Some g' \<and>
        delta demo h' = delta demo g @ delta g g' @ delta g' h' \<and>
        nodes g ! 1 = nodes demo ! 1 \<and>
        filter (tests_of 1) (delta demo h') = [Test 1 5] \<and>
        notifyListeners 11 (emit (Test 1 5) g) 1 5 = Some g' \<and>
        (\<exists>t. filter is_Call (delta g g') =
           map (\<lambda>l. Call l 5 (sender (nodes demo ! 1))) (listeners (nodes demo ! 1)) @ t))) \<and>
   map_option trace (notifyListeners 12 demo 0 5) =
     Some [Call (Ext 1) 5 ''me'', Call (Ext 2) 5 ''me'', Test 1 5, Call (Ext 3) 5 ''me'',
           Call (Ext 4) 10 ''me''] \<and>
   map_option trace (notifyListeners 12 demo 0 (- 1)) =
     Some [Call (Ext 1) (- 1) ''me'', Call (Ext 2) (- 1) ''me'', Test 1 (- 1)] \<and>
   well_formed fresh \<and> tree_ok fresh \<and> attached_ok fresh \<and> enough fresh 11 \<and>
   1 \<notin> set (children (nodes fresh ! 0)) \<and>
   (\<exists>h'. notifyListeners (Suc 11) fresh 0 5 = Some h' \<and> filter (tests_of 1) (delta fresh h') = [])"
proof -
  have b: "0 < length (nodes demo)" "1 < length (nodes demo)"
    "connect (nodes demo ! 1) = AddChildHook 0 1" by (simp_all add: demo_def)
  have m: "1 \<in> set (children (nodes demo ! 0))" by (simp add: demo_def)
  have c: "variant (nodes demo ! 1) = FilterEvent (\<lambda>x. 0 < x)" by (simp add: demo_def)
  have t: "map_option trace (notifyListeners 12 demo 0 5) =
     Some [Call (Ext 1) 5 ''me'', Call (Ext 2) 5 ''me'', Test 1 5, Call (Ext 3) 5 ''me'',
           Call (Ext 4) 10 ''me'']"
    by code_simp
  have u: "map_option trace (notifyListeners 12 demo 0 (- 1)) =
     Some [Call (Ext 1) (- 1) ''me'', Call (Ext 2) (- 1) ''me'', Test 1 (- 1)]"
    by code_simp
  have pos: "(0 :: int) < 5" by simp
  have A: "\<exists>h'. notifyListeners (Suc 11) demo 0 5 = Some h' \<and>
     (\<exists>g g'. trigger (Suc 11) g 1 5 = Some g' \<and>
        delta demo h' = delta demo g @ delta g g' @ delta g' h' \<and>
        nodes g ! 1 = nodes demo ! 1 \<and>
        filter (tests_of 1) (delta demo h') = [Test 1 5] \<and>
        notifyListeners 11 (emit (Test 1 5) g) 1 5 = Some g' \<and>
        (\<exists>t. filter is_Call (delta g g') =
           map (\<lambda>l. Call l 5 (sender (nodes demo ! 1))) (listeners (nodes demo ! 1)) @ t))"
    using filter_attached_fires_iff_accepted[OF demo_well_formed demo_tree b c demo_enough, of 5]
      m pos
    by (simp only: if_True simp_thms)
  have fb: "0 < length (nodes fresh)" "1 < length (nodes fresh)"
    "connect (nodes fresh ! 1) = AddChildHook 0 1"
    "variant (nodes fresh ! 1) = FilterEvent (\<lambda>x. 0 < x)" by (simp_all add: fresh_def)
  have fe: "enough fresh 11" by (simp add: enough_def fresh_def)
  have fm: "1 \<notin> set (children (nodes fresh ! 0))" by (simp add: fresh_def)
  have B: "\<exists>h'. notifyListeners (Suc 11) fresh 0 5 = Some h' \<and> filter (tests_of 1) (delta fresh h') = []"
    using filter_attached_fires_iff_accepted[OF fresh_well_formed fresh_tree fb fe, of 5] fm
    by (simp only: if_False simp_thms)
  show ?thesis
    using demo_well_formed demo_tree b c demo_enough m A t u fresh_well_formed fresh_tree fe fm B
    by blast
qed



text \<open>
  C7 (in a tree rooted at a source made with sender \<open>s\<close>, every listener call on the root and
  on every derived node gets \<open>s\<close> as its second argument). The source made by
  \<^verbatim>\<open>singleEvent(s, ...)\<close> has sender \<open>s\<close>, a node made by \<^verbatim>\<open>filter\<close> or \<^verbatim>\<open>map\<close> has the
  sender of the node it was made from, and both keep the store well formed, which includes that
  a child has the sender of its parent. In a well-formed store a firing of any node returns,
  and every listener call it makes, on the node or anywhere below it, passes the sender of the
  fired node.
\<close>

theorem sender_propagation:
  assumes "well_formed (h :: ('v, 's) state)" "n < length (nodes h)" "enough h k"
  shows "(\<exists>h'. trigger k h n v = Some h' \<and> list_all (sent_by (sender (nodes h ! n))) (delta h h')) \<and>
     (\<forall>h1 c pred f. filter_ev h n pred = Some (h1, c) \<or> map_ev h n f = Some (h1, c) \<longrightarrow>
        well_formed h1 \<and> sender (nodes h1 ! c) = sender (nodes h ! n)) \<and>
     well_formed (fst (singleEvent h s)) \<and>
     sender (nodes (fst (singleEvent h s)) ! snd (singleEvent h s)) = s"
proof -
  obtain h' where run: "trigger k h n v = Some h'"
    using trigger_total(1)[OF assms(1,2) enough_trigger[OF assms(3)]] by blast
  have "list_all (ev_ok h (sender (nodes h ! n)) n) (delta h h')"
    using trigger_events(1)[OF assms(1,2) run] by blast
  then have "list_all (sent_by (sender (nodes h ! n))) (delta h h')"
    by (rule ev_ok_sent_by)
  then have A: "\<exists>h'. trigger k h n v = Some h' \<and> list_all (sent_by (sender (nodes h ! n))) (delta h h')"
    using run by blast
  have B: "\<forall>h1 c pred f. filter_ev h n pred = Some (h1, c) \<or> map_ev h n f = Some (h1, c) \<longrightarrow>
        well_formed h1 \<and> sender (nodes h1 ! c) = sender (nodes h ! n)"
  proof (intro allI impI)
    fix h1 c pred f
    assume "filter_ev h n pred = Some (h1, c) \<or> map_ev h n f = Some (h1, c)"
    then obtain var where d: "derive h n var = Some (h1, c)"
      unfolding filter_ev_def map_ev_def by blast
    note e = derive_effect[OF assms(1) d]
    have "sender (nodes h1 ! c) = sender (nodes h ! n)" unfolding e(3) using e(2) by simp
    then show "well_formed h1 \<and> sender (nodes h1 ! c) = sender (nodes h ! n)" using e(4) by simp
  qed
  have C: "well_formed (fst (singleEvent h s))" using singleEvent_well_formed[OF assms(1)] .
  have D: "sender (nodes (fst (singleEvent h s)) ! snd (singleEvent h s)) = s"
    by (simp add: singleEvent_def)
  show ?thesis using A B C D by blast
qed

theorem sender_propagation_witness:
  "well_formed demo \<and> 0 < length (nodes demo) \<and> enough demo 11 \<and>
   (\<exists>h'. trigger 11 demo 0 5 = Some h' \<and> list_all (sent_by (sender (nodes demo ! 0))) (delta demo h')) \<and>
   sender (nodes demo ! 0) = ''me'' \<and>
   map_option trace (trigger 11 demo 0 5) =
     Some [Call (Ext 1) 5 ''me'', Call (Ext 2) 5 ''me'', Test 1 5, Call (Ext 3) 5 ''me'',
           Call (Ext 4) 10 ''me'']"
proof -
  have b: "0 < length (nodes demo)" by (simp add: demo_def)
  have s: "sender (nodes demo ! 0) = ''me''" by (simp add: demo_def)
  have t: "map_option trace (trigger 11 demo 0 5) =
     Some [Call (Ext 1) 5 ''me'', Call (Ext 2) 5 ''me'', Test 1 5, Call (Ext 3) 5 ''me'',
           Call (Ext 4) 10 ''me'']"
    by code_simp
  show ?thesis
    using demo_well_formed b demo_enough
      sender_propagation[OF demo_well_formed b demo_enough, of 5 "''me''"] s t
    by blast
qed

text \<open>
  C8 (\<^verbatim>\<open>next()\<close> returns a promise that resolves with the first value fired after the
  registration, and its one-shot listener removes itself on delivery, so it is called at most
  once however often the node fires afterwards). With enough fuel \<^verbatim>\<open>next()\<close> returns a new,
  pending promise \<open>p\<close> and leaves its listener \<open>Once n p\<close> registered on the node. From any
  well-formed store where that listener is registered and the promise is pending, a firing of
  the node with \<open>v\<close> returns, settles the promise with \<open>v\<close>, calls the listener exactly once
  and leaves it registered nowhere. From then on a firing of any node with any value returns,
  never calls the listener, and leaves the promise at \<open>v\<close>.
\<close>

theorem next_resolves_once:
  assumes "well_formed (h :: ('v, 's) state)" "n < length (nodes h)" "enough h k"
  shows "\<exists>h1 p. p = length (promises h) \<and> next_ev k h n = Some (h1, p) \<and> well_formed h1 \<and>
     enough h1 k \<and> p < length (promises h1) \<and> promises h1 ! p = None \<and>
     Once n p \<in> set (listeners (nodes h1 ! n)) \<and>
     (\<forall>(g :: ('v, 's) state) v.
        well_formed g \<and> n < length (nodes g) \<and> enough g k \<and> p < length (promises g) \<and>
        promises g ! p = None \<and> Once n p \<in> set (listeners (nodes g ! n)) \<longrightarrow>
        (\<exists>g'. notifyListeners k g n v = Some g' \<and> well_formed g' \<and> promises g' ! p = Some v \<and>
           \<not> registered g' (Once n p) \<and>
           filter (calls_of (Once n p)) (delta g g') = [Call (Once n p) v (sender (nodes g ! n))])) \<and>
     (\<forall>(g :: ('v, 's) state) x w v.
        well_formed g \<and> x < length (nodes g) \<and> enough g k \<and> p < length (promises g) \<and>
        promises g ! p = Some v \<and> \<not> registered g (Once n p) \<longrightarrow>
        (\<exists>g'. trigger k g x w = Some g' \<and> well_formed g' \<and> promises g' ! p = Some v \<and>
           \<not> registered g' (Once n p) \<and> filter (calls_of (Once n p)) (delta g g') = []))"
proof -
  let ?p = "length (promises h)"
  have nk: "n < k" using enough_connect[OF assms(3,2)] .
  obtain h1 where N: "next_ev k h n = Some (h1, ?p)" and wf1: "well_formed h1"
    and st: "map static (nodes h1) = map static (nodes h)"
    and pr: "promises h1 = promises h @ [None]"
    and ls: "listeners (nodes h1 ! n) = set_add (Once n ?p) (listeners (nodes h ! n))"
    using next_ev_effect[OF assms(1,2) nk] by blast
  have A: "enough h1 k" using enough_static[OF st assms(3)] .
  have B: "?p < length (promises h1)" "promises h1 ! ?p = None" using pr by simp_all
  have C: "Once n ?p \<in> set (listeners (nodes h1 ! n))" using ls by (simp add: set_add_set)
  have D: "\<forall>(g :: ('v, 's) state) v.
        well_formed g \<and> n < length (nodes g) \<and> enough g k \<and> ?p < length (promises g) \<and>
        promises g ! ?p = None \<and> Once n ?p \<in> set (listeners (nodes g ! n)) \<longrightarrow>
        (\<exists>g'. notifyListeners k g n v = Some g' \<and> well_formed g' \<and> promises g' ! ?p = Some v \<and>
           \<not> registered g' (Once n ?p) \<and>
           filter (calls_of (Once n ?p)) (delta g g') = [Call (Once n ?p) v (sender (nodes g ! n))])"
  proof (intro allI impI)
    fix g :: "('v, 's) state" and v
    assume a: "well_formed g \<and> n < length (nodes g) \<and> enough g k \<and> ?p < length (promises g) \<and>
        promises g ! ?p = None \<and> Once n ?p \<in> set (listeners (nodes g ! n))"
    have "\<exists>g'. notifyListeners k g n v = Some g' \<and> well_formed g' \<and> shrinks g g' \<and>
       promises g' ! ?p = Some v \<and> \<not> registered g' (Once n ?p) \<and>
       filter (calls_of (Once n ?p)) (delta g g') = [Call (Once n ?p) v (sender (nodes g ! n))]"
      by (rule notify_settles) (use a in blast)+
    then show "\<exists>g'. notifyListeners k g n v = Some g' \<and> well_formed g' \<and> promises g' ! ?p = Some v \<and>
           \<not> registered g' (Once n ?p) \<and>
           filter (calls_of (Once n ?p)) (delta g g') = [Call (Once n ?p) v (sender (nodes g ! n))]"
      by blast
  qed
  have E: "\<forall>(g :: ('v, 's) state) x w v.
        well_formed g \<and> x < length (nodes g) \<and> enough g k \<and> ?p < length (promises g) \<and>
        promises g ! ?p = Some v \<and> \<not> registered g (Once n ?p) \<longrightarrow>
        (\<exists>g'. trigger k g x w = Some g' \<and> well_formed g' \<and> promises g' ! ?p = Some v \<and>
           \<not> registered g' (Once n ?p) \<and> filter (calls_of (Once n ?p)) (delta g g') = [])"
  proof (intro allI impI)
    fix g :: "('v, 's) state" and x w v
    assume a: "well_formed g \<and> x < length (nodes g) \<and> enough g k \<and> ?p < length (promises g) \<and>
        promises g ! ?p = Some v \<and> \<not> registered g (Once n ?p)"
    have "\<exists>g'. trigger k g x w = Some g' \<and> well_formed g' \<and> shrinks g g' \<and>
       promises g' ! ?p = Some v \<and> \<not> registered g' (Once n ?p) \<and>
       filter (calls_of (Once n ?p)) (delta g g') = []"
      by (rule settled_stays) (use a in blast)+
    then show "\<exists>g'. trigger k g x w = Some g' \<and> well_formed g' \<and> promises g' ! ?p = Some v \<and>
           \<not> registered g' (Once n ?p) \<and> filter (calls_of (Once n ?p)) (delta g g') = []"
      by blast
  qed
  show ?thesis using N wf1 A B C D E by blast
qed


theorem next_resolves_once_witness:
  "well_formed demo \<and> 0 < length (nodes demo) \<and> enough demo 11 \<and>
   (\<exists>h1 p. p = length (promises demo) \<and> next_ev 11 demo 0 = Some (h1, p) \<and> well_formed h1 \<and>
     enough h1 11 \<and> p < length (promises h1) \<and> promises h1 ! p = None \<and>
     Once 0 p \<in> set (listeners (nodes h1 ! 0)) \<and>
     (\<forall>(g :: (int, string) state) v.
        well_formed g \<and> 0 < length (nodes g) \<and> enough g 11 \<and> p < length (promises g) \<and>
        promises g ! p = None \<and> Once 0 p \<in> set (listeners (nodes g ! 0)) \<longrightarrow>
        (\<exists>g'. notifyListeners 11 g 0 v = Some g' \<and> well_formed g' \<and> promises g' ! p = Some v \<and>
           \<not> registered g' (Once 0 p) \<and>
           filter (calls_of (Once 0 p)) (delta g g') = [Call (Once 0 p) v (sender (nodes g ! 0))])) \<and>
     (\<forall>(g :: (int, string) state) x w v.
        well_formed g \<and> x < length (nodes g) \<and> enough g 11 \<and> p < length (promises g) \<and>
        promises g ! p = Some v \<and> \<not> registered g (Once 0 p) \<longrightarrow>
        (\<exists>g'. trigger 11 g x w = Some g' \<and> well_formed g' \<and> promises g' ! p = Some v \<and>
           \<not> registered g' (Once 0 p) \<and> filter (calls_of (Once 0 p)) (delta g g') = []))) \<and>
   (case next_ev 11 demo 0 of None \<Rightarrow> None
    | Some (h1, p) \<Rightarrow>
        (case trigger 11 h1 0 5 of None \<Rightarrow> None
         | Some h2 \<Rightarrow>
             (case trigger 11 h2 0 6 of None \<Rightarrow> None
              | Some h3 \<Rightarrow> Some (p, promises h3, filter (calls_of (Once 0 p)) (trace h3))))) =
     Some (0, [Some 5], [Call (Once 0 0) 5 ''me''])"
proof -
  have b: "0 < length (nodes demo)" by (simp add: demo_def)
  have t: "(case next_ev 11 demo 0 of None \<Rightarrow> None
    | Some (h1, p) \<Rightarrow>
        (case trigger 11 h1 0 5 of None \<Rightarrow> None
         | Some h2 \<Rightarrow>
             (case trigger 11 h2 0 6 of None \<Rightarrow> None
              | Some h3 \<Rightarrow> Some (p, promises h3, filter (calls_of (Once 0 p)) (trace h3))))) =
     Some (0, [Some 5], [Call (Once 0 0) 5 ''me''])"
    by code_simp
  show ?thesis
    using demo_well_formed b demo_enough next_resolves_once[OF demo_well_formed b demo_enough] t
    by blast
qed


text \<open>
  C9 (\<^verbatim>\<open>take(n)\<close> awaits \<^verbatim>\<open>next()\<close> exactly \<open>n\<close> times, one after the other, and resolves
  with the \<open>n\<close> received values in order; \<^verbatim>\<open>take(0)\<close> resolves at once with the empty
  array, registers no listener and runs no hook). \<^verbatim>\<open>take(0)\<close> needs no fuel and only records
  the returned call: nodes and trace are untouched. For a non-empty list \<open>vs\<close> of values,
  \<^verbatim>\<open>take(length vs)\<close> returns suspended; \<open>rounds\<close> lets the node fire with each value in turn
  and runs the queue of continuations after each firing (for a source the firing is its trigger
  function). After the first \<open>j < length vs\<close> firings the call is suspended at its
  \<open>j + 1\<close>-st \<^verbatim>\<open>await this.next()\<close>, holding the first \<open>j\<close> values, on a pending promise
  whose listener is registered on the node; after all firings it has returned \<open>vs\<close>. Other
  calls of \<^verbatim>\<open>take\<close> may be suspended in the store.
\<close>

theorem take_collects:
  assumes "well_formed (h :: ('v, 's) state)" "takes_ok h" "queue h = []" "n < length (nodes h)"
    "enough h k"
  shows "take_ev k h n 0 = Some (h\<lparr>takes := takes h @ [Returned []]\<rparr>, length (takes h)) \<and>
     (vs \<noteq> [] \<longrightarrow>
        (\<exists>h1. take_ev k h n (int (length vs)) = Some (h1, length (takes h)) \<and>
           (\<forall>j < length vs. \<exists>g. rounds k h1 n (take j vs) = Some g \<and>
               waiting (length (takes h)) n (int (length vs)) (int j) (take j vs) g) \<and>
           (\<exists>g. rounds k h1 n vs = Some g \<and> takes g ! length (takes h) = Returned vs))) \<and>
     (\<forall>(g :: ('v, 's) state) nd v. node_at g n = Some nd \<and> variant nd = SingleEventSource \<longrightarrow>
        trigger (Suc k) g n v = notifyListeners k g n v)"
proof -
  let ?t = "length (takes h)"
  let ?c = "int (length vs)"
  have A: "take_ev k h n 0 = Some (h\<lparr>takes := takes h @ [Returned []]\<rparr>, ?t)"
    by (simp add: take_ev_def take_loop_def)
  have B: "vs \<noteq> [] \<longrightarrow>
        (\<exists>h1. take_ev k h n ?c = Some (h1, ?t) \<and>
           (\<forall>j < length vs. \<exists>g. rounds k h1 n (take j vs) = Some g \<and>
               waiting ?t n ?c (int j) (take j vs) g) \<and>
           (\<exists>g. rounds k h1 n vs = Some g \<and> takes g ! ?t = Returned vs))"
  proof
    assume ne: "vs \<noteq> []"
    then have pos: "0 < ?c" by simp
    obtain h1 where T: "take_ev k h n ?c = Some (h1, ?t)" and b1: "base k ?t n h1"
      and q1: "queue h1 = []" and w1: "waiting ?t n ?c 0 [] h1"
      using take_ev_start[OF assms(1,2,5,4,3) pos] by blast
    have mid: "\<forall>j < length vs. \<exists>g. rounds k h1 n (take j vs) = Some g \<and>
               waiting ?t n ?c (int j) (take j vs) g"
    proof (intro allI impI)
      fix j assume j: "j < length vs"
      have le: "0 + int (length (take j vs)) \<le> ?c" using j by simp
      obtain g where r: "rounds k h1 n (take j vs) = Some g"
        and c: "if 0 + int (length (take j vs)) < ?c
           then waiting ?t n ?c (0 + int (length (take j vs))) ([] @ take j vs) g
           else takes g ! ?t = Returned ([] @ take j vs)"
        using rounds_effect[OF b1 q1 w1 pos le] by blast
      have "length (take j vs) = j" using j by simp
      then have "waiting ?t n ?c (int j) (take j vs) g" using c j by simp
      then show "\<exists>g. rounds k h1 n (take j vs) = Some g \<and> waiting ?t n ?c (int j) (take j vs) g"
        using r by blast
    qed
    have le: "0 + int (length vs) \<le> ?c" by simp
    obtain g where r: "rounds k h1 n vs = Some g"
      and c: "if 0 + int (length vs) < ?c
           then waiting ?t n ?c (0 + int (length vs)) ([] @ vs) g
           else takes g ! ?t = Returned ([] @ vs)"
      using rounds_effect[OF b1 q1 w1 pos le] by blast
    have "takes g ! ?t = Returned vs" using c by simp
    then show "\<exists>h1. take_ev k h n ?c = Some (h1, ?t) \<and>
           (\<forall>j < length vs. \<exists>g. rounds k h1 n (take j vs) = Some g \<and>
               waiting ?t n ?c (int j) (take j vs) g) \<and>
           (\<exists>g. rounds k h1 n vs = Some g \<and> takes g ! ?t = Returned vs)"
      using T mid r by blast
  qed
  have C: "\<forall>(g :: ('v, 's) state) nd v. node_at g n = Some nd \<and> variant nd = SingleEventSource \<longrightarrow>
        trigger (Suc k) g n v = notifyListeners k g n v"
    by (auto simp: trigger_source)
  show ?thesis using A B C by blast
qed

theorem take_collects_witness:
  "well_formed demo \<and> takes_ok demo \<and> queue demo = [] \<and> 0 < length (nodes demo) \<and> enough demo 11 \<and>
   take_ev 11 demo 0 0 = Some (demo\<lparr>takes := takes demo @ [Returned []]\<rparr>, length (takes demo)) \<and>
   [11, 12, 13 :: int] \<noteq> [] \<and>
   (\<exists>h1. take_ev 11 demo 0 (int (length [11, 12, 13 :: int])) = Some (h1, length (takes demo)) \<and>
      (\<forall>j < length [11, 12, 13 :: int]. \<exists>g. rounds 11 h1 0 (take j [11, 12, 13]) = Some g \<and>
          waiting (length (takes demo)) 0 (int (length [11, 12, 13 :: int])) (int j) (take j [11, 12, 13]) g) \<and>
      (\<exists>g. rounds 11 h1 0 [11, 12, 13] = Some g \<and> takes g ! length (takes demo) = Returned [11, 12, 13])) \<and>
   (case take_ev 11 demo 0 3 of None \<Rightarrow> None
    | Some (h1, t) \<Rightarrow>
        (case trigger 12 h1 0 11 of None \<Rightarrow> None
         | Some a \<Rightarrow>
             (case drain 11 a of None \<Rightarrow> None
              | Some b \<Rightarrow>
                  (case trigger 12 b 0 12 of None \<Rightarrow> None
                   | Some c \<Rightarrow>
                       (case drain 11 c of None \<Rightarrow> None
                        | Some d \<Rightarrow>
                            (case trigger 12 d 0 13 of None \<Rightarrow> None
                             | Some e \<Rightarrow>
                                 (case drain 11 e of None \<Rightarrow> None
                                  | Some f \<Rightarrow> Some (takes f ! t, promises f)))))))) =
     Some (Returned [11, 12, 13], [Some 11, Some 12, Some 13])"
proof -
  have a: "takes_ok demo" by (simp add: takes_ok_def demo_def)
  have b: "queue demo = []" by (simp add: demo_def)
  have c: "0 < length (nodes demo)" by (simp add: demo_def)
  have ne: "[11, 12, 13 :: int] \<noteq> []" by simp
  have t: "(case take_ev 11 demo 0 3 of None \<Rightarrow> None
    | Some (h1, t) \<Rightarrow>
        (case trigger 12 h1 0 11 of None \<Rightarrow> None
         | Some a \<Rightarrow>
             (case drain 11 a of None \<Rightarrow> None
              | Some b \<Rightarrow>
                  (case trigger 12 b 0 12 of None \<Rightarrow> None
                   | Some c \<Rightarrow>
                       (case drain 11 c of None \<Rightarrow> None
                        | Some d \<Rightarrow>
                            (case trigger 12 d 0 13 of None \<Rightarrow> None
                             | Some e \<Rightarrow>
                                 (case drain 11 e of None \<Rightarrow> None
                                  | Some f \<Rightarrow> Some (takes f ! t, promises f)))))))) =
     Some (Returned [11, 12, 13], [Some 11, Some 12, Some 13])"
    by code_simp
  show ?thesis
    using demo_well_formed a b c demo_enough ne
      take_collects[OF demo_well_formed a b c demo_enough, of "[11, 12, 13]"] t
    by blast
qed

end
